(* ===== verification/Prelude.thy ===== *)
theory Prelude
  imports Main "HOL-Library.Word"
begin

text \<open>
  Shared vocabulary of the development: the machine types the driver uses, signed kernel
  timestamps as a linear order, copying into byte buffers (\<open>memcpy\<close>), little-endian
  integers, and the interface of a fixed-width on-disk encoding (locale \<open>byte_codec\<close> and
  its bijective extension \<open>exact_codec\<close>), with the lemmas the components share.
\<close>

section \<open>Types\<close>

type_synonym byte = "8 word"
type_synonym bytes = "byte list"
type_synonym u32 = "32 word"
type_synonym u64 = "64 word"
type_synonym addr = nat

named_theorems layout_consts \<open>values of the layout constants\<close>

section \<open>Kernel timestamps\<close>

text \<open>
  \<open>ktime_t\<close> is a signed 64-bit count of nanoseconds; the code compares two of them with the
  signed comparison. The type is given that order, so that the library's \<open>sorted\<close> and
  \<open>insort_key\<close> speak about the driver's comparison.
\<close>

lemma sint_eqD: "sint (a :: 'a::len word) = sint b \<Longrightarrow> a = b"
  by (rule signed_word_eqI)

datatype ktime = Ktime (ns: u64)

lemma ktime_eqI: "sint (ns a) = sint (ns b) \<Longrightarrow> a = b"
  by (cases a; cases b) (auto dest: sint_eqD)

instantiation ktime :: linorder
begin

definition less_eq_ktime :: "ktime \<Rightarrow> ktime \<Rightarrow> bool" where
  "less_eq_ktime a b \<longleftrightarrow> sint (ns a) \<le> sint (ns b)"

definition less_ktime :: "ktime \<Rightarrow> ktime \<Rightarrow> bool" where
  "less_ktime a b \<longleftrightarrow> sint (ns a) < sint (ns b)"

instance
  by standard (auto simp: less_eq_ktime_def less_ktime_def intro: ktime_eqI)

end

lemma ktime_pos_iff: "Ktime 0 < t \<longleftrightarrow> 0 < sint (ns t)"
  by (simp add: less_ktime_def)

section \<open>Lists\<close>

lemma map_update_same [simp]:
  "i < length xs \<Longrightarrow> f (xs ! i) = f x \<Longrightarrow> map f (xs[i := x]) = map f xs"
  by (simp add: map_update list_update_same_conv)

lemma distinct_list_update_fresh:
  "distinct xs \<Longrightarrow> x \<notin> set xs \<Longrightarrow> distinct (xs[i := x])"
  by (rule distinct_list_update) auto

lemma set_map_update_subset: "set (map f (xs[i := x])) \<subseteq> insert (f x) (set (map f xs))"
  using set_update_subset_insert [of xs i x] by auto

lemma find_Some_mem: "find P xs = Some x \<Longrightarrow> x \<in> set xs \<and> P x"
  by (auto simp: find_Some_iff)

lemma find_unique:
  assumes "distinct (map f xs)" "x \<in> set xs"
  shows "find (\<lambda>y. f y = f x) xs = Some x"
  using assms by (induction xs) (auto simp: image_iff)

lemma distinct_map_eqD: "distinct (map f xs) \<Longrightarrow> x \<in> set xs \<Longrightarrow> y \<in> set xs \<Longrightarrow> f x = f y \<Longrightarrow> x = y"
  by (auto simp: distinct_map inj_on_def)

section \<open>Byte buffers\<close>

text \<open>
  \<open>memcpy (dst + off, src, length src)\<close> into a buffer that has room for it: the bytes before
  \<open>off\<close> and after the copied range keep their values.
\<close>

definition memcpy_at :: "nat \<Rightarrow> bytes \<Rightarrow> bytes \<Rightarrow> bytes" where
  "memcpy_at off src dst = take off dst @ src @ drop (off + length src) dst"

lemma length_memcpy_at [simp]:
  "off + length src \<le> length dst \<Longrightarrow> length (memcpy_at off src dst) = length dst"
  by (simp add: memcpy_at_def)

lemma take_memcpy_at_0 [simp]: "n = length src \<Longrightarrow> take n (memcpy_at 0 src dst) = src"
  by (simp add: memcpy_at_def)

lemma drop_memcpy_at_0 [simp]: "n = length src \<Longrightarrow> drop n (memcpy_at 0 src dst) = drop n dst"
  by (simp add: memcpy_at_def)

lemma drop_memcpy_at [simp]:
  "off \<le> length dst \<Longrightarrow> drop off (memcpy_at off src dst) = src @ drop (off + length src) dst"
  by (simp add: memcpy_at_def)

section \<open>Little-endian integers\<close>

primrec le_bytes :: "nat \<Rightarrow> nat \<Rightarrow> bytes" where
  "le_bytes 0 x = []"
| "le_bytes (Suc k) x = word_of_nat x # le_bytes k (x div 256)"

primrec le_nat :: "bytes \<Rightarrow> nat" where
  "le_nat [] = 0"
| "le_nat (b # bs) = unat b + 256 * le_nat bs"

lemma unat_lt: "unat (w :: 'a::len word) < 2 ^ LENGTH('a)"
  by (rule unsigned_less)

lemma unat_byte: "unat (b :: byte) < 256"
  using unsigned_less [of b] by simp

lemma unat_eqD: "unat (a :: 'a::len word) = unat b \<Longrightarrow> a = b"
  by (rule unsigned_word_eqI)

lemma length_le_bytes [simp]: "length (le_bytes k x) = k"
  by (induction k arbitrary: x) auto

lemma le_nat_le_bytes: "le_nat (le_bytes k x) = x mod 256 ^ k"
proof (induction k arbitrary: x)
  case (Suc k)
  have "x mod (256 * 256 ^ k) = 256 * (x div 256 mod 256 ^ k) + x mod 256"
    by (rule mod_mult2_eq)
  then show ?case using Suc by (simp add: unat_of_nat)
qed simp

lemma le_nat_bound: "le_nat bs < 256 ^ length bs"
proof (induction bs)
  case (Cons b bs)
  have "unat b < 256" by (rule unat_byte)
  then have "unat b + 256 * le_nat bs < 256 * (le_nat bs + 1)" by simp
  also have "\<dots> \<le> 256 * 256 ^ length bs"
    using Cons by (intro mult_le_mono) auto
  finally show ?case by simp
qed simp

lemma le_bytes_le_nat: "k = length bs \<Longrightarrow> le_bytes k (le_nat bs) = bs"
proof (induction bs arbitrary: k)
  case (Cons b bs)
  have b: "unat b < 256" by (rule unat_byte)
  have z: "(256 :: byte) = 0" by simp
  have "(word_of_nat (unat b + 256 * le_nat bs) :: byte) = word_of_nat (unat b)"
    by (simp only: of_nat_add of_nat_mult of_nat_numeral z mult_zero_left add_0_right)
  with Cons b show ?case by simp
qed simp

section \<open>Conversions\<close>

text \<open>The widths the code converts between; a value that fits is kept.\<close>

lemma unat_ucast_15_64 [simp]: "unat (ucast (v :: 15 word) :: u64) = unat v"
  using unat_lt [of v] by (simp add: unsigned_ucast_eq take_bit_nat_eq_self)

lemma unat_ucast_15_32 [simp]: "unat (ucast (v :: 15 word) :: u32) = unat v"
  using unat_lt [of v] by (simp add: unsigned_ucast_eq take_bit_nat_eq_self)

lemma unat_ucast_32_64 [simp]: "unat (ucast (v :: u32) :: u64) = unat v"
  using unat_lt [of v] by (simp add: unsigned_ucast_eq take_bit_nat_eq_self)

lemma unat_ucast_64_32: "unat (v :: u64) < 2 ^ 32 \<Longrightarrow> unat (ucast v :: u32) = unat v"
  by (simp add: unsigned_ucast_eq take_bit_nat_eq_self)

lemma mod_wrap_int: "(n :: int) \<le> x \<Longrightarrow> x < 2 * n \<Longrightarrow> x mod n = x - n"
proof -
  assume "n \<le> x" "x < 2 * n"
  then have "(x - n) mod n = x - n" by (intro mod_pos_pos_trivial) simp_all
  then show ?thesis by simp
qed

lemma u32_cases:
  obtains x where "unat (v :: u32) = x" "uint v = int x" "x < 4294967296"
  using unat_lt [of v] by (auto intro: that)

lemma sint_u32: "sint (v :: u32) = (if unat v < 2 ^ 31 then uint v else uint v - 2 ^ 32)"
proof -
  obtain x where x: "unat v = x" "uint v = int x" "x < 4294967296" by (rule u32_cases)
  have "sint v = (uint v + 2147483648) mod 4294967296 - 2147483648"
    by (simp add: sint_uint signed_take_bit_eq_take_bit_shift take_bit_eq_mod)
  also have "(uint v + 2147483648) mod 4294967296 =
      (if x < 2147483648 then int x + 2147483648 else int x - 2147483648)"
    unfolding x using x(3) mod_wrap_int [of 4294967296 "int x + 2147483648"]
    by (simp add: mod_pos_pos_trivial)
  finally show ?thesis unfolding x by simp
qed

lemma unat_scast: "unat (scast (v :: u32) :: u64) = nat (sint v mod 18446744073709551616)"
  unfolding scast_eq unat_eq_nat_uint uint_word_of_int by simp

lemma unat_scast_nonneg: "unat (v :: u32) < 2 ^ 31 \<Longrightarrow> unat (scast v :: u64) = unat v"
proof -
  assume a: "unat v < 2 ^ 31"
  obtain x where x: "unat v = x" "uint v = int x" "x < 4294967296" by (rule u32_cases)
  from a show ?thesis
    unfolding unat_scast sint_u32 unfolding x by (simp add: mod_pos_pos_trivial)
qed

lemma unat_scast_neg: "unat (v :: u32) \<ge> 2 ^ 31 \<Longrightarrow> unat (scast v :: u64) \<ge> 2 ^ 63"
proof -
  assume a: "unat v \<ge> 2 ^ 31"
  obtain x where x: "unat v = x" "uint v = int x" "x < 4294967296" by (rule u32_cases)
  have "(int x - 4294967296) mod 18446744073709551616 = int x - 4294967296 + 18446744073709551616"
    using mod_add_self2 [of "int x - 4294967296" 18446744073709551616] x a
    by (simp add: mod_pos_pos_trivial)
  then show ?thesis using a unfolding unat_scast sint_u32 unfolding x by simp
qed

section \<open>Fixed-width encodings\<close>

text \<open>
  An on-disk structure is written by copying its \<open>width\<close> bytes and read back by casting the
  block's bytes. \<open>byte_codec\<close> is what a structure's layout promises its users; in an
  \<open>exact_codec\<close> every bit of the encoding belongs to a field.
\<close>

locale byte_codec =
  fixes enc :: "'a \<Rightarrow> bytes"
    and dec :: "bytes \<Rightarrow> 'a"
    and width :: nat
  assumes dec_enc: "dec (enc x) = x"
    and length_enc: "length (enc x) = width"
begin

lemma dec_enc_append: "dec (take width (enc x @ bs)) = x"
  by (simp add: length_enc dec_enc)

lemma enc_inj: "enc x = enc y \<Longrightarrow> x = y"
  using dec_enc by metis

lemma dec_memcpy: "dec (take width (memcpy_at 0 (enc x) blk)) = x"
  by (simp add: length_enc dec_enc)

lemma memcpy_payload: "drop width (memcpy_at 0 (enc x) blk) = drop width blk"
  by (simp add: length_enc)

lemma length_memcpy_enc: "width \<le> length blk \<Longrightarrow> length (memcpy_at 0 (enc x) blk) = length blk"
  by (simp add: length_enc)

end

locale exact_codec = byte_codec +
  assumes enc_dec: "length bs = width \<Longrightarrow> enc (dec bs) = bs"
begin

lemma dec_inj: "length bs = width \<Longrightarrow> length cs = width \<Longrightarrow> dec bs = dec cs \<Longrightarrow> bs = cs"
  using enc_dec by metis

lemma memcpy_dec_id: "width \<le> length blk \<Longrightarrow> memcpy_at 0 (enc (dec (take width blk))) blk = blk"
  by (simp add: enc_dec memcpy_at_def)

end

end
