(* ===== verification/Kernel.thy ===== *)
theory Kernel
  imports Prelude
begin

text \<open>
  What the driver's C code has from the kernel and the language: error numbers, the faults an
  execution can end in, the allocator and the spinlock. An allocation site gives its result
  as a parameter of the operation (\<open>None\<close> is the \<open>NULL\<close> of a failed \<open>kzalloc\<close>); the set
  \<open>live\<close> holds the addresses of the objects that are currently allocated, so that a
  \<open>kfree\<close> of anything else is a fault. A record of this theory is extended by the state of
  each component, and the operations here work on every extension.
\<close>

section \<open>Results\<close>

datatype errno =
    EPERM | EIO | E2BIG | EBADF | ENOMEM | EBUSY | ENODEV | EINVAL | ENODATA | EMSGSIZE
  | EADDRNOTAVAIL | ENOSYS

primrec errno_value :: "errno \<Rightarrow> int" where
  "errno_value EPERM = 1"
| "errno_value EIO = 5"
| "errno_value E2BIG = 7"
| "errno_value EBADF = 9"
| "errno_value ENOMEM = 12"
| "errno_value EBUSY = 16"
| "errno_value ENODEV = 19"
| "errno_value EINVAL = 22"
| "errno_value ENOSYS = 38"
| "errno_value ENODATA = 61"
| "errno_value EMSGSIZE = 90"
| "errno_value EADDRNOTAVAIL = 99"

datatype fault = NullDeref | UseAfterFree addr | DoubleFree addr | ListPoison | OutOfBounds | Deadlock
  | WriteProtected

type_synonym 'a sysret = "errno + 'a"

text \<open>Sequencing: a fault ends the execution.\<close>

definition andThen :: "fault + 'a \<Rightarrow> ('a \<Rightarrow> fault + 'b) \<Rightarrow> fault + 'b" where
  "andThen r f = (case r of Inl e \<Rightarrow> Inl e | Inr x \<Rightarrow> f x)"

lemma andThen_simps [simp]: "andThen (Inl e) f = Inl e" "andThen (Inr x) f = f x"
  by (simp_all add: andThen_def)

lemma andThen_eq_Inr: "andThen r f = Inr y \<longleftrightarrow> (\<exists>x. r = Inr x \<and> f x = Inr y)"
  by (cases r) auto

section \<open>Allocator\<close>

record kmem =
  live :: "addr set"

definition kzalloc :: "addr \<Rightarrow> 'a kmem_scheme \<Rightarrow> 'a kmem_scheme" where
  "kzalloc a s = s\<lparr>live := insert a (live s)\<rparr>"

definition kfree :: "addr \<Rightarrow> 'a kmem_scheme \<Rightarrow> fault + 'a kmem_scheme" where
  "kfree a s = (if a \<in> live s then Inr (s\<lparr>live := live s - {a}\<rparr>) else Inl (DoubleFree a))"

primrec kfree_all :: "addr list \<Rightarrow> 'a kmem_scheme \<Rightarrow> fault + 'a kmem_scheme" where
  "kfree_all [] s = Inr s"
| "kfree_all (a # as) s = andThen (kfree a s) (kfree_all as)"

text \<open>A result \<open>a\<close> of an allocation is not the address of an object still in use.\<close>

definition fresh :: "'a kmem_scheme \<Rightarrow> addr \<Rightarrow> bool" where
  "fresh s a \<longleftrightarrow> a \<notin> live s"

lemma live_kzalloc [simp]: "live (kzalloc a s) = insert a (live s)"
  by (simp add: kzalloc_def)

lemma kfree_live [simp]: "a \<in> live s \<Longrightarrow> kfree a s = Inr (s\<lparr>live := live s - {a}\<rparr>)"
  by (simp add: kfree_def)

lemma kfree_dead [simp]: "a \<notin> live s \<Longrightarrow> kfree a s = Inl (DoubleFree a)"
  by (simp add: kfree_def)

lemma kfree_all_live:
  "distinct as \<Longrightarrow> set as \<subseteq> live s \<Longrightarrow> kfree_all as s = Inr (s\<lparr>live := live s - set as\<rparr>)"
proof (induction as arbitrary: s)
  case (Cons a as)
  have "live s - {a} - set as = live s - set (a # as)" by auto
  moreover have "kfree_all as (s\<lparr>live := live s - {a}\<rparr>) = Inr (s\<lparr>live := live s - {a} - set as\<rparr>)"
    using Cons.IH [of "s\<lparr>live := live s - {a}\<rparr>"] Cons.prems by auto
  ultimately show ?case using Cons.prems by simp
qed simp

section \<open>Spinlock and read-copy-update\<close>

text \<open>
  The writers' lock, the number of open read-side critical sections, and the waiting for a
  grace period. A call is followed on its own here: a grace period ends only when the sections
  open at its start have ended, so a caller that waits inside one of its own never returns.
  \<open>slept_locked\<close> records a wait, which may sleep, made while the spinlock is held.
\<close>

record lock = kmem +
  rcu_write_lock :: bool
  rcu_readers :: nat
  slept_locked :: bool

definition spin_lock :: "'a lock_scheme \<Rightarrow> fault + 'a lock_scheme" where
  "spin_lock s = (if rcu_write_lock s then Inl Deadlock else Inr (s\<lparr>rcu_write_lock := True\<rparr>))"

definition spin_unlock :: "'a lock_scheme \<Rightarrow> 'a lock_scheme" where
  "spin_unlock s = s\<lparr>rcu_write_lock := False\<rparr>"

definition rcu_read_lock :: "'a lock_scheme \<Rightarrow> 'a lock_scheme" where
  "rcu_read_lock s = s\<lparr>rcu_readers := rcu_readers s + 1\<rparr>"

definition rcu_read_unlock :: "'a lock_scheme \<Rightarrow> 'a lock_scheme" where
  "rcu_read_unlock s = s\<lparr>rcu_readers := rcu_readers s - 1\<rparr>"

definition synchronize_rcu :: "'a lock_scheme \<Rightarrow> fault + 'a lock_scheme" where
  "synchronize_rcu s =
     (if rcu_readers s \<noteq> 0 then Inl Deadlock
      else Inr (s\<lparr>slept_locked := (slept_locked s \<or> rcu_write_lock s)\<rparr>))"

lemma spin_lock_free [simp]: "\<not> rcu_write_lock s \<Longrightarrow> spin_lock s = Inr (s\<lparr>rcu_write_lock := True\<rparr>)"
  by (simp add: spin_lock_def)

lemma rcu_read_unlock_lock [simp]: "rcu_read_unlock (rcu_read_lock s) = s"
  by (simp add: rcu_read_lock_def rcu_read_unlock_def)

lemma synchronize_unlocked [simp]:
  "rcu_readers s = 0 \<Longrightarrow> \<not> rcu_write_lock s \<Longrightarrow> synchronize_rcu s = Inr s"
  by (simp add: synchronize_rcu_def)

lemma synchronize_locked [simp]:
  "rcu_readers s = 0 \<Longrightarrow> rcu_write_lock s \<Longrightarrow> synchronize_rcu s = Inr (s\<lparr>slept_locked := True\<rparr>)"
  by (simp add: synchronize_rcu_def)

end
