(* ===== verification/Device.thy ===== *)
theory Device
  imports Prelude
begin

text \<open>
  The on-disk layout (\<^verbatim>\<open>include/bldms.h\<close>, \<^verbatim>\<open>include/device.h\<close>): the constants, the packed
  per-block metadata, the superblock and the inode of the single file, each with its byte
  encoding on a little-endian machine. The encodings are interpretations of the codec
  interface of \<^verbatim>\<open>Prelude\<close>; the metadata encoding is exact, all its 80 bits are fields.
\<close>

section \<open>Constants\<close>

definition MAGIC :: u64 where
  "MAGIC = 0x30303030"

definition DEFAULT_BLOCK_SIZE :: nat where
  "DEFAULT_BLOCK_SIZE = 4096"

definition NBLOCKS :: nat where
  "NBLOCKS = 1000"

definition SB_BLOCK_NUMBER :: nat where
  "SB_BLOCK_NUMBER = 0"

definition BLDMS_SINGLEFILE_INODE_NUMBER :: nat where
  "BLDMS_SINGLEFILE_INODE_NUMBER = 1"

definition METADATA_SIZE :: nat where
  "METADATA_SIZE = 10"

definition NUM_METADATA_BLKS :: nat where
  "NUM_METADATA_BLKS = 2"

definition BLK_INVALID :: "1 word" where
  "BLK_INVALID = 0"

definition BLK_VALID :: "1 word" where
  "BLK_VALID = BLK_INVALID + 1"

lemmas size_consts [layout_consts] =
  DEFAULT_BLOCK_SIZE_def METADATA_SIZE_def NUM_METADATA_BLKS_def NBLOCKS_def

lemmas valid_consts = BLK_INVALID_def BLK_VALID_def

lemma valid_flag_cases: "v = BLK_INVALID \<or> v = BLK_VALID"
proof -
  have "unat v < 2" using unsigned_less [of v] by simp
  then have "unat v = unat BLK_INVALID \<or> unat v = unat BLK_VALID"
    by (auto simp: valid_consts)
  then show ?thesis by (auto dest: unat_eqD)
qed

lemma valid_flag_distinct [simp]: "BLK_VALID \<noteq> BLK_INVALID" "BLK_INVALID \<noteq> BLK_VALID"
  by (simp_all add: valid_consts)

lemma not_invalid_iff [simp]: "v \<noteq> BLK_INVALID \<longleftrightarrow> v = BLK_VALID"
  using valid_flag_cases [of v] by auto

section \<open>Block metadata\<close>

text \<open>
  \<open>struct bldms_block\<close> is packed: eight bytes of timestamp, then two bytes whose lowest bit is
  \<open>is_valid\<close> and whose other fifteen are \<open>valid_bytes\<close>.
\<close>

record bldms_block =
  nsec :: ktime
  is_valid :: "1 word"
  valid_bytes :: "15 word"

definition encode_block :: "bldms_block \<Rightarrow> bytes" where
  "encode_block b = le_bytes 8 (unat (ns (nsec b))) @
     le_bytes 2 (unat (is_valid b) + 2 * unat (valid_bytes b))"

definition decode_block :: "bytes \<Rightarrow> bldms_block" where
  "decode_block bs = \<lparr>nsec = Ktime (word_of_nat (le_nat (take 8 bs))),
     is_valid = word_of_nat (le_nat (take 2 (drop 8 bs))),
     valid_bytes = word_of_nat (le_nat (take 2 (drop 8 bs)) div 2)\<rparr>"

lemma two_bit: "(2 :: 1 word) = 0"
  by simp

lemma decode_encode_block: "decode_block (encode_block b) = b"
proof -
  have v: "unat (is_valid b) < 2" using unsigned_less [of "is_valid b"] by simp
  have y: "unat (valid_bytes b) < 32768" using unsigned_less [of "valid_bytes b"] by simp
  have n: "unat (ns (nsec b)) < 256 ^ 8" using unsigned_less [of "ns (nsec b)"] by simp
  have "(unat (is_valid b) + 2 * unat (valid_bytes b)) mod 256 ^ 2 =
      unat (is_valid b) + 2 * unat (valid_bytes b)"
    using v y by simp
  then have "le_nat (le_bytes 2 (unat (is_valid b) + 2 * unat (valid_bytes b))) =
      unat (is_valid b) + 2 * unat (valid_bytes b)"
    by (simp add: le_nat_le_bytes del: le_bytes.simps)
  moreover have "(word_of_nat (unat (is_valid b) + 2 * unat (valid_bytes b)) :: 1 word) = is_valid b"
    by (simp only: of_nat_add of_nat_mult of_nat_numeral two_bit mult_zero_left add_0_right
        of_nat_unat ucast_id)
  moreover have "(unat (is_valid b) + 2 * unat (valid_bytes b)) div 2 = unat (valid_bytes b)"
    using v by simp
  ultimately show ?thesis
    using n by (simp add: decode_block_def encode_block_def le_nat_le_bytes)
qed

lemma length_encode_block [simp]: "length (encode_block b) = METADATA_SIZE"
  by (simp add: encode_block_def layout_consts)

lemma encode_decode_block:
  assumes "length bs = METADATA_SIZE"
  shows "encode_block (decode_block bs) = bs"
proof -
  let ?m = "le_nat (take 2 (drop 8 bs))"
  have l: "length (take 8 bs) = 8" "length (take 2 (drop 8 bs)) = 2"
    using assms by (simp_all add: layout_consts)
  have n: "le_nat (take 8 bs) < 2 ^ 64" using le_nat_bound [of "take 8 bs"] l by simp
  have m: "?m < 65536" using le_nat_bound [of "take 2 (drop 8 bs)"] l by simp
  have "unat (word_of_nat ?m :: 1 word) + 2 * unat (word_of_nat (?m div 2) :: 15 word) = ?m"
    using m by (simp add: unat_of_nat)
  then have "encode_block (decode_block bs) =
      le_bytes 8 (le_nat (take 8 bs)) @ le_bytes 2 ?m"
    using n by (simp add: encode_block_def decode_block_def unat_of_nat del: le_bytes.simps)
  also have "\<dots> = take 8 bs @ take 2 (drop 8 bs)"
    using l by (simp only: le_bytes_le_nat)
  also have "\<dots> = bs"
    using assms by (simp add: layout_consts)
  finally show ?thesis .
qed

interpretation block: exact_codec encode_block decode_block METADATA_SIZE
  by unfold_locales (simp_all add: decode_encode_block encode_decode_block)

lemma encode_valid_flip:
  "encode_block (b\<lparr>is_valid := v\<rparr>) =
     le_bytes 8 (unat (ns (nsec b))) @ le_bytes 2 (unat v + 2 * unat (valid_bytes b))"
  by (simp add: encode_block_def)

section \<open>Superblock\<close>

text \<open>
  \<open>struct bldms_sb_info\<close> fills a whole block: version, magic number and padding whose content
  nobody sets. The codec is that of its sixteen meaningful bytes; \<open>sb_block\<close> is the block.
\<close>

record bldms_sb_info =
  version :: u64
  magic :: u64

definition encode_sb :: "bldms_sb_info \<Rightarrow> bytes" where
  "encode_sb sb = le_bytes 8 (unat (version sb)) @ le_bytes 8 (unat (magic sb))"

definition decode_sb :: "bytes \<Rightarrow> bldms_sb_info" where
  "decode_sb bs = \<lparr>version = word_of_nat (le_nat (take 8 bs)),
     magic = word_of_nat (le_nat (take 8 (drop 8 bs)))\<rparr>"

definition sb_block :: "bytes \<Rightarrow> bldms_sb_info \<Rightarrow> bytes" where
  "sb_block padding sb = encode_sb sb @ padding"

lemma le_nat_u64 [simp]: "le_nat (le_bytes 8 (unat (x :: u64))) = unat x"
  using unat_lt [of x] by (simp add: le_nat_le_bytes)

interpretation sb: exact_codec encode_sb decode_sb 16
proof unfold_locales
  fix bs :: bytes
  assume l: "length bs = 16"
  then have "le_nat (take 8 bs) < 2 ^ 64" "le_nat (take 8 (drop 8 bs)) < 2 ^ 64"
    using le_nat_bound [of "take 8 bs"] le_nat_bound [of "take 8 (drop 8 bs)"] by simp_all
  then have "encode_sb (decode_sb bs) =
      le_bytes 8 (le_nat (take 8 bs)) @ le_bytes 8 (le_nat (take 8 (drop 8 bs)))"
    by (simp add: encode_sb_def decode_sb_def unat_of_nat)
  also have "\<dots> = bs" using l by (simp add: le_bytes_le_nat)
  finally show "encode_sb (decode_sb bs) = bs" .
qed (simp_all add: encode_sb_def decode_sb_def)

section \<open>Inode of the single file\<close>

text \<open>
  \<open>struct bldms_inode\<close>: a four-byte mode, four bytes of alignment padding (\<open>pad\<close>, whatever
  memory held), then three eight-byte fields; thirty-two bytes in all. The last field is the
  \<open>file_size\<close> side of its union.
\<close>

record bldms_inode =
  mode :: u32
  inode_no :: u64
  data_block_number :: u64
  file_size :: u64

definition encode_inode :: "u32 \<Rightarrow> bldms_inode \<Rightarrow> bytes" where
  "encode_inode pad ino = le_bytes 4 (unat (mode ino)) @ le_bytes 4 (unat pad) @
     le_bytes 8 (unat (inode_no ino)) @ le_bytes 8 (unat (data_block_number ino)) @
     le_bytes 8 (unat (file_size ino))"

definition decode_inode :: "bytes \<Rightarrow> bldms_inode" where
  "decode_inode bs = \<lparr>mode = word_of_nat (le_nat (take 4 bs)),
     inode_no = word_of_nat (le_nat (take 8 (drop 8 bs))),
     data_block_number = word_of_nat (le_nat (take 8 (drop 16 bs))),
     file_size = word_of_nat (le_nat (take 8 (drop 24 bs)))\<rparr>"

definition inode_size :: nat where
  "inode_size = 32"

lemma le_nat_u32 [simp]: "le_nat (le_bytes 4 (unat (x :: u32))) = unat x"
  using unat_lt [of x] by (simp add: le_nat_le_bytes)

interpretation inode: byte_codec "encode_inode pad" decode_inode inode_size for pad
  by unfold_locales (simp_all add: encode_inode_def decode_inode_def inode_size_def)

section \<open>Blocks of the device\<close>

text \<open>
  The block device as the kernel's buffer cache shows it: every block has
  \<open>DEFAULT_BLOCK_SIZE\<close> bytes. Data block \<open>i\<close> of the service is block
  \<open>i + NUM_METADATA_BLKS\<close> of the device.
\<close>

type_synonym disk = "nat \<Rightarrow> bytes"

definition block_metadata :: "bytes \<Rightarrow> bldms_block" where
  "block_metadata blk = decode_block (take METADATA_SIZE blk)"

definition block_payload :: "bytes \<Rightarrow> bytes" where
  "block_payload blk = drop METADATA_SIZE blk"

lemma block_metadata_memcpy [simp]: "block_metadata (memcpy_at 0 (encode_block b) blk) = b"
  unfolding block_metadata_def by (rule block.dec_memcpy)

lemma block_payload_memcpy [simp]:
  "block_payload (memcpy_at 0 (encode_block b) blk) = block_payload blk"
  by (simp add: block_payload_def block.memcpy_payload)

end
