(* ===== verification/Rcu_List.thy ===== *)
theory Rcu_List
  imports Kernel Device "HOL-Library.Multiset"
begin

text \<open>
  The list of valid blocks (\<^verbatim>\<open>rcu.c\<close>, \<^verbatim>\<open>include/rcu.h\<close>). The intrusive kernel list is a HOL
  list of its elements in list order; an element carries the address of its structure, which
  is what \<open>kfree\<close> and the identity of a node depend on. The header's interfaces are the
  locales \<open>valid_index\<close> (a map from block indexes to elements) and \<open>ordered_index\<close> (which adds
  the timestamp order), both interpreted on the operations of \<^verbatim>\<open>rcu.c\<close>.
\<close>

section \<open>State and operations\<close>

record rcu_elem =
  el_addr :: addr
  ndx :: u32
  el_nsec :: ktime
  el_valid_bytes :: u64

record rcu = lock +
  valid_blk_list :: "rcu_elem list"

definition rcu_fill :: "addr \<Rightarrow> u32 \<Rightarrow> u32 \<Rightarrow> ktime \<Rightarrow> rcu_elem" where
  "rcu_fill a i vb t = \<lparr>el_addr = a, ndx = i, el_nsec = t, el_valid_bytes = ucast vb\<rparr>"

definition rcu_init :: "'a rcu_scheme \<Rightarrow> 'a rcu_scheme" where
  "rcu_init s = s\<lparr>rcu_write_lock := False\<rparr>"

definition add_valid_block ::
  "addr option \<Rightarrow> u32 \<Rightarrow> u32 \<Rightarrow> ktime \<Rightarrow> 'a rcu_scheme \<Rightarrow> fault + unit sysret \<times> 'a rcu_scheme" where
  "add_valid_block alloc i vb t s =
     (case alloc of
        None \<Rightarrow> Inr (Inl ENOMEM, s)
      | Some a \<Rightarrow>
          andThen (spin_lock (kzalloc a s)) (\<lambda>s.
          let s = s\<lparr>valid_blk_list := valid_blk_list s @ [rcu_fill a i vb t]\<rparr>
          in Inr (Inr (), spin_unlock s)))"

definition add_valid_block_secure ::
  "addr \<Rightarrow> u32 \<Rightarrow> u32 \<Rightarrow> ktime \<Rightarrow> 'a rcu_scheme \<Rightarrow> 'a rcu_scheme" where
  "add_valid_block_secure a i vb t s =
     s\<lparr>valid_blk_list := valid_blk_list s @ [rcu_fill a i vb t]\<rparr>"

text \<open>
  The in-order insertion walks the list backwards and puts the new node behind the first node
  whose timestamp is smaller; without one it becomes the head. \<open>insert_rev\<close> is that walk, on
  the reversed list.
\<close>

fun insert_rev :: "rcu_elem \<Rightarrow> rcu_elem list \<Rightarrow> rcu_elem list" where
  "insert_rev el [] = [el]"
| "insert_rev el (prev # rest) =
     (if el_nsec prev < el_nsec el then el # prev # rest else prev # insert_rev el rest)"

definition insert_in_order :: "rcu_elem \<Rightarrow> rcu_elem list \<Rightarrow> rcu_elem list" where
  "insert_in_order el xs = (if xs = [] then xs @ [el] else rev (insert_rev el (rev xs)))"

definition add_valid_block_in_order_secure ::
  "addr \<Rightarrow> u32 \<Rightarrow> u32 \<Rightarrow> ktime \<Rightarrow> 'a rcu_scheme \<Rightarrow> 'a rcu_scheme" where
  "add_valid_block_in_order_secure a i vb t s =
     s\<lparr>valid_blk_list := insert_in_order (rcu_fill a i vb t) (valid_blk_list s)\<rparr>"

text \<open>The scans for a block index: the first element that has it.\<close>

definition list_lookup :: "rcu_elem list \<Rightarrow> u32 \<Rightarrow> rcu_elem option" where
  "list_lookup xs i = find (\<lambda>el. ndx el = i) xs"

definition list_delete :: "u32 \<Rightarrow> rcu_elem list \<Rightarrow> rcu_elem list" where
  "list_delete i xs = (case list_lookup xs i of None \<Rightarrow> xs | Some el \<Rightarrow> remove1 el xs)"

definition remove_valid_block ::
  "u32 \<Rightarrow> 'a rcu_scheme \<Rightarrow> fault + unit sysret \<times> 'a rcu_scheme" where
  "remove_valid_block i s =
     andThen (spin_lock s) (\<lambda>s.
     case list_lookup (valid_blk_list s) i of
       None \<Rightarrow> Inr (Inl ENODATA, spin_unlock s)
     | Some el \<Rightarrow>
         let s = spin_unlock (s\<lparr>valid_blk_list := remove1 el (valid_blk_list s)\<rparr>)
         in andThen (synchronize_rcu s) (\<lambda>s.
            andThen (kfree (el_addr el) s) (\<lambda>s. Inr (Inr (), s))))"

text \<open>
  The loop of \<open>remove_all_entries_secure\<close> takes the successor of an element out of the element
  after it has freed it. \<open>stale\<close> says whether a freed object still holds the bytes it held when
  it was freed; where it does not, the step to the next element uses freed memory.
\<close>

fun remove_all_loop :: "bool \<Rightarrow> rcu_elem list \<Rightarrow> 'a rcu_scheme \<Rightarrow> fault + 'a rcu_scheme" where
  "remove_all_loop stale [] s = Inr s"
| "remove_all_loop stale (el # rest) s =
     andThen (synchronize_rcu (s\<lparr>valid_blk_list := remove1 el (valid_blk_list s)\<rparr>)) (\<lambda>s.
     andThen (kfree (el_addr el) s) (\<lambda>s.
     if stale then remove_all_loop stale rest s else Inl (UseAfterFree (el_addr el))))"

definition remove_all_entries_secure :: "bool \<Rightarrow> 'a rcu_scheme \<Rightarrow> fault + 'a rcu_scheme" where
  "remove_all_entries_secure stale s = remove_all_loop stale (valid_blk_list s) s"

section \<open>Insertion\<close>

text \<open>The backward walk is insertion in front of the first element that is not smaller.\<close>

lemma insert_rev_snoc_less:
  "el_nsec z < el_nsec el \<Longrightarrow> insert_rev el (xs @ [z]) = insert_rev el xs @ [z]"
  by (induction xs) auto

lemma insert_rev_all_ge:
  "\<forall>p \<in> set xs. el_nsec el \<le> el_nsec p \<Longrightarrow> insert_rev el xs = xs @ [el]"
  by (induction xs) (auto simp: not_less)

lemma insert_in_order_rev: "insert_in_order el xs = rev (insert_rev el (rev xs))"
  by (simp add: insert_in_order_def)

lemma insert_in_order_insort:
  "sorted (map el_nsec xs) \<Longrightarrow> insert_in_order el xs = insort_key el_nsec el xs"
proof (induction xs)
  case (Cons x xs)
  show ?case
  proof (cases "el_nsec x < el_nsec el")
    case True
    with Cons show ?thesis by (auto simp: insert_in_order_rev insert_rev_snoc_less)
  next
    case False
    with Cons.prems have "insert_rev el (rev (x # xs)) = rev (x # xs) @ [el]"
      by (intro insert_rev_all_ge) (auto simp: not_less intro: order_trans)
    with False show ?thesis by (simp add: insert_in_order_rev not_less)
  qed
qed (simp add: insert_in_order_rev)

lemma sorted_insert_in_order [intro]:
  "sorted (map el_nsec xs) \<Longrightarrow> sorted (map el_nsec (insert_in_order el xs))"
  by (simp add: insert_in_order_insort sorted_insort_key)

lemma mset_insert_in_order [simp]: "mset (insert_in_order el xs) = add_mset el (mset xs)"
proof -
  have "mset (insert_rev el ys) = add_mset el (mset ys)" for ys
    by (induction ys) auto
  then show ?thesis by (simp add: insert_in_order_def)
qed

lemma set_insert_in_order [simp]: "set (insert_in_order el xs) = insert el (set xs)"
  by (metis mset_insert_in_order set_mset_mset set_mset_add_mset_insert)

lemma distinct_map_insert_in_order [simp]:
  "distinct (map f (insert_in_order el xs)) \<longleftrightarrow> f el \<notin> f ` set xs \<and> distinct (map f xs)"
proof -
  have "mset (map f (insert_in_order el xs)) = mset (map f (el # xs))"
    by simp
  then have "distinct (map f (insert_in_order el xs)) \<longleftrightarrow> distinct (map f (el # xs))"
    by (metis mset_eq_imp_distinct_iff)
  then show ?thesis by auto
qed

section \<open>Lookup and deletion\<close>

definition index_ok :: "rcu_elem list \<Rightarrow> bool" where
  "index_ok xs \<longleftrightarrow> distinct (map ndx xs) \<and> sorted (map el_nsec xs)"

lemma list_lookup_Some: "list_lookup xs i = Some el \<Longrightarrow> el \<in> set xs \<and> ndx el = i"
  unfolding list_lookup_def by (rule find_Some_mem)

lemma list_lookup_None: "list_lookup xs i = None \<longleftrightarrow> i \<notin> ndx ` set xs"
  by (auto simp: list_lookup_def find_None_iff)

lemma list_lookup_mem:
  "distinct (map ndx xs) \<Longrightarrow> el \<in> set xs \<Longrightarrow> list_lookup xs (ndx el) = Some el"
  unfolding list_lookup_def by (rule find_unique)

lemma list_lookup_iff:
  "distinct (map ndx xs) \<Longrightarrow> list_lookup xs i = Some el \<longleftrightarrow> el \<in> set xs \<and> ndx el = i"
  using list_lookup_Some list_lookup_mem by metis

lemma index_ok_insert:
  "index_ok xs \<Longrightarrow> ndx el \<notin> ndx ` set xs \<Longrightarrow> index_ok (insert_in_order el xs)"
  by (auto simp: index_ok_def)

lemma in_set_remove1D: "y \<in> set (remove1 x xs) \<Longrightarrow> y \<in> set xs"
  by (meson notin_set_remove1)

lemma distinct_map_remove1: "distinct (map f xs) \<Longrightarrow> distinct (map f (remove1 x xs))"
  by (induction xs) (auto dest: in_set_remove1D)

lemma set_list_delete:
  "index_ok xs \<Longrightarrow> set (list_delete i xs) = {el \<in> set xs. ndx el \<noteq> i}"
proof (cases "list_lookup xs i")
  case None
  then have "list_delete i xs = xs" "i \<notin> ndx ` set xs"
    by (simp_all add: list_delete_def list_lookup_None [symmetric])
  then show ?thesis by auto
next
  case (Some el)
  assume ok: "index_ok xs"
  then have d: "distinct xs" by (auto simp: index_ok_def distinct_map)
  from ok Some show ?thesis
    by (auto simp: list_delete_def d index_ok_def dest: list_lookup_Some distinct_map_eqD)
qed

lemma index_ok_delete: "index_ok xs \<Longrightarrow> index_ok (list_delete i xs)"
  by (auto simp: index_ok_def list_delete_def distinct_map_remove1 sorted_map_remove1
      split: option.splits)

section \<open>The interface the driver relies on\<close>

text \<open>
  The system calls use the list as a finite map from block indexes to elements; \<open>read\<close> relies
  on its order as well.
\<close>

locale valid_index =
  fixes ins :: "'e \<Rightarrow> 'l \<Rightarrow> 'l"
    and del :: "'k \<Rightarrow> 'l \<Rightarrow> 'l"
    and lookup :: "'l \<Rightarrow> 'k \<Rightarrow> 'e option"
    and key :: "'e \<Rightarrow> 'k"
    and invar :: "'l \<Rightarrow> bool"
  assumes lookup_key: "lookup l k = Some e \<Longrightarrow> key e = k"
    and lookup_ins: "invar l \<Longrightarrow> lookup l (key e) = None \<Longrightarrow> lookup (ins e l) = (lookup l)(key e \<mapsto> e)"
    and lookup_del: "invar l \<Longrightarrow> lookup (del k l) = (lookup l)(k := None)"
    and invar_ins: "invar l \<Longrightarrow> lookup l (key e) = None \<Longrightarrow> invar (ins e l)"
    and invar_del: "invar l \<Longrightarrow> invar (del k l)"
begin

lemma ins_visible: "invar l \<Longrightarrow> lookup l (key e) = None \<Longrightarrow> lookup (ins e l) (key e) = Some e"
  by (simp add: lookup_ins)

lemma ins_frame:
  "invar l \<Longrightarrow> lookup l (key e) = None \<Longrightarrow> k \<noteq> key e \<Longrightarrow> lookup (ins e l) k = lookup l k"
  by (simp add: lookup_ins)

lemma del_gone: "invar l \<Longrightarrow> lookup (del k l) k = None"
  by (simp add: lookup_del)

lemma del_ins: "invar l \<Longrightarrow> lookup l (key e) = None \<Longrightarrow> lookup (del (key e) (ins e l)) = lookup l"
  by (simp add: lookup_ins lookup_del invar_ins fun_eq_iff)

lemma ins_after_del: "invar l \<Longrightarrow> lookup (ins e (del (key e) l)) = (lookup l)(key e \<mapsto> e)"
  by (simp add: lookup_ins lookup_del invar_del fun_eq_iff)

lemma dom_ins: "invar l \<Longrightarrow> lookup l (key e) = None \<Longrightarrow> dom (lookup (ins e l)) = insert (key e) (dom (lookup l))"
  by (simp add: lookup_ins)

lemma dom_del: "invar l \<Longrightarrow> dom (lookup (del k l)) = dom (lookup l) - {k}"
  by (simp add: lookup_del)

end

locale ordered_index = valid_index +
  fixes elems :: "'l \<Rightarrow> 'e list"
    and stamp :: "'e \<Rightarrow> 't::linorder"
  assumes elems_lookup: "invar l \<Longrightarrow> e \<in> set (elems l) \<longleftrightarrow> lookup l (key e) = Some e"
    and elems_sorted: "invar l \<Longrightarrow> sorted (map stamp (elems l))"
begin

lemma nth_stamp_mono:
  "invar l \<Longrightarrow> i \<le> j \<Longrightarrow> j < length (elems l) \<Longrightarrow> stamp (elems l ! i) \<le> stamp (elems l ! j)"
  using elems_sorted [of l] by (auto simp: sorted_iff_nth_mono)

lemma first_is_oldest: "invar l \<Longrightarrow> elems l = e # es \<Longrightarrow> e' \<in> set (elems l) \<Longrightarrow> stamp e \<le> stamp e'"
  using elems_sorted [of l] by auto

lemma elems_ins:
  "invar l \<Longrightarrow> lookup l (key e) = None \<Longrightarrow> set (elems (ins e l)) = insert e (set (elems l))"
proof (intro set_eqI iffI)
  fix x assume i: "invar l" "lookup l (key e) = None" and x: "x \<in> set (elems (ins e l))"
  then have "((lookup l)(key e \<mapsto> e)) (key x) = Some x"
    by (simp add: elems_lookup invar_ins lookup_ins)
  with i show "x \<in> insert e (set (elems l))"
    by (cases "key x = key e") (simp_all add: elems_lookup)
next
  fix x assume i: "invar l" "lookup l (key e) = None" and x: "x \<in> insert e (set (elems l))"
  then have "x = e \<or> lookup l (key x) = Some x \<and> key x \<noteq> key e"
    by (auto simp: elems_lookup)
  with i show "x \<in> set (elems (ins e l))"
    by (auto simp: elems_lookup invar_ins lookup_ins)
qed

end

lemma list_lookup_cong:
  assumes d: "distinct (map ndx xs)" "distinct (map ndx ys)"
    and same: "\<And>e. ndx e = k \<Longrightarrow> e \<in> set xs \<longleftrightarrow> e \<in> set ys"
  shows "list_lookup xs k = list_lookup ys k"
proof (cases "list_lookup ys k")
  case None
  then have "list_lookup xs k = None" using same by (force simp: list_lookup_None)
  with None show ?thesis by simp
next
  case (Some e)
  then have "list_lookup xs k = Some e" using d same by (simp add: list_lookup_iff)
  with Some show ?thesis by simp
qed

lemma list_lookup_insert:
  assumes "index_ok xs" "ndx e \<notin> ndx ` set xs"
  shows "list_lookup (insert_in_order e xs) k = (if k = ndx e then Some e else list_lookup xs k)"
proof -
  have d: "distinct (map ndx (insert_in_order e xs))" "distinct (map ndx xs)"
    using assms by (auto simp: index_ok_def)
  show ?thesis
    using list_lookup_mem [OF d(1), of e] list_lookup_cong [OF d, of k] by auto
qed

lemma list_lookup_delete:
  assumes "index_ok xs"
  shows "list_lookup (list_delete i xs) k = (if k = i then None else list_lookup xs k)"
proof -
  have d: "distinct (map ndx (list_delete i xs))" "distinct (map ndx xs)"
    using assms index_ok_delete [of xs i] by (auto simp: index_ok_def)
  show ?thesis
    using list_lookup_cong [OF d, of k] assms by (auto simp: list_lookup_None set_list_delete)
qed

interpretation vl: ordered_index insert_in_order list_delete list_lookup ndx index_ok id el_nsec
proof unfold_locales
  show "list_lookup xs k = Some e \<Longrightarrow> ndx e = k" for xs k e
    by (simp add: list_lookup_Some)
  show "list_lookup (insert_in_order e xs) = (list_lookup xs)(ndx e \<mapsto> e)"
    if "index_ok xs" "list_lookup xs (ndx e) = None" for xs e
    using that by (simp add: fun_eq_iff list_lookup_insert list_lookup_None)
  show "list_lookup (list_delete k xs) = (list_lookup xs)(k := None)" if "index_ok xs" for xs k
    using that by (simp add: fun_eq_iff list_lookup_delete)
  show "index_ok (insert_in_order e xs)"
    if "index_ok xs" "list_lookup xs (ndx e) = None" for xs e
    using that by (simp add: index_ok_insert list_lookup_None)
  show "index_ok xs \<Longrightarrow> index_ok (list_delete k xs)" for xs k
    by (rule index_ok_delete)
  show "index_ok xs \<Longrightarrow> e \<in> set (id xs) \<longleftrightarrow> list_lookup xs (ndx e) = Some e" for xs e
    by (auto simp: list_lookup_iff index_ok_def)
  show "index_ok xs \<Longrightarrow> sorted (map el_nsec (id xs))" for xs
    by (simp add: index_ok_def)
qed

section \<open>Operations on the shared list\<close>

lemma add_in_order_fields [simp]:
  "live (add_valid_block_in_order_secure a i vb t s) = live s"
  "rcu_write_lock (add_valid_block_in_order_secure a i vb t s) = rcu_write_lock s"
  "valid_blk_list (add_valid_block_in_order_secure a i vb t s) =
     insert_in_order (rcu_fill a i vb t) (valid_blk_list s)"
  by (simp_all add: add_valid_block_in_order_secure_def)

lemma rcu_fill_fields [simp]:
  "el_addr (rcu_fill a i vb t) = a" "ndx (rcu_fill a i vb t) = i"
  "el_nsec (rcu_fill a i vb t) = t" "el_valid_bytes (rcu_fill a i vb t) = ucast vb"
  by (simp_all add: rcu_fill_def)

lemma remove_all_loop_stale:
  assumes "distinct (map el_addr xs)" "el_addr ` set xs \<subseteq> live s"
    and "rcu_readers s = 0" "rcu_write_lock s"
  shows "remove_all_loop True xs s =
     Inr (s\<lparr>live := live s - el_addr ` set xs, slept_locked := (slept_locked s \<or> xs \<noteq> []),
            valid_blk_list := fold remove1 xs (valid_blk_list s)\<rparr>)"
  using assms
proof (induction xs arbitrary: s)
  case (Cons x xs)
  have "el_addr x \<notin> el_addr ` set xs" using Cons.prems(1) by simp
  then have sub: "el_addr ` set xs \<subseteq> live s - {el_addr x}" using Cons.prems(2) by (simp add: subset_Diff_insert)
  let ?s = "s\<lparr>valid_blk_list := remove1 x (valid_blk_list s), slept_locked := True,
              live := live s - {el_addr x}\<rparr>"
  have "remove_all_loop True xs ?s =
      Inr (?s\<lparr>live := live ?s - el_addr ` set xs, slept_locked := (slept_locked ?s \<or> xs \<noteq> []),
               valid_blk_list := fold remove1 xs (valid_blk_list ?s)\<rparr>)"
    using Cons.prems sub by (intro Cons.IH) simp_all
  moreover have "live s - {el_addr x} - el_addr ` set xs = live s - el_addr ` set (x # xs)"
    by auto
  ultimately show ?case using Cons.prems by simp
qed simp

lemma remove_all_loop_poisoned:
  "el_addr x \<in> live s \<Longrightarrow> rcu_readers s = 0 \<Longrightarrow> rcu_write_lock s \<Longrightarrow>
     remove_all_loop False (x # xs) s = Inl (UseAfterFree (el_addr x))"
  by simp

lemma fold_remove1_self [simp]: "fold remove1 xs xs = []"
  by (induction xs) auto

text \<open>
  \<open>remove_valid_block\<close> removes and frees exactly the element with the given index when there is one,
  waits for readers only after it released the lock, and otherwise returns \<open>ENODATA\<close> and changes
  nothing.
\<close>

lemma remove_valid_block_effect:
  fixes s :: "'a rcu_scheme"
  assumes "index_ok (valid_blk_list s)" "el_addr ` set (valid_blk_list s) \<subseteq> live s" "\<not> rcu_write_lock s" "rcu_readers s = 0"
  shows "\<exists>r s'. remove_valid_block i s = Inr (r, s') \<and> index_ok (valid_blk_list s') \<and>
     list_lookup (valid_blk_list s') = (list_lookup (valid_blk_list s))(i := None) \<and>
     (case list_lookup (valid_blk_list s) i of
        None \<Rightarrow> r = Inl ENODATA \<and> s' = s
      | Some el \<Rightarrow> r = Inr () \<and> live s' = live s - {el_addr el}) \<and>
     slept_locked s' = slept_locked s \<and> \<not> rcu_write_lock s'"
proof (cases "list_lookup (valid_blk_list s) i")
  case None
  then have "(list_lookup (valid_blk_list s))(i := None) = list_lookup (valid_blk_list s)" by (simp add: fun_eq_iff)
  with None assms show ?thesis by (simp add: remove_valid_block_def spin_unlock_def)
next
  case (Some el)
  have "el_addr el \<in> live s" using list_lookup_Some [OF Some] assms(2) by auto
  moreover have "remove1 el (valid_blk_list s) = list_delete i (valid_blk_list s)" using Some by (simp add: list_delete_def)
  ultimately show ?thesis
    using Some assms vl.lookup_del [OF assms(1), of i] vl.invar_del [OF assms(1), of i]
    by (simp add: remove_valid_block_def spin_unlock_def)
qed

end
