(* ===== verification/Rcu_Pointers.thy ===== *)
theory Rcu_Pointers
  imports Rcu_List
begin

text \<open>
  The list of valid blocks at the level a concurrent reader sees it: one \<open>next\<close> link per node.
  A writer changes one link at a time, and a removed node keeps its own link, so that a reader
  that stands on it can go on. Nodes are named by their addresses, \<open>None\<close> is the list's head; a
  link \<open>None\<close> leads back to the head, which ends a traversal. The theory shows that the link
  updates of \<open>list_add_rcu\<close> and \<open>list_del_rcu\<close> implement the operations on the abstract list, and
  that they take no node out of the way of a reader but the one that is removed.
\<close>

section \<open>Links\<close>

type_synonym links = "addr option \<Rightarrow> addr option"

definition list_add_rcu :: "addr \<Rightarrow> addr option \<Rightarrow> links \<Rightarrow> links" where
  "list_add_rcu a prev n = n(Some a := n prev, prev := Some a)"

definition list_del_rcu :: "addr \<Rightarrow> addr option \<Rightarrow> links \<Rightarrow> links" where
  "list_del_rcu a prev n = n(prev := n (Some a))"

text \<open>
  The predecessors: of a node in the list, which is its \<open>prev\<close> link, and the one that the
  backward walk of the in-order insertion finds.
\<close>

fun prev_in :: "addr option \<Rightarrow> addr \<Rightarrow> addr list \<Rightarrow> addr option" where
  "prev_in p a [] = p"
| "prev_in p a (x # xs) = (if x = a then p else prev_in (Some x) a xs)"

definition insert_prev :: "rcu_elem \<Rightarrow> rcu_elem list \<Rightarrow> addr option" where
  "insert_prev el xs = map_option el_addr (find (\<lambda>prev. el_nsec prev < el_nsec el) (rev xs))"

text \<open>The nodes from \<open>p\<close> on, in order.\<close>

fun chain :: "links \<Rightarrow> addr option \<Rightarrow> addr list \<Rightarrow> bool" where
  "chain n p [] \<longleftrightarrow> n p = None"
| "chain n p (x # xs) \<longleftrightarrow> n p = Some x \<and> chain n (Some x) xs"

section \<open>Updates\<close>

lemma list_add_rcu_apply:
  "list_add_rcu a prev n q = (if q = prev then Some a else if q = Some a then n prev else n q)"
  by (simp add: list_add_rcu_def)

lemma list_del_rcu_apply: "list_del_rcu a prev n q = (if q = prev then n (Some a) else n q)"
  by (simp add: list_del_rcu_def)

lemmas links_apply = list_add_rcu_apply list_del_rcu_apply

lemma chain_cong: "(\<And>q. q = p \<or> q \<in> Some ` set xs \<Longrightarrow> n' q = n q) \<Longrightarrow> chain n' p xs = chain n p xs"
  by (induction xs arbitrary: p) auto

lemma chain_add:
  assumes "chain n p (xs @ ys)" "distinct (xs @ ys)" "p \<notin> Some ` set (xs @ ys)" "a \<notin> set (xs @ ys)" "p \<noteq> Some a"
  shows "chain (list_add_rcu a (if xs = [] then p else Some (last xs)) n) p (xs @ a # ys)"
  using assms
proof (induction xs arbitrary: p)
  case Nil
  have at: "list_add_rcu a p n p = Some a" "list_add_rcu a p n (Some a) = n p"
    using Nil.prems by (simp_all add: links_apply)
  show ?case
  proof (cases ys)
    case (Cons y zs)
    have "chain (list_add_rcu a p n) (Some y) zs = chain n (Some y) zs"
      using Nil.prems Cons by (intro chain_cong) (auto simp: links_apply)
    with Nil.prems Cons at show ?thesis by simp
  qed (use Nil.prems at in simp)
next
  case (Cons x xs)
  let ?q = "if xs = [] then Some x else Some (last xs)"
  have "?q \<noteq> p" using Cons.prems(3) last_in_set [of xs] by auto
  moreover have "chain (list_add_rcu a ?q n) (Some x) (xs @ a # ys)"
    using Cons.prems by (intro Cons.IH) auto
  moreover have "list_add_rcu a ?q n p = n p" using \<open>?q \<noteq> p\<close> Cons.prems(5) by (simp add: links_apply)
  ultimately show ?case using Cons.prems(1) by (cases "xs = []") simp_all
qed

lemma chain_del:
  assumes "chain n p xs" "distinct xs" "p \<notin> Some ` set xs" "a \<in> set xs"
  shows "chain (list_del_rcu a (prev_in p a xs) n) p (remove1 a xs) \<and> n (prev_in p a xs) = Some a \<and>
    prev_in p a xs \<noteq> Some a \<and> (prev_in p a xs = p \<or> prev_in p a xs \<in> Some ` set (remove1 a xs))"
  using assms
proof (induction xs arbitrary: p)
  case (Cons x xs)
  show ?case
  proof (cases "x = a")
    case True
    have at: "list_del_rcu a p n p = n (Some a)" by (simp add: links_apply)
    have "chain (list_del_rcu a p n) p xs"
    proof (cases xs)
      case (Cons y ys)
      have "chain (list_del_rcu a p n) (Some y) ys = chain n (Some y) ys"
        using Cons.prems \<open>xs = y # ys\<close> by (intro chain_cong) (auto simp: links_apply)
      with Cons.prems True \<open>xs = y # ys\<close> at show ?thesis by simp
    qed (use Cons.prems True at in simp)
    with True Cons.prems show ?thesis by simp
  next
    case False
    with Cons.IH [of "Some x"] Cons.prems
    have IH: "chain (list_del_rcu a (prev_in (Some x) a xs) n) (Some x) (remove1 a xs)"
      "n (prev_in (Some x) a xs) = Some a" "prev_in (Some x) a xs \<noteq> Some a"
      "prev_in (Some x) a xs = Some x \<or> prev_in (Some x) a xs \<in> Some ` set (remove1 a xs)"
      by auto
    have "set (remove1 a xs) \<subseteq> set xs" by (rule set_remove1_subset)
    with IH(4) Cons.prems(3) have "p \<noteq> prev_in (Some x) a xs" by auto
    then have "list_del_rcu a (prev_in (Some x) a xs) n p = n p" by (simp add: links_apply)
    with False IH Cons.prems(1) show ?thesis by auto
  qed
qed simp

section \<open>The abstract list\<close>

lemma map_remove1_inj: "inj_on f (set xs) \<Longrightarrow> x \<in> set xs \<Longrightarrow> map f (remove1 x xs) = remove1 (f x) (map f xs)"
  by (induction xs) (auto simp: inj_on_def)

lemma insert_rev_split:
  "insert_rev el xs = takeWhile (\<lambda>p. \<not> el_nsec p < el_nsec el) xs @ el # dropWhile (\<lambda>p. \<not> el_nsec p < el_nsec el) xs"
  by (induction xs) auto

lemma find_dropWhile: "find P xs = (case dropWhile (\<lambda>x. \<not> P x) xs of [] \<Rightarrow> None | x # _ \<Rightarrow> Some x)"
  by (induction xs) auto

lemma insert_in_order_split:
  obtains xs1 xs2 where "xs = xs1 @ xs2" "insert_in_order el xs = xs1 @ el # xs2"
    "insert_prev el xs = (if xs1 = [] then None else Some (el_addr (last xs1)))"
proof
  let ?P = "\<lambda>p. \<not> el_nsec p < el_nsec el"
  let ?d = "dropWhile ?P (rev xs)" and ?t = "takeWhile ?P (rev xs)"
  show "xs = rev ?d @ rev ?t" by (simp flip: rev_append)
  show "insert_in_order el xs = rev ?d @ el # rev ?t"
    by (simp add: insert_in_order_def insert_rev_split)
  show "insert_prev el xs = (if rev ?d = [] then None else Some (el_addr (last (rev ?d))))"
    unfolding insert_prev_def find_dropWhile by (cases ?d) (simp_all only: list.case option.map rev.simps last_snoc, simp_all)
qed

lemma chain_insert_in_order:
  assumes "chain n None (map el_addr xs)" "distinct (map el_addr xs)" "el_addr el \<notin> el_addr ` set xs"
  shows "chain (list_add_rcu (el_addr el) (insert_prev el xs) n) None (map el_addr (insert_in_order el xs))"
    "insert_prev el xs = None \<or> insert_prev el xs \<in> Some ` el_addr ` set xs"
proof -
  obtain xs1 xs2 where s: "xs = xs1 @ xs2" "insert_in_order el xs = xs1 @ el # xs2"
    "insert_prev el xs = (if xs1 = [] then None else Some (el_addr (last xs1)))"
    by (rule insert_in_order_split)
  have "chain (list_add_rcu (el_addr el) (if map el_addr xs1 = [] then None else Some (last (map el_addr xs1))) n) None
      (map el_addr xs1 @ el_addr el # map el_addr xs2)"
    using assms by (intro chain_add) (auto simp: s)
  then show "chain (list_add_rcu (el_addr el) (insert_prev el xs) n) None (map el_addr (insert_in_order el xs))"
    by (simp add: s(2,3) last_map split: if_splits)
  show "insert_prev el xs = None \<or> insert_prev el xs \<in> Some ` el_addr ` set xs"
    unfolding s(3) using last_in_set [of xs1] by (auto simp: s(1))
qed

section \<open>What a reader has ahead\<close>

text \<open>\<open>a\<close> is met on the way from \<open>p\<close>, behind \<open>p\<close>.\<close>

inductive ahead :: "links \<Rightarrow> addr option \<Rightarrow> addr \<Rightarrow> bool" for n where
  ahead_next: "n p = Some a \<Longrightarrow> ahead n p a"
| ahead_later: "n p = Some b \<Longrightarrow> ahead n (Some b) a \<Longrightarrow> ahead n p a"

inductive_cases ahead_cases: "ahead n p a"

lemma ahead_step: "ahead n p a \<Longrightarrow> n p = Some b \<Longrightarrow> a = b \<or> ahead n (Some b) a"
  by (auto elim: ahead_cases)

lemma ahead_end: "n p = None \<Longrightarrow> \<not> ahead n p a"
  by (auto elim: ahead_cases)

lemma chain_ahead: "chain n p xs \<Longrightarrow> a \<in> set xs \<Longrightarrow> ahead n p a"
  by (induction xs arbitrary: p) (auto intro: ahead.intros)

text \<open>
  A new node is put in the way of readers that move inside a set \<open>V\<close> of nodes the links do not
  lead out of, and nothing else changes for them.
\<close>

lemma ahead_add:
  assumes "ahead n p b" "p = None \<or> p \<in> Some ` V" "a \<notin> V"
    and "\<And>q y. q = None \<or> q \<in> Some ` V \<Longrightarrow> n q = Some y \<Longrightarrow> y \<in> V"
  shows "ahead (list_add_rcu a prev n) p b"
  using assms(1,2)
proof (induction rule: ahead.induct)
  case (ahead_next p b)
  then have "p \<noteq> Some a" using assms(3) by auto
  with ahead_next.hyps have "list_add_rcu a prev n p = Some b \<or>
      list_add_rcu a prev n p = Some a \<and> list_add_rcu a prev n (Some a) = Some b" by (auto simp: links_apply)
  then show ?case by (meson ahead.intros)
next
  case (ahead_later p c b)
  have "c \<in> V" using ahead_later.prems ahead_later.hyps(1) by (rule assms(4))
  then have IH: "ahead (list_add_rcu a prev n) (Some c) b" using ahead_later.IH by simp
  have "p \<noteq> Some a" using ahead_later.prems assms(3) by auto
  then have "list_add_rcu a prev n p = Some c \<or> list_add_rcu a prev n p = Some a \<and> list_add_rcu a prev n (Some a) = Some c"
    using ahead_later.hyps(1) by (auto simp: links_apply)
  with IH show ?case by (meson ahead.intros)
qed

lemma ahead_del:
  assumes "ahead n p b" "b \<noteq> a" "n prev = Some a" "prev \<noteq> Some a"
  shows "ahead (list_del_rcu a prev n) p b"
  using assms
proof (induction rule: ahead.induct)
  case (ahead_next p b)
  then have "list_del_rcu a prev n p = Some b" by (auto simp: links_apply)
  then show ?case by (rule ahead.ahead_next)
next
  case (ahead_later p c b)
  let ?n = "list_del_rcu a prev n"
  have IH: "ahead ?n (Some c) b" using ahead_later by blast
  show ?case
  proof (cases "p = prev")
    case True
    then have "c = a" "?n p = ?n (Some a)" using ahead_later by (simp_all add: links_apply)
    with IH show ?thesis by (metis ahead.simps)
  next
    case False
    with ahead_later.hyps(1) have "?n p = Some c" by (simp add: links_apply)
    then show ?thesis using IH by (rule ahead.ahead_later)
  qed
qed

section \<open>The end of the list\<close>

text \<open>From \<open>p\<close> on, the links lead to the end of the list.\<close>

definition ends_at :: "links \<Rightarrow> addr option \<Rightarrow> bool" where
  "ends_at n p \<longleftrightarrow> (\<exists>ys. chain n p ys)"

lemma chain_unique: "chain n p xs \<Longrightarrow> chain n p ys \<Longrightarrow> xs = ys"
proof (induction xs arbitrary: p ys)
  case Nil
  then show ?case by (cases ys) auto
next
  case (Cons x xs)
  then show ?case by (cases ys) auto
qed

lemma chain_suffix: "chain n p xs \<Longrightarrow> a \<in> set xs \<Longrightarrow> ends_at n (Some a)"
  by (induction xs arbitrary: p) (auto simp: ends_at_def)

lemma chain_start: "n p = m q \<Longrightarrow> (\<And>a. n p = Some a \<Longrightarrow> ends_at m (Some a)) \<Longrightarrow> ends_at m q"
  unfolding ends_at_def by (cases "m q") (auto intro: exI [of _ "[]"] exI [of _ "_ # _"])

lemma ends_at_next: "ends_at n p \<longleftrightarrow> (\<forall>a. n p = Some a \<longrightarrow> ends_at n (Some a))"
proof
  assume "ends_at n p"
  then obtain ys where "chain n p ys" by (auto simp: ends_at_def)
  then show "\<forall>a. n p = Some a \<longrightarrow> ends_at n (Some a)" by (cases ys) (auto simp: ends_at_def)
qed (use chain_start [of n p n p] in blast)

lemma ends_at_del:
  assumes "ends_at n p" "n prev = Some a" "prev \<noteq> Some a"
  shows "ends_at (list_del_rcu a prev n) p"
proof -
  let ?n = "list_del_rcu a prev n"
  obtain ys where "chain n p ys" using assms(1) by (auto simp: ends_at_def)
  then show ?thesis
  proof (induction ys arbitrary: p)
    case Nil
    then have "?n p = None" using assms by (auto simp: links_apply)
    then show ?case by (auto simp: ends_at_def intro: exI [of _ "[]"])
  next
    case (Cons y ys)
    then have IH: "ends_at ?n (Some y)" by simp
    show ?case
    proof (cases "p = prev")
      case True
      then have "?n p = ?n (Some y)" using Cons.prems assms by (simp add: links_apply)
      then show ?thesis using IH ends_at_next by metis
    next
      case False
      then have "?n p = Some y" using Cons.prems by (simp add: links_apply)
      then show ?thesis using IH ends_at_next [of ?n p] by simp
    qed
  qed
qed

lemma ends_at_add:
  assumes "ends_at n p" "p = None \<or> p \<in> Some ` V" "e \<notin> V"
    and closed: "\<And>q y. q = None \<or> q \<in> Some ` V \<Longrightarrow> n q = Some y \<Longrightarrow> y \<in> V" and prev: "prev = None \<or> prev \<in> Some ` V"
  shows "ends_at (list_add_rcu e prev n) p"
proof -
  let ?n = "list_add_rcu e prev n"
  have e: "?n (Some e) = n prev" "?n prev = Some e" using assms(3) prev by (auto simp: links_apply)
  obtain ys where "chain n p ys" using assms(1) by (auto simp: ends_at_def)
  then show ?thesis
    using assms(2)
  proof (induction ys arbitrary: p)
    case Nil
    show ?case
    proof (cases "p = prev")
      case True
      then have "chain ?n p [e]" using Nil e by simp
      then show ?thesis unfolding ends_at_def by blast
    next
      case False
      then have "?n p = None" using Nil assms(3) by (auto simp: links_apply)
      then show ?thesis using ends_at_next [of ?n p] by simp
    qed
  next
    case (Cons y ys)
    have "y \<in> V" using closed [of p y] Cons.prems by simp
    then have IH: "ends_at ?n (Some y)" using Cons by auto
    show ?case
    proof (cases "p = prev")
      case True
      then have "ends_at ?n (Some e)" using IH ends_at_next [of ?n "Some e"] e Cons.prems by simp
      then show ?thesis using ends_at_next [of ?n p] e True by simp
    next
      case False
      then have "?n p = Some y" using Cons.prems assms(3) by (auto simp: links_apply)
      then show ?thesis using IH ends_at_next [of ?n p] by simp
    qed
  qed
qed

end
