(* ===== verification/Driver_State.thy ===== *)
theory Driver_State
  imports Rcu_List
begin

text \<open>
  The globals of the driver (\<^verbatim>\<open>bldms.c\<close>, \<^verbatim>\<open>include/device.h\<close>) on top of the list of valid
  blocks, the invariant that ties the metadata array, the list and the device together, and
  the abstract content of the service: the messages it keeps, by block index.
\<close>

section \<open>Globals\<close>

text \<open>
  \<open>metadata_array\<close> is an array of pointers. An entry is kept with the address of the object it
  points to; the object itself lives in the entry, since no other pointer to it outlives a
  call. \<open>None\<close> is the array's \<open>NULL\<close>. \<open>the_dev_superblock\<close> is whether that pointer is set.
\<close>

record md_obj =
  md_addr :: addr
  md_blk :: bldms_block

record md_array =
  arr_addr :: addr
  arr_elems :: "md_obj list"

record bldms = rcu +
  bldms_mounted :: bool
  metadata_array :: "md_array option"
  md_array_size :: nat
  last_written_block :: u32
  the_dev_superblock :: bool
  disk :: disk

definition bldms_start :: "disk \<Rightarrow> bldms" where
  "bldms_start d = \<lparr>live = {}, rcu_write_lock = False, rcu_readers = 0, slept_locked = False,
     valid_blk_list = [], bldms_mounted = False, metadata_array = None, md_array_size = 0,
     last_written_block = 0, the_dev_superblock = False, disk = d\<rparr>"

definition md_objs :: "bldms \<Rightarrow> md_obj list" where
  "md_objs s = (case metadata_array s of None \<Rightarrow> [] | Some arr \<Rightarrow> arr_elems arr)"

definition md_at :: "bldms \<Rightarrow> nat \<Rightarrow> bldms_block" where
  "md_at s i = md_blk (md_objs s ! i)"

section \<open>Invariant\<close>

text \<open>The objects the driver holds a pointer to: all allocated, no two at the same address.\<close>

definition owned :: "bldms \<Rightarrow> addr list" where
  "owned s = (case metadata_array s of None \<Rightarrow> [] | Some arr \<Rightarrow> arr_addr arr # map md_addr (arr_elems arr)) @
     map el_addr (valid_blk_list s)"

definition mem_ok :: "bldms \<Rightarrow> bool" where
  "mem_ok s \<longleftrightarrow> distinct (owned s) \<and> set (owned s) \<subseteq> live s"

text \<open>
  A block is in the list exactly when its array entry is valid, and its list element repeats
  the entry's timestamp and length.
\<close>

definition elem_matches :: "rcu_elem \<Rightarrow> bldms_block \<Rightarrow> bool" where
  "elem_matches el b \<longleftrightarrow> el_nsec el = nsec b \<and> el_valid_bytes el = ucast (valid_bytes b)"

definition entry_ok :: "rcu_elem option \<Rightarrow> bldms_block \<Rightarrow> bool" where
  "entry_ok x b = (case x of
     None \<Rightarrow> is_valid b = BLK_INVALID
   | Some el \<Rightarrow> is_valid b = BLK_VALID \<and> elem_matches el b)"

definition index_inv :: "bldms \<Rightarrow> bool" where
  "index_inv s \<longleftrightarrow> index_ok (valid_blk_list s) \<and>
     (\<forall>el \<in> set (valid_blk_list s). unat (ndx el) < length (md_objs s)) \<and>
     (\<forall>i < length (md_objs s). entry_ok (list_lookup (valid_blk_list s) (word_of_nat i)) (md_at s i))"

text \<open>The array entry of a block is what the block's first bytes say, and a message fits its block.\<close>

definition block_ok :: "bytes \<Rightarrow> bldms_block \<Rightarrow> bool" where
  "block_ok blk b \<longleftrightarrow> length blk = DEFAULT_BLOCK_SIZE \<and> block_metadata blk = b \<and>
     (is_valid b = BLK_VALID \<longrightarrow> unat (valid_bytes b) \<le> DEFAULT_BLOCK_SIZE - METADATA_SIZE)"

definition disk_inv :: "bldms \<Rightarrow> bool" where
  "disk_inv s \<longleftrightarrow> (\<forall>i < length (md_objs s). block_ok (disk s (i + NUM_METADATA_BLKS)) (md_at s i))"

definition shape_ok :: "bldms \<Rightarrow> bool" where
  "shape_ok s \<longleftrightarrow> bldms_mounted s \<and> the_dev_superblock s \<and> metadata_array s \<noteq> None \<and>
     length (md_objs s) = md_array_size s \<and> md_array_size s \<le> NBLOCKS \<and>
     (md_array_size s > 0 \<longrightarrow> unat (last_written_block s) < md_array_size s) \<and>
     \<not> rcu_write_lock s \<and> rcu_readers s = 0"

definition driver_ok :: "bldms \<Rightarrow> bool" where
  "driver_ok s \<longleftrightarrow> shape_ok s \<and> mem_ok s \<and> index_inv s \<and> disk_inv s"

lemmas driver_ok_defs = driver_ok_def shape_ok_def mem_ok_def index_inv_def disk_inv_def

section \<open>Abstract content\<close>

definition message_at :: "bytes \<Rightarrow> bldms_block \<Rightarrow> ktime \<times> bytes" where
  "message_at blk b = (nsec b, take (unat (valid_bytes b)) (block_payload blk))"

definition messages :: "bldms \<Rightarrow> nat \<rightharpoonup> ktime \<times> bytes" where
  "messages s i =
     (if i < length (md_objs s) \<and> is_valid (md_at s i) = BLK_VALID
      then Some (message_at (disk s (i + NUM_METADATA_BLKS)) (md_at s i)) else None)"

section \<open>Lemmas\<close>

lemma NBLOCKS_small: "i < length (md_objs s) \<Longrightarrow> shape_ok s \<Longrightarrow> i < 1000"
  by (simp add: shape_ok_def layout_consts)

lemma unat_small [simp]: "i < 1000 \<Longrightarrow> unat (word_of_nat i :: u32) = i"
  by (simp add: unat_of_nat)

lemma word_of_nat_small_inj:
  "i < 1000 \<Longrightarrow> j < 1000 \<Longrightarrow> (word_of_nat i :: u32) = word_of_nat j \<longleftrightarrow> i = j"
  by (metis unat_small)

lemma valid_iff_listed:
  "index_inv s \<Longrightarrow> i < length (md_objs s) \<Longrightarrow>
     is_valid (md_at s i) = BLK_VALID \<longleftrightarrow> list_lookup (valid_blk_list s) (word_of_nat i) \<noteq> None"
  by (auto simp: index_inv_def entry_ok_def split: option.splits)

lemma listed_entry:
  assumes "index_inv s" "shape_ok s" "i < length (md_objs s)"
    and "list_lookup (valid_blk_list s) (word_of_nat i) = Some el"
  shows "is_valid (md_at s i) = BLK_VALID" "el_nsec el = nsec (md_at s i)"
    "unat (el_valid_bytes el) = unat (valid_bytes (md_at s i))"
proof -
  have e: "entry_ok (list_lookup (valid_blk_list s) (word_of_nat i)) (md_at s i)"
    using assms(1,3) by (simp add: index_inv_def)
  with assms show "is_valid (md_at s i) = BLK_VALID" "el_nsec el = nsec (md_at s i)"
    "unat (el_valid_bytes el) = unat (valid_bytes (md_at s i))"
    by (simp_all add: entry_ok_def elem_matches_def unat_ucast_15_64)
qed

lemma messages_dom: "index_inv s \<Longrightarrow> shape_ok s \<Longrightarrow>
  messages s i \<noteq> None \<longleftrightarrow> i < length (md_objs s) \<and> list_lookup (valid_blk_list s) (word_of_nat i) \<noteq> None"
  using valid_iff_listed [of s i] by (auto simp: messages_def)

lemma md_live:
  assumes "mem_ok s"
  shows "set (map md_addr (md_objs s)) \<subseteq> live s" "distinct (map md_addr (md_objs s))"
  using assms by (auto simp: mem_ok_def owned_def md_objs_def split: option.splits)

text \<open>
  Replacing entry \<open>t\<close> of the metadata array by a fresh object and adding a fresh list element,
  on the addresses alone.
\<close>

lemma owned_replace:
  assumes d: "distinct (a # A @ E)" and sub: "set (a # A @ E) \<subseteq> L" and t: "t < length A"
    and new: "e \<noteq> m" "{e, m} \<inter> L = {}"
    and E': "distinct E'" "set E' = insert e (set E)"
  shows "distinct (a # A[t := m] @ E')" "set (a # A[t := m] @ E') \<subseteq> insert e (insert m L) - {A ! t}"
proof -
  have A: "set (A[t := m]) = insert m (set A - {A ! t})"
    using d t by (intro set_update_distinct) simp_all
  have dA: "distinct (A[t := m])"
    using d sub new by (intro distinct_list_update_fresh) auto
  have At: "A ! t \<in> set A" using t by simp
  show "distinct (a # A[t := m] @ E')"
    unfolding distinct.simps distinct_append set_append A E' using d sub dA new E' by auto
  show "set (a # A[t := m] @ E') \<subseteq> insert e (insert m L) - {A ! t}"
    unfolding list.set(2) set_append A E' using d sub new At by auto
qed

end
