(* ===== verification/Syscalls.thy ===== *)
theory Syscalls
  imports Driver_State
begin

text \<open>
  The three system calls (\<^verbatim>\<open>syscalls.c\<close>). A call's interaction with the kernel is its
  environment: the results of its allocations, of \<open>copy_from_user\<close> and \<open>copy_to_user\<close>, of the
  clock, and whether \<open>sb_bread\<close> returns a buffer for a block. The source of \<open>put_data\<close> is the
  byte range \<open>[source, source + size)\<close> of the caller.
\<close>

section \<open>put\_data\<close>

record put_env =
  buffer_alloc :: "addr option"
  elem_alloc :: "addr option"
  md_alloc :: "addr option"
  not_copied :: nat
  now :: ktime
  bread :: "nat \<Rightarrow> bool"

text \<open>The circular search for a free block, over the loop counters that are left.\<close>

fun find_free :: "addr set \<Rightarrow> md_obj list \<Rightarrow> nat \<Rightarrow> u32 \<Rightarrow> nat list \<Rightarrow> fault + nat option" where
  "find_free lv arr n lwb [] = Inr None"
| "find_free lv arr n lwb (i # is) =
     (let curr = unat (lwb + word_of_nat i) mod n in
      if curr \<ge> length arr then Inl OutOfBounds
      else if md_addr (arr ! curr) \<notin> lv then Inl (UseAfterFree (md_addr (arr ! curr)))
      else if is_valid (md_blk (arr ! curr)) = BLK_INVALID then Inr (Some curr)
      else find_free lv arr n lwb is)"

definition find_target :: "bldms \<Rightarrow> fault + nat option" where
  "find_target s = find_free (live s) (md_objs s) (md_array_size s) (last_written_block s) [1..<md_array_size s + 1]"

text \<open>
  From the acquisition of the lock on: \<open>b\<close> is the kernel buffer that holds the new block's
  bytes \<open>buffer\<close>, \<open>e\<close> the new list element, \<open>new\<close> the new metadata object.
\<close>

definition put_data_critical ::
  "(nat \<Rightarrow> bool) \<Rightarrow> addr \<Rightarrow> addr \<Rightarrow> md_obj \<Rightarrow> bytes \<Rightarrow> bldms \<Rightarrow> fault + nat sysret \<times> bldms" where
  "put_data_critical br b e new buffer s =
     andThen (find_target s) (\<lambda>target.
     case target of
       None \<Rightarrow>
         andThen (kfree_all [e, b, md_addr new] (spin_unlock s)) (\<lambda>s. Inr (Inl ENOMEM, s))
     | Some t \<Rightarrow>
         case metadata_array s of
           None \<Rightarrow> Inl NullDeref
         | Some arr \<Rightarrow>
             let old = md_addr (arr_elems arr ! t) in
             if \<not> br (t + NUM_METADATA_BLKS) then
               andThen (kfree_all [e, b, md_addr new, old] (spin_unlock s)) (\<lambda>s. Inr (Inl EPERM, s))
             else
               let s = s\<lparr>disk := (disk s)(t + NUM_METADATA_BLKS := buffer)\<rparr>;
                   s = add_valid_block_in_order_secure e (word_of_nat t)
                         (ucast (valid_bytes (md_blk new))) (nsec (md_blk new)) s;
                   s = s\<lparr>metadata_array := Some (arr\<lparr>arr_elems := (arr_elems arr)[t := new]\<rparr>),
                         last_written_block := word_of_nat t\<rparr>
               in andThen (kfree_all [b, old] (spin_unlock s)) (\<lambda>s. Inr (Inr t, s)))"

definition new_metadata :: "ktime \<Rightarrow> nat \<Rightarrow> bldms_block" where
  "new_metadata t sz = \<lparr>nsec = t, is_valid = BLK_VALID, valid_bytes = word_of_nat sz\<rparr>"

definition new_block :: "bldms_block \<Rightarrow> bytes \<Rightarrow> bytes" where
  "new_block b source =
     memcpy_at 0 (encode_block b) (memcpy_at METADATA_SIZE source (replicate DEFAULT_BLOCK_SIZE 0))"

definition put_data :: "put_env \<Rightarrow> bytes \<Rightarrow> bldms \<Rightarrow> fault + nat sysret \<times> bldms" where
  "put_data env source s =
     (if \<not> bldms_mounted s then Inr (Inl ENODEV, s)
      else if length source > DEFAULT_BLOCK_SIZE - METADATA_SIZE then Inr (Inl E2BIG, s)
      else if \<not> the_dev_superblock s then Inr (Inl EINVAL, s)
      else case buffer_alloc env of
        None \<Rightarrow> Inr (Inl EADDRNOTAVAIL, s)
      | Some b \<Rightarrow>
          let s = kzalloc b s in
          if not_copied env \<noteq> 0 then andThen (kfree b s) (\<lambda>s. Inr (Inl EMSGSIZE, s))
          else case elem_alloc env of
            None \<Rightarrow> andThen (kfree b s) (\<lambda>s. Inr (Inl EADDRNOTAVAIL, s))
          | Some e \<Rightarrow>
              let s = kzalloc e s in
              case md_alloc env of
                None \<Rightarrow> andThen (kfree_all [b, e] s) (\<lambda>s. Inr (Inl EADDRNOTAVAIL, s))
              | Some m \<Rightarrow>
                  let s = kzalloc m s;
                      md = new_metadata (now env) (length source)
                  in andThen (spin_lock s)
                       (put_data_critical (bread env) b e \<lparr>md_addr = m, md_blk = md\<rparr>
                          (new_block md source)))"

section \<open>get\_data\<close>

record get_env =
  get_bread :: "nat \<Rightarrow> bool"
  uncopied :: "nat \<Rightarrow> nat"

text \<open>
  \<open>offset\<close> is a signed \<open>int\<close>, \<open>md_array_size\<close> and \<open>size\<close> are unsigned 64-bit values, the number of bytes
  to copy is an \<open>int\<close> again; the casts are those of the C conversions. The result is the
  returned number and the bytes that reach the caller's buffer.
\<close>

definition bytes_to_copy :: "u64 \<Rightarrow> u64 \<Rightarrow> u32" where
  "bytes_to_copy vb sz =
     (let n = (ucast vb :: u32) in if sz > (scast n :: u64) then n else ucast sz)"

definition get_data :: "get_env \<Rightarrow> u32 \<Rightarrow> u64 \<Rightarrow> bldms \<Rightarrow> fault + (u64 \<times> bytes) sysret \<times> bldms" where
  "get_data env offset sz s =
     (if \<not> bldms_mounted s then Inr (Inl ENODEV, s)
      else if unat (scast offset :: u64) \<ge> md_array_size s then Inr (Inl E2BIG, s)
      else
        let target_block = offset + word_of_nat NUM_METADATA_BLKS in
        if \<not> the_dev_superblock s then Inr (Inl EINVAL, s)
        else
          let s = rcu_read_lock s in
          case list_lookup (valid_blk_list s) offset of
            None \<Rightarrow> Inr (Inl ENODATA, rcu_read_unlock s)
          | Some el \<Rightarrow>
              if \<not> get_bread env (unat target_block) then Inr (Inl EPERM, rcu_read_unlock s)
              else
                let b = bytes_to_copy (el_valid_bytes el) sz;
                    n = unat (scast b :: u64);
                    r = uncopied env n
                in if METADATA_SIZE + n > DEFAULT_BLOCK_SIZE then Inl OutOfBounds
                   else Inr (Inr (scast b - word_of_nat r,
                              take (n - r) (drop METADATA_SIZE (disk s (unat target_block)))),
                          rcu_read_unlock s))"

section \<open>invalidate\_data\<close>

text \<open>
  The write-side critical section up to the release of the lock; it leaves the removed
  element for the caller to free after a grace period.
\<close>

definition invalidate_critical ::
  "(nat \<Rightarrow> bool) \<Rightarrow> u32 \<Rightarrow> bldms \<Rightarrow> fault + rcu_elem sysret \<times> bldms" where
  "invalidate_critical br offset s =
     (let target_block = offset + word_of_nat NUM_METADATA_BLKS in
      case list_lookup (valid_blk_list s) offset of
        None \<Rightarrow> Inr (Inl ENODATA, spin_unlock s)
      | Some el \<Rightarrow>
          if \<not> the_dev_superblock s then Inl NullDeref
          else if \<not> br (unat target_block) then Inr (Inl EPERM, spin_unlock s)
          else
            let s = s\<lparr>valid_blk_list := remove1 el (valid_blk_list s)\<rparr>;
                i = unat (ndx el)
            in case metadata_array s of
                 None \<Rightarrow> Inl NullDeref
               | Some arr \<Rightarrow>
                   let obj = arr_elems arr ! i in
                   if i \<ge> length (arr_elems arr) then Inl OutOfBounds
                   else if md_addr obj \<notin> live s then Inl (UseAfterFree (md_addr obj))
                   else
                     let blk = (md_blk obj)\<lparr>is_valid := BLK_INVALID\<rparr>;
                         s = s\<lparr>metadata_array :=
                               Some (arr\<lparr>arr_elems := (arr_elems arr)[i := obj\<lparr>md_blk := blk\<rparr>]\<rparr>),
                               disk := (disk s)(unat target_block :=
                                 memcpy_at 0 (encode_block blk) (disk s (unat target_block)))\<rparr>
                     in Inr (Inr el, spin_unlock s))"

definition invalidate_data :: "(nat \<Rightarrow> bool) \<Rightarrow> u32 \<Rightarrow> bldms \<Rightarrow> fault + unit sysret \<times> bldms" where
  "invalidate_data br offset s =
     (if \<not> bldms_mounted s then Inr (Inl ENODEV, s)
      else if unat (scast offset :: u64) \<ge> md_array_size s then Inr (Inl E2BIG, s)
      else
        andThen (spin_lock s) (\<lambda>s.
        andThen (invalidate_critical br offset s) (\<lambda>(r, s).
        case r of
          Inl err \<Rightarrow> Inr (Inl err, s)
        | Inr el \<Rightarrow>
            andThen (synchronize_rcu s) (\<lambda>s.
            andThen (kfree (el_addr el) s) (\<lambda>s. Inr (Inr (), s))))))"

section \<open>The circular search\<close>

text \<open>The loop over the array is a search through the block indexes, rotated past the last written one.\<close>

lemma find_free_find:
  assumes "set (map md_addr arr) \<subseteq> lv" "arr \<noteq> []"
  shows "find_free lv arr (length arr) lwb is = Inr (find (\<lambda>c. is_valid (md_blk (arr ! c)) = BLK_INVALID)
           (map (\<lambda>i. unat (lwb + word_of_nat i) mod length arr) is))"
proof (induction "is")
  case (Cons i "is")
  let ?c = "unat (lwb + word_of_nat i) mod length arr"
  have c: "?c < length arr" "arr ! ?c \<in> set arr" using assms(2) by simp_all
  then have "md_addr (arr ! ?c) \<in> lv" using assms(1) by auto
  with Cons c show ?case by (simp add: Let_def del: not_invalid_iff)
qed simp

lemma circular_indexes:
  assumes "unat (lwb :: u32) < n" "n \<le> NBLOCKS"
  shows "map (\<lambda>i. unat (lwb + word_of_nat i) mod n) [1..<n + 1] = rotate (Suc (unat lwb)) [0..<n]"
proof (rule nth_equalityI)
  fix k assume "k < length (map (\<lambda>i. unat (lwb + word_of_nat i) mod n) [1..<n + 1])"
  then have k: "k < n" by (simp del: upt_Suc)
  have w: "unat (word_of_nat (1 + k) :: u32) = 1 + k"
    using k assms by (simp add: layout_consts unat_of_nat del: of_nat_Suc of_nat_add)
  have "unat (lwb + word_of_nat (1 + k)) = unat lwb + (1 + k)"
    using k assms unfolding unat_word_ariths(1) w by (simp add: layout_consts)
  with k show "map (\<lambda>i. unat (lwb + word_of_nat i) mod n) [1..<n + 1] ! k =
      rotate (Suc (unat lwb)) [0..<n] ! k"
    by (simp add: nth_rotate del: upt_Suc of_nat_Suc of_nat_add rotate_Suc)
qed (simp del: upt_Suc)

lemma find_target_rotate:
  assumes "driver_ok s"
  shows "find_target s = Inr (find (\<lambda>c. is_valid (md_at s c) = BLK_INVALID)
           (rotate (Suc (unat (last_written_block s))) [0..<md_array_size s]))"
proof (cases "md_array_size s = 0")
  case False
  with assms have ne: "md_objs s \<noteq> []" and l: "unat (last_written_block s) < md_array_size s"
    and n: "md_array_size s \<le> NBLOCKS" "length (md_objs s) = md_array_size s"
    by (auto simp: driver_ok_def shape_ok_def)
  have "set (map md_addr (md_objs s)) \<subseteq> live s"
    using assms md_live by (simp add: driver_ok_def)
  from find_free_find [OF this ne] show ?thesis
    unfolding find_target_def n(2) md_at_def using circular_indexes [OF l n(1)]
    by (simp only: sum.inject)
qed (simp add: find_target_def)

lemma find_target_Some:
  assumes "driver_ok s" "find_target s = Inr (Some t)"
  shows "t < md_array_size s" "is_valid (md_at s t) = BLK_INVALID"
  using assms find_Some_mem by (fastforce simp: find_target_rotate)+

lemma find_target_None:
  assumes "driver_ok s"
  shows "find_target s = Inr None \<longleftrightarrow> (\<forall>i < md_array_size s. is_valid (md_at s i) = BLK_VALID)"
  using assms by (simp add: find_target_rotate find_None_iff)

lemma find_free_mono:
  "find_free lv arr n lwb is = Inr x \<Longrightarrow> lv \<subseteq> lv' \<Longrightarrow> find_free lv' arr n lwb is = Inr x"
  by (induction "is") (auto simp: Let_def split: if_splits)

lemma find_target_alloc:
  assumes "find_target s = Inr x" "live s \<subseteq> live s'" "md_objs s' = md_objs s"
    and "last_written_block s' = last_written_block s" "md_array_size s' = md_array_size s"
  shows "find_target s' = Inr x"
  using find_free_mono [of "live s" _ _ _ _ x "live s'"] assms by (simp only: find_target_def)

section \<open>put\_data: the new block\<close>

lemma length_new_block [simp]:
  "length source \<le> DEFAULT_BLOCK_SIZE - METADATA_SIZE \<Longrightarrow> length (new_block b source) = DEFAULT_BLOCK_SIZE"
  by (simp add: new_block_def layout_consts)

lemma new_block_metadata [simp]: "block_metadata (new_block b source) = b"
  by (simp add: new_block_def)

lemma new_block_payload:
  "length source \<le> DEFAULT_BLOCK_SIZE - METADATA_SIZE \<Longrightarrow>
     block_payload (new_block b source) =
       source @ replicate (DEFAULT_BLOCK_SIZE - METADATA_SIZE - length source) 0"
  by (simp add: new_block_def) (simp add: block_payload_def layout_consts)

lemma new_metadata_fields [simp]:
  "nsec (new_metadata t n) = t" "is_valid (new_metadata t n) = BLK_VALID"
  "valid_bytes (new_metadata t n) = word_of_nat n"
  by (simp_all add: new_metadata_def)

lemma unat_valid_bytes:
  "n \<le> DEFAULT_BLOCK_SIZE - METADATA_SIZE \<Longrightarrow> unat (word_of_nat n :: 15 word) = n"
  by (simp add: layout_consts unat_of_nat)

lemma new_block_ok:
  "length source \<le> DEFAULT_BLOCK_SIZE - METADATA_SIZE \<Longrightarrow>
     block_ok (new_block (new_metadata t (length source)) source) (new_metadata t (length source))"
  by (simp add: block_ok_def unat_valid_bytes)

lemma new_block_message:
  "length source \<le> DEFAULT_BLOCK_SIZE - METADATA_SIZE \<Longrightarrow>
     message_at (new_block (new_metadata t (length source)) source) (new_metadata t (length source)) =
       (t, source)"
  by (simp add: message_at_def new_block_payload unat_valid_bytes)

section \<open>put\_data: a successful call\<close>

text \<open>The state a successful call leaves, for target block \<open>t\<close>.\<close>

definition put_result :: "nat \<Rightarrow> addr \<Rightarrow> md_obj \<Rightarrow> bytes \<Rightarrow> bldms \<Rightarrow> bldms" where
  "put_result t e new buffer s = s\<lparr>
     live := insert e (insert (md_addr new) (live s)) - {md_addr (md_objs s ! t)},
     valid_blk_list := insert_in_order
       (rcu_fill e (word_of_nat t) (ucast (valid_bytes (md_blk new))) (nsec (md_blk new)))
       (valid_blk_list s),
     metadata_array := map_option (\<lambda>arr. arr\<lparr>arr_elems := (arr_elems arr)[t := new]\<rparr>) (metadata_array s),
     last_written_block := word_of_nat t,
     disk := (disk s)(t + NUM_METADATA_BLKS := buffer)\<rparr>"

text \<open>The allocator's part of the environment: what it returns is not in use.\<close>

definition allocs :: "put_env \<Rightarrow> addr list" where
  "allocs env = concat (map (case_option [] (\<lambda>a. [a])) [buffer_alloc env, elem_alloc env, md_alloc env])"

definition put_env_ok :: "put_env \<Rightarrow> bldms \<Rightarrow> bool" where
  "put_env_ok env s \<longleftrightarrow> distinct (allocs env) \<and> set (allocs env) \<inter> live s = {}"

lemma put_result_md [simp]:
  "md_objs (put_result t e new buffer s) = (md_objs s)[t := new]"
  by (simp add: md_objs_def put_result_def split: option.splits)

lemma put_result_md_at:
  "i < length (md_objs s) \<Longrightarrow>
     md_at (put_result t e new buffer s) i = (if i = t then md_blk new else md_at s i)"
  by (simp add: md_at_def nth_list_update)

text \<open>A call that gets past its checks enters the critical section with three new objects.\<close>

definition put_ready :: "put_env \<Rightarrow> bytes \<Rightarrow> bldms \<Rightarrow> addr \<Rightarrow> addr \<Rightarrow> addr \<Rightarrow> bool" where
  "put_ready env source s b e m \<longleftrightarrow>
     length source \<le> DEFAULT_BLOCK_SIZE - METADATA_SIZE \<and> not_copied env = 0 \<and>
     buffer_alloc env = Some b \<and> elem_alloc env = Some e \<and> md_alloc env = Some m \<and>
     distinct [b, e, m] \<and> {b, e, m} \<inter> live s = {}"

definition put_locked :: "addr \<Rightarrow> addr \<Rightarrow> addr \<Rightarrow> bldms \<Rightarrow> bldms" where
  "put_locked b e m s = s\<lparr>live := insert m (insert e (insert b (live s))), rcu_write_lock := True\<rparr>"

definition put_obj :: "put_env \<Rightarrow> bytes \<Rightarrow> addr \<Rightarrow> md_obj" where
  "put_obj env source m = \<lparr>md_addr = m, md_blk = new_metadata (now env) (length source)\<rparr>"

definition put_buffer :: "put_env \<Rightarrow> bytes \<Rightarrow> bytes" where
  "put_buffer env source = new_block (new_metadata (now env) (length source)) source"

lemma put_obj_fields [simp]:
  "md_addr (put_obj env source m) = m"
  "md_blk (put_obj env source m) = new_metadata (now env) (length source)"
  by (simp_all add: put_obj_def)

lemma put_data_enter:
  assumes "driver_ok s" "put_ready env source s b e m"
  shows "put_data env source s =
     put_data_critical (bread env) b e (put_obj env source m) (put_buffer env source) (put_locked b e m s)"
  using assms
  by (simp add: put_ready_def put_data_def kzalloc_def driver_ok_def shape_ok_def Let_def
      put_obj_def put_buffer_def put_locked_def)

lemma put_data_critical_Some:
  assumes ok: "driver_ok s" and t: "find_target s = Inr (Some t)" and br: "br (t + NUM_METADATA_BLKS)"
    and new: "distinct [b, e, md_addr new]" "{b, e, md_addr new} \<inter> live s = {}"
  shows "put_data_critical br b e new buffer (put_locked b e (md_addr new) s) =
     Inr (Inr t, put_result t e new buffer s)"
proof -
  let ?s = "put_locked b e (md_addr new) s"
  from ok obtain arr where arr: "metadata_array s = Some arr" by (auto simp: driver_ok_def shape_ok_def)
  then have objs: "md_objs s = arr_elems arr" by (simp add: md_objs_def)
  have lt: "t < length (arr_elems arr)"
    using ok find_target_Some(1) [OF ok t] by (simp add: driver_ok_def shape_ok_def objs)
  have old: "md_addr (arr_elems arr ! t) \<in> live s"
    using ok md_live(1) [of s] lt by (auto simp: driver_ok_def objs)
  have t': "find_target ?s = Inr (Some t)"
    using t by (rule find_target_alloc) (auto simp: put_locked_def md_objs_def)
  have ul: "\<not> rcu_write_lock s" using ok by (simp add: driver_ok_def shape_ok_def)
  have free: "kfree_all [b, md_addr (arr_elems arr ! t)] x =
      Inr (x\<lparr>live := live x - {b, md_addr (arr_elems arr ! t)}\<rparr>)"
    if "live x = live ?s" for x :: bldms
    using new old that by (subst kfree_all_live) (auto simp: put_locked_def)
  show ?thesis
    unfolding put_data_critical_def t' using new old
    by (simp add: put_locked_def arr br Let_def free put_result_def objs spin_unlock_def
        add_valid_block_in_order_secure_def insert_Diff_if)
      (auto intro!: bldms.equality simp: ul)
qed

lemma put_data_success:
  assumes "driver_ok s" "put_ready env source s b e m"
    and "find_target s = Inr (Some t)" "bread env (t + NUM_METADATA_BLKS)"
  shows "put_data env source s =
     Inr (Inr t, put_result t e (put_obj env source m) (put_buffer env source) s)"
  using put_data_critical_Some [OF assms(1,3), of "bread env" b e "put_obj env source m"] assms(2,4)
  by (simp add: put_data_enter [OF assms(1,2)] put_ready_def)

section \<open>put\_data: the invariant\<close>

lemma put_result_shape:
  "shape_ok s \<Longrightarrow> t < md_array_size s \<Longrightarrow> shape_ok (put_result t e new buffer s)"
  unfolding shape_ok_def put_result_md length_list_update
  by (auto simp: put_result_def layout_consts)

lemma put_result_mem:
  assumes "mem_ok s" "metadata_array s \<noteq> None" "t < length (md_objs s)"
    and "e \<noteq> md_addr new" "{e, md_addr new} \<inter> live s = {}"
  shows "mem_ok (put_result t e new buffer s)"
proof -
  from assms(2) obtain arr where arr: "metadata_array s = Some arr" by auto
  have objs: "md_objs s = arr_elems arr" by (simp add: md_objs_def arr)
  let ?A = "map md_addr (arr_elems arr)" and ?E = "map el_addr (valid_blk_list s)"
  let ?E' = "map el_addr (insert_in_order
    (rcu_fill e (word_of_nat t) (ucast (valid_bytes (md_blk new))) (nsec (md_blk new))) (valid_blk_list s))"
  have d: "distinct (arr_addr arr # ?A @ ?E)" and sub: "set (arr_addr arr # ?A @ ?E) \<subseteq> live s"
    using assms(1) by (simp_all add: mem_ok_def owned_def arr)
  have t: "t < length ?A" using assms(3) by (simp add: objs)
  have "set ?E' = insert e (set ?E)" "distinct ?E'"
    using d sub assms(5) by auto
  from owned_replace [OF d sub t assms(4,5) this(2,1)] show ?thesis
    using t by (simp add: mem_ok_def owned_def put_result_def arr map_update objs)
qed

lemma put_result_index:
  assumes "index_inv s" "shape_ok s" "t < length (md_objs s)" "is_valid (md_at s t) = BLK_INVALID"
    and "is_valid (md_blk new) = BLK_VALID"
  shows "index_inv (put_result t e new buffer s)"
proof -
  let ?el = "rcu_fill e (word_of_nat t) (ucast (valid_bytes (md_blk new))) (nsec (md_blk new))"
  let ?l = "valid_blk_list s"
  have ok: "index_ok ?l" using assms(1) by (simp add: index_inv_def)
  have free: "list_lookup ?l (ndx ?el) = None"
    using valid_iff_listed [OF assms(1,3)] assms(4) by simp
  have small: "i < 1000" if "i < length (md_objs s)" for i
    using NBLOCKS_small [OF that assms(2)] .
  have "ucast (ucast (valid_bytes (md_blk new)) :: u32) = (ucast (valid_bytes (md_blk new)) :: u64)"
    by (rule unat_eqD) simp
  then have "entry_ok (Some ?el) (md_blk new)"
    using assms(5) by (simp add: entry_ok_def elem_matches_def)
  moreover have "(word_of_nat i :: u32) = word_of_nat t \<longleftrightarrow> i = t" if "i < length (md_objs s)" for i
    using small that assms(3) word_of_nat_small_inj by simp
  moreover have "entry_ok (list_lookup ?l (word_of_nat i)) (md_at s i)" if "i < length (md_objs s)" for i
    using assms(1) that by (simp add: index_inv_def)
  moreover have "valid_blk_list (put_result t e new buffer s) = insert_in_order ?el ?l"
    by (simp add: put_result_def)
  moreover have "unat (word_of_nat t :: u32) = t" using small assms(3) by simp
  ultimately show ?thesis
    unfolding index_inv_def using assms(1,3) vl.invar_ins [OF ok free] vl.lookup_ins [OF ok free]
    by (auto simp: put_result_md_at index_inv_def)
qed

lemma put_result_disk:
  "disk_inv s \<Longrightarrow> t < length (md_objs s) \<Longrightarrow> block_ok buffer (md_blk new) \<Longrightarrow>
     disk_inv (put_result t e new buffer s)"
  by (auto simp: disk_inv_def put_result_md_at) (auto simp: put_result_def)

lemma put_result_ok:
  assumes "driver_ok s" "find_target s = Inr (Some t)" "e \<noteq> md_addr new" "{e, md_addr new} \<inter> live s = {}"
    and "is_valid (md_blk new) = BLK_VALID" "block_ok buffer (md_blk new)"
  shows "driver_ok (put_result t e new buffer s)"
proof -
  have "shape_ok s" "mem_ok s" "index_inv s" "disk_inv s" using assms(1) by (simp_all add: driver_ok_def)
  moreover have "t < md_array_size s" "is_valid (md_at s t) = BLK_INVALID"
    using find_target_Some [OF assms(1,2)] by simp_all
  moreover have "t < length (md_objs s)" "metadata_array s \<noteq> None"
    using calculation by (simp_all add: shape_ok_def)
  ultimately show ?thesis
    using assms(3-) by (simp add: driver_ok_def put_result_shape put_result_disk put_result_mem put_result_index)
qed

lemma put_result_messages:
  assumes "t < length (md_objs s)" "is_valid (md_blk new) = BLK_VALID"
  shows "messages (put_result t e new buffer s) = (messages s)(t \<mapsto> message_at buffer (md_blk new))"
  using assms by (auto simp: fun_eq_iff messages_def put_result_md_at) (auto simp: put_result_def)

section \<open>put\_data: calls that fail\<close>

lemma put_data_too_big:
  "bldms_mounted s \<Longrightarrow> length source > DEFAULT_BLOCK_SIZE - METADATA_SIZE \<Longrightarrow>
     put_data env source s = Inr (Inl E2BIG, s)"
  by (simp add: put_data_def)

lemma live_restore [simp]: "(s :: bldms)\<lparr>live := live s\<rparr> = s"
  by simp

lemma put_data_early:
  assumes "driver_ok s" "put_env_ok env s" "length source \<le> DEFAULT_BLOCK_SIZE - METADATA_SIZE"
    and "buffer_alloc env = None \<or> elem_alloc env = None \<or> md_alloc env = None \<or> not_copied env \<noteq> 0"
  shows "put_data env source s =
     Inr (Inl (if buffer_alloc env \<noteq> None \<and> not_copied env \<noteq> 0 then EMSGSIZE else EADDRNOTAVAIL), s)"
  using assms
  by (auto simp: put_data_def driver_ok_def shape_ok_def put_env_ok_def allocs_def kzalloc_def Let_def
      insert_Diff_if split: option.splits if_splits)

text \<open>
  The two failures inside the critical section. Without a free block nothing has changed; when
  the block cannot be read, the entry of the array that was to be replaced has been freed and
  is still in the array.
\<close>

lemma put_data_no_space:
  assumes ok: "driver_ok s" and env: "put_ready env source s b e m" and t: "find_target s = Inr None"
  shows "put_data env source s = Inr (Inl ENOMEM, s)"
proof -
  let ?s = "put_locked b e m s"
  have d: "distinct [b, e, m]" "{b, e, m} \<inter> live s = {}" using env by (simp_all add: put_ready_def)
  have t': "find_target ?s = Inr None"
    using t by (rule find_target_alloc) (auto simp: md_objs_def put_locked_def)
  have k: "kfree_all [e, b, m] (spin_unlock ?s) =
      Inr ((spin_unlock ?s)\<lparr>live := live (spin_unlock ?s) - {e, b, m}\<rparr>)"
    using d by (subst kfree_all_live) (auto simp: spin_unlock_def put_locked_def)
  have "live (spin_unlock ?s) - {e, b, m} = live s"
    using d by (auto simp: spin_unlock_def put_locked_def)
  moreover have "\<not> rcu_write_lock s" using ok by (simp add: driver_ok_def shape_ok_def)
  ultimately have "(spin_unlock ?s)\<lparr>live := live (spin_unlock ?s) - {e, b, m}\<rparr> = s"
    by (auto intro!: bldms.equality simp: spin_unlock_def put_locked_def)
  with k t' show ?thesis
    unfolding put_data_enter [OF ok env] put_data_critical_def by simp
qed

lemma put_data_io_error:
  assumes ok: "driver_ok s" and env: "put_ready env source s b e m"
    and t: "find_target s = Inr (Some t)" and br: "\<not> bread env (t + NUM_METADATA_BLKS)"
  shows "put_data env source s = Inr (Inl EPERM, s\<lparr>live := live s - {md_addr (md_objs s ! t)}\<rparr>)"
proof -
  let ?s = "put_locked b e m s" and ?old = "md_addr (md_objs s ! t)"
  have d: "distinct [b, e, m]" "{b, e, m} \<inter> live s = {}" using env by (simp_all add: put_ready_def)
  have t': "find_target ?s = Inr (Some t)"
    using t by (rule find_target_alloc) (auto simp: md_objs_def put_locked_def)
  have "?old \<in> live s"
    using ok md_live(1) [of s] find_target_Some(1) [OF ok t] by (auto simp: driver_ok_def shape_ok_def)
  with d have k: "kfree_all [e, b, m, ?old] (spin_unlock ?s) =
      Inr ((spin_unlock ?s)\<lparr>live := live (spin_unlock ?s) - {e, b, m, ?old}\<rparr>)"
    by (subst kfree_all_live) (auto simp: spin_unlock_def put_locked_def)
  have "live (spin_unlock ?s) - {e, b, m, ?old} = live s - {?old}"
    using d by (auto simp: spin_unlock_def put_locked_def)
  moreover have "\<not> rcu_write_lock s" using ok by (simp add: driver_ok_def shape_ok_def)
  ultimately have "(spin_unlock ?s)\<lparr>live := live (spin_unlock ?s) - {e, b, m, ?old}\<rparr> =
      s\<lparr>live := live s - {?old}\<rparr>"
    by (auto intro!: bldms.equality simp: spin_unlock_def put_locked_def)
  moreover obtain arr where arr: "metadata_array s = Some arr"
    using ok by (auto simp: driver_ok_def shape_ok_def)
  then have "metadata_array ?s = Some arr" "md_objs s = arr_elems arr"
    by (simp_all add: put_locked_def md_objs_def)
  ultimately show ?thesis
    unfolding put_data_enter [OF ok env] put_data_critical_def using k t' br by simp
qed

text \<open>The next search for a free block runs into the freed entry.\<close>

lemma find_free_dead:
  assumes "find (\<lambda>c. is_valid (md_blk (arr ! c)) = BLK_INVALID)
      (map (\<lambda>i. unat (lwb + word_of_nat i) mod length arr) is) = Some t"
    and "\<And>c. c < length arr \<Longrightarrow> c \<noteq> t \<Longrightarrow> md_addr (arr ! c) \<in> lv" "md_addr (arr ! t) \<notin> lv" "arr \<noteq> []"
  shows "find_free lv arr (length arr) lwb is = Inl (UseAfterFree (md_addr (arr ! t)))"
  using assms
proof (induction "is")
  case (Cons i "is")
  let ?c = "unat (lwb + word_of_nat i) mod length arr"
  have c: "?c < length arr" using Cons.prems(4) by simp
  show ?case
  proof (cases "?c = t")
    case False
    then have "md_addr (arr ! ?c) \<in> lv" "is_valid (md_blk (arr ! ?c)) \<noteq> BLK_INVALID"
      using Cons.prems(1,2) c by (auto split: if_splits)
    with Cons c show ?thesis by (simp add: Let_def not_le del: not_invalid_iff)
  qed (use Cons.prems(3) c in \<open>simp add: Let_def\<close>)
qed simp

lemma put_data_after_io_error:
  assumes ok: "driver_ok s" and t: "find_target s = Inr (Some t)"
  defines "s' \<equiv> s\<lparr>live := live s - {md_addr (md_objs s ! t)}\<rparr>"
  assumes env: "put_ready env source s' b e m" and reuse: "md_addr (md_objs s ! t) \<notin> {b, e, m}"
  shows "put_data env source s' = Inl (UseAfterFree (md_addr (md_objs s ! t)))"
proof -
  let ?arr = "md_objs s" and ?lv = "insert m (insert e (insert b (live s - {md_addr (md_objs s ! t)})))"
  have n: "length ?arr = md_array_size s" "t < length ?arr" "unat (last_written_block s) < md_array_size s"
    "md_array_size s \<le> NBLOCKS"
    using ok find_target_Some(1) [OF ok t] by (auto simp: driver_ok_def shape_ok_def)
  then have ne: "?arr \<noteq> []" by auto
  have d: "distinct (map md_addr ?arr)" "set (map md_addr ?arr) \<subseteq> live s"
    using md_live [of s] ok by (auto simp: driver_ok_def)
  have others: "md_addr (?arr ! c) \<in> ?lv" if "c < length ?arr" "c \<noteq> t" for c
  proof -
    have "md_addr (?arr ! c) \<noteq> md_addr (?arr ! t)"
      using d(1) that n by (metis length_map nth_eq_iff_index_eq nth_map)
    moreover have "md_addr (?arr ! c) \<in> live s" using d(2) that by auto
    ultimately show ?thesis by simp
  qed
  have "find (\<lambda>c. is_valid (md_blk (?arr ! c)) = BLK_INVALID)
      (map (\<lambda>i. unat (last_written_block s + word_of_nat i) mod length ?arr) [1..<md_array_size s + 1]) = Some t"
    using t circular_indexes [OF n(3,4)]
    unfolding find_target_rotate [OF ok] n(1) md_at_def by (simp only: sum.inject)
  from find_free_dead [OF this others _ ne] reuse
  have "find_free ?lv ?arr (md_array_size s) (last_written_block s) [1..<md_array_size s + 1] = Inl (UseAfterFree (md_addr (?arr ! t)))"
    by (simp add: n(1) del: upt_Suc)
  moreover have "find_target (put_locked b e m s') = find_free ?lv ?arr (md_array_size s) (last_written_block s) [1..<md_array_size s + 1]"
    by (simp add: find_target_def put_locked_def s'_def md_objs_def)
  moreover have "put_data env source s' =
      put_data_critical (bread env) b e (put_obj env source m) (put_buffer env source) (put_locked b e m s')"
    using ok env
    by (simp add: put_ready_def put_data_def kzalloc_def driver_ok_def shape_ok_def Let_def
        put_obj_def put_buffer_def put_locked_def s'_def)
  ultimately show ?thesis by (simp add: put_data_critical_def)
qed

section \<open>get\_data\<close>

lemma unat_bytes_to_copy:
  assumes "unat vb < 2 ^ 31"
  shows "unat (bytes_to_copy vb sz) = min (unat sz) (unat vb)"
proof -
  have v: "unat (ucast vb :: u32) = unat vb"
    using assms by (intro unat_ucast_64_32) simp
  then have s: "unat (scast (ucast vb :: u32) :: u64) = unat vb"
    using assms unat_scast_nonneg [of "ucast vb"] by simp
  show ?thesis
  proof (cases "unat vb < unat sz")
    case True
    then have "sz > scast (ucast vb :: u32)" by (simp add: word_less_nat_alt s)
    with True v show ?thesis by (simp add: bytes_to_copy_def)
  next
    case False
    then have "\<not> sz > scast (ucast vb :: u32)" by (simp add: word_less_nat_alt s)
    moreover have "unat (ucast sz :: u32) = unat sz"
      using False assms by (intro unat_ucast_64_32) simp
    ultimately show ?thesis using False by (simp add: bytes_to_copy_def)
  qed
qed

lemma message_lengths:
  assumes "driver_ok s" "i < md_array_size s" "is_valid (md_at s i) = BLK_VALID"
  shows "unat (valid_bytes (md_at s i)) \<le> 4086" "length (disk s (i + NUM_METADATA_BLKS)) = 4096"
  using assms by (auto simp: driver_ok_def disk_inv_def shape_ok_def block_ok_def layout_consts)

lemma messages_Some:
  assumes "driver_ok s" "messages s i = Some (ts, msg)"
  obtains el where "i < md_array_size s" "list_lookup (valid_blk_list s) (word_of_nat i) = Some el"
    "el_nsec el = ts" "unat (el_valid_bytes el) = length msg" "length msg \<le> 4086"
    "msg = take (length msg) (drop METADATA_SIZE (disk s (i + NUM_METADATA_BLKS)))"
proof -
  have sh: "shape_ok s" "index_inv s" using assms(1) by (simp_all add: driver_ok_def)
  have i: "i < length (md_objs s)" "is_valid (md_at s i) = BLK_VALID"
    and m: "message_at (disk s (i + NUM_METADATA_BLKS)) (md_at s i) = (ts, msg)"
    using assms(2) by (auto simp: messages_def split: if_splits)
  have n: "i < md_array_size s" using i sh by (simp add: shape_ok_def)
  obtain el where el: "list_lookup (valid_blk_list s) (word_of_nat i) = Some el"
    using valid_iff_listed [OF sh(2) i(1)] i(2) by auto
  note e = listed_entry [OF sh(2,1) i(1) el] and l = message_lengths [OF assms(1) n i(2)]
  have "length msg = unat (valid_bytes (md_at s i))"
    using m l by (auto simp: message_at_def block_payload_def layout_consts)
  then show thesis
    using that [OF n el] e m l by (auto simp: message_at_def block_payload_def)
qed

lemma word_add2_small: "i < 1000 \<Longrightarrow> unat (word_of_nat i + word_of_nat NUM_METADATA_BLKS :: u32) = i + NUM_METADATA_BLKS"
  by (simp add: layout_consts unat_word_ariths)

lemma offset_in_range:
  assumes "driver_ok s" "i < md_array_size s"
  shows "i < 1000" "\<not> md_array_size s \<le> unat (scast (word_of_nat i :: u32) :: u64)"
proof -
  show "i < 1000" using assms by (simp add: driver_ok_def shape_ok_def layout_consts)
  then show "\<not> md_array_size s \<le> unat (scast (word_of_nat i :: u32) :: u64)"
    using assms unat_scast_nonneg [of "word_of_nat i"] by simp
qed

lemma get_data_found:
  assumes ok: "driver_ok s" and msg: "messages s i = Some (ts, msg)"
    and br: "get_bread env (i + NUM_METADATA_BLKS)"
    and k: "k = min (unat sz) (length msg)" and r: "uncopied env k \<le> k"
  shows "get_data env (word_of_nat i) sz s =
     Inr (Inr (word_of_nat (k - uncopied env k), take (k - uncopied env k) msg), s)"
proof -
  obtain el where el: "i < md_array_size s" "list_lookup (valid_blk_list s) (word_of_nat i) = Some el"
    "unat (el_valid_bytes el) = length msg" "length msg \<le> 4086"
    "msg = take (length msg) (drop METADATA_SIZE (disk s (i + NUM_METADATA_BLKS)))"
    using messages_Some [OF ok msg] by metis
  note range = offset_in_range [OF ok el(1)]
  let ?b = "bytes_to_copy (el_valid_bytes el) sz"
  have b: "unat ?b = k" using unat_bytes_to_copy [of "el_valid_bytes el" sz] el(3,4) k by simp
  then have b64: "unat (scast ?b :: u64) = k"
    using unat_scast_nonneg [of ?b] el(4) k by simp
  then have "(scast ?b :: u64) = word_of_nat k"
    by (metis of_nat_unat ucast_id)
  then have ret: "scast ?b - word_of_nat (uncopied env k) = (word_of_nat (k - uncopied env k) :: u64)"
    using r by (simp add: of_nat_diff)
  have cut: "take (k - uncopied env k) (drop METADATA_SIZE (disk s (i + NUM_METADATA_BLKS))) =
      take (k - uncopied env k) msg"
    using k by (subst el(5)) (simp add: min_def)
  have fits: "METADATA_SIZE + k \<le> DEFAULT_BLOCK_SIZE" using el(4) k by (simp add: layout_consts)
  show ?thesis
    using ok range br b64 ret cut fits
    by (simp add: get_data_def driver_ok_def shape_ok_def Let_def word_add2_small el(2)
        rcu_read_lock_def rcu_read_unlock_def)
qed

lemma get_data_absent:
  assumes ok: "driver_ok s" and i: "i < md_array_size s" and msg: "messages s i = None"
  shows "get_data env (word_of_nat i) sz s = Inr (Inl ENODATA, s)"
proof -
  have "list_lookup (valid_blk_list s) (word_of_nat i) = None"
    using messages_dom [of s i] ok i msg by (auto simp: driver_ok_def shape_ok_def)
  then show ?thesis
    using ok offset_in_range [OF ok i]
    by (simp add: get_data_def driver_ok_def shape_ok_def Let_def rcu_read_lock_def rcu_read_unlock_def)
qed

lemma offset_out_of_range:
  assumes "driver_ok s" "sint offset < 0 \<or> int (md_array_size s) \<le> sint offset"
  shows "md_array_size s \<le> unat (scast (offset :: u32) :: u64)"
proof (cases "unat offset < 2 ^ 31")
  case True
  obtain x where x: "unat offset = x" "uint offset = int x" "x < 4294967296" by (rule u32_cases)
  have "sint offset = int x" using True by (simp add: sint_u32 x)
  with assms True unat_scast_nonneg [of offset] show ?thesis by (simp add: x)
next
  case False
  with unat_scast_neg [of offset] assms(1) show ?thesis
    by (simp add: driver_ok_def shape_ok_def layout_consts)
qed

section \<open>invalidate\_data\<close>

definition inval_result :: "nat \<Rightarrow> rcu_elem \<Rightarrow> bldms \<Rightarrow> bldms" where
  "inval_result i el s =
     (let obj = md_objs s ! i; blk = (md_blk obj)\<lparr>is_valid := BLK_INVALID\<rparr> in
      s\<lparr>live := live s - {el_addr el},
        valid_blk_list := list_delete (word_of_nat i) (valid_blk_list s),
        metadata_array := map_option (\<lambda>arr. arr\<lparr>arr_elems := (arr_elems arr)[i := obj\<lparr>md_blk := blk\<rparr>]\<rparr>)
          (metadata_array s),
        disk := (disk s)(i + NUM_METADATA_BLKS :=
          memcpy_at 0 (encode_block blk) (disk s (i + NUM_METADATA_BLKS)))\<rparr>)"

lemma inval_result_md [simp]:
  "md_objs (inval_result i el s) =
     (md_objs s)[i := (md_objs s ! i)\<lparr>md_blk := (md_at s i)\<lparr>is_valid := BLK_INVALID\<rparr>\<rparr>]"
  by (simp add: md_objs_def inval_result_def md_at_def Let_def split: option.splits)

lemma inval_result_md_at:
  "j < length (md_objs s) \<Longrightarrow>
     md_at (inval_result i el s) j = (if j = i then (md_at s i)\<lparr>is_valid := BLK_INVALID\<rparr> else md_at s j)"
  by (simp add: md_at_def nth_list_update)

lemma invalidate_data_success:
  assumes ok: "driver_ok s" and i: "i < md_array_size s"
    and el: "list_lookup (valid_blk_list s) (word_of_nat i) = Some el"
    and br: "br (i + NUM_METADATA_BLKS)"
  shows "invalidate_data br (word_of_nat i) s = Inr (Inr (), inval_result i el s)"
proof -
  note range = offset_in_range [OF ok i]
  from ok obtain arr where arr: "metadata_array s = Some arr" by (auto simp: driver_ok_def shape_ok_def)
  then have objs: "md_objs s = arr_elems arr" by (simp add: md_objs_def)
  have len: "i < length (arr_elems arr)" using ok i by (simp add: driver_ok_def shape_ok_def objs)
  have live: "md_addr (arr_elems arr ! i) \<in> live s" "el_addr el \<in> live s"
    using ok len list_lookup_Some [OF el]
    by (auto simp: driver_ok_def mem_ok_def owned_def arr)
  have n: "unat (ndx el) = i" using list_lookup_Some [OF el] range by simp
  have sh: "bldms_mounted s" "\<not> rcu_write_lock s" "rcu_readers s = 0" "the_dev_superblock s"
    using ok by (simp_all add: driver_ok_def shape_ok_def)
  show ?thesis
    using range sh live len br
    by (simp add: invalidate_data_def invalidate_critical_def el n arr word_add2_small Let_def
        spin_unlock_def inval_result_def objs list_delete_def)
qed

lemma invalidate_data_absent:
  assumes ok: "driver_ok s" and i: "i < md_array_size s" and msg: "messages s i = None"
  shows "invalidate_data br (word_of_nat i) s = Inr (Inl ENODATA, s)"
proof -
  have "list_lookup (valid_blk_list s) (word_of_nat i) = None"
    using messages_dom [of s i] ok i msg by (auto simp: driver_ok_def shape_ok_def)
  then show ?thesis
    using ok offset_in_range [OF ok i]
    by (auto simp: invalidate_data_def invalidate_critical_def driver_ok_def shape_ok_def Let_def
        spin_unlock_def intro!: bldms.equality)
qed

lemma invalidate_data_io_error:
  assumes ok: "driver_ok s" and i: "i < md_array_size s"
    and el: "list_lookup (valid_blk_list s) (word_of_nat i) = Some el"
    and br: "\<not> br (i + NUM_METADATA_BLKS)"
  shows "invalidate_data br (word_of_nat i) s = Inr (Inl EPERM, s)"
  using ok offset_in_range [OF ok i] br el
  by (auto simp: invalidate_data_def invalidate_critical_def driver_ok_def shape_ok_def Let_def
      spin_unlock_def word_add2_small intro!: bldms.equality)

lemma inval_result_shape: "shape_ok s \<Longrightarrow> shape_ok (inval_result i el s)"
  unfolding shape_ok_def inval_result_md length_list_update
  by (auto simp: inval_result_def Let_def)

lemma owned_remove:
  assumes d: "distinct (A @ map el_addr xs)" and sub: "set (A @ map el_addr xs) \<subseteq> L"
    and x: "x \<in> set xs" and dx: "distinct xs"
  shows "distinct (A @ map el_addr (remove1 x xs))" "set (A @ map el_addr (remove1 x xs)) \<subseteq> L - {el_addr x}"
proof -
  have m: "distinct (map el_addr xs)" using d by simp
  have E: "set (map el_addr (remove1 x xs)) = set (map el_addr xs) - {el_addr x}"
    using m x dx by (auto dest: distinct_map_eqD)
  have "el_addr x \<notin> set A" using d x by auto
  then show "distinct (A @ map el_addr (remove1 x xs))"
    "set (A @ map el_addr (remove1 x xs)) \<subseteq> L - {el_addr x}"
    unfolding distinct_append set_append E using d sub distinct_map_remove1 [OF m] by auto
qed

lemma inval_result_mem:
  assumes "mem_ok s" "list_lookup (valid_blk_list s) (word_of_nat i) = Some el" "i < length (md_objs s)"
  shows "mem_ok (inval_result i el s)"
proof -
  let ?A = "case metadata_array s of None \<Rightarrow> [] | Some arr \<Rightarrow> arr_addr arr # map md_addr (arr_elems arr)"
  have o: "owned s = ?A @ map el_addr (valid_blk_list s)" by (simp add: owned_def)
  have d: "distinct (valid_blk_list s)"
    using assms(1) by (auto simp: mem_ok_def o distinct_map)
  have "owned (inval_result i el s) = ?A @ map el_addr (remove1 el (valid_blk_list s))"
    using assms(2,3)
    by (auto simp: owned_def inval_result_def Let_def list_delete_def md_objs_def split: option.splits)
  moreover have "live (inval_result i el s) = live s - {el_addr el}"
    by (simp add: inval_result_def Let_def)
  ultimately show ?thesis
    using owned_remove [of ?A "valid_blk_list s" "live s" el] assms(1) d list_lookup_Some [OF assms(2)]
    by (simp add: mem_ok_def o)
qed

lemma inval_result_index:
  assumes "index_inv s" "shape_ok s" "i < length (md_objs s)"
  shows "index_inv (inval_result i el s)"
proof -
  let ?l = "valid_blk_list s"
  have ok: "index_ok ?l" using assms(1) by (simp add: index_inv_def)
  have inj: "(word_of_nat j :: u32) = word_of_nat i \<longleftrightarrow> j = i" if "j < length (md_objs s)" for j
    using NBLOCKS_small [OF _ assms(2)] that assms(3) word_of_nat_small_inj by simp
  have l: "valid_blk_list (inval_result i el s) = list_delete (word_of_nat i) ?l"
    by (simp add: inval_result_def Let_def)
  have gone: "entry_ok None ((md_at s i)\<lparr>is_valid := BLK_INVALID\<rparr>)" by (simp add: entry_ok_def)
  show ?thesis
    using assms(1) vl.invar_del [OF ok] vl.lookup_del [OF ok] gone inj
    by (auto simp: index_inv_def l inval_result_md_at set_list_delete)
qed

lemma inval_result_disk:
  assumes "disk_inv s" "i < length (md_objs s)"
  shows "disk_inv (inval_result i el s)"
proof -
  have "block_ok (disk s (j + NUM_METADATA_BLKS)) (md_at s j)" if "j < length (md_objs s)" for j
    using assms(1) that by (simp add: disk_inv_def)
  from this [of i] this assms(2) show ?thesis
    by (auto simp: disk_inv_def inval_result_md_at block_ok_def)
      (auto simp: inval_result_def Let_def md_at_def layout_consts)
qed

lemma inval_result_ok:
  assumes "driver_ok s" "i < md_array_size s" "list_lookup (valid_blk_list s) (word_of_nat i) = Some el"
  shows "driver_ok (inval_result i el s)"
proof -
  have ok: "shape_ok s" "mem_ok s" "index_inv s" "disk_inv s" using assms(1) by (simp_all add: driver_ok_def)
  then have "i < length (md_objs s)" using assms(2) by (simp add: shape_ok_def)
  with ok assms(3) show ?thesis
    by (simp add: driver_ok_def inval_result_shape inval_result_mem inval_result_index inval_result_disk)
qed

lemma inval_result_messages:
  assumes "i < length (md_objs s)"
  shows "messages (inval_result i el s) = (messages s)(i := None)"
  using assms by (auto simp: fun_eq_iff messages_def inval_result_md_at)
    (auto simp: inval_result_def Let_def)

end
