(* ===== verification/Service.thy ===== *)
theory Service
  imports Syscalls
begin

text \<open>
  The specification of the message service and the proof that the system calls implement it.
  The specification keeps a number of slots, the slot written last and the messages; it knows
  nothing of the array, the list, the device blocks or the allocator. \<open>simulation\<close> is the
  interface between a specification and its implementation; the lemma on whole sequences of
  calls is proved in it once and used through its interpretation on the driver.
\<close>

section \<open>Sequences of calls\<close>

fun run :: "('c \<Rightarrow> 's \<Rightarrow> fault + 'r \<times> 's) \<Rightarrow> 'c list \<Rightarrow> 's \<Rightarrow> fault + 'r list \<times> 's" where
  "run step [] s = Inr ([], s)"
| "run step (c # cs) s =
     andThen (step c s) (\<lambda>(r, s'). andThen (run step cs s') (\<lambda>(rs, s''). Inr (r # rs, s'')))"

fun run_spec :: "('c \<Rightarrow> 'a \<Rightarrow> 'r \<times> 'a) \<Rightarrow> 'c list \<Rightarrow> 'a \<Rightarrow> 'r list \<times> 'a" where
  "run_spec step [] a = ([], a)"
| "run_spec step (c # cs) a =
     (let (r, a') = step c a; (rs, a'') = run_spec step cs a' in (r # rs, a''))"

text \<open>Every call of the sequence finds the environment it relies on, in the state it is made in.\<close>

fun run_ok :: "('c \<Rightarrow> 's \<Rightarrow> fault + 'r \<times> 's) \<Rightarrow> ('c \<Rightarrow> 's \<Rightarrow> bool) \<Rightarrow> 'c list \<Rightarrow> 's \<Rightarrow> bool" where
  "run_ok step ok [] s = True"
| "run_ok step ok (c # cs) s =
     (ok c s \<and> (case step c s of Inl f \<Rightarrow> True | Inr (r, s') \<Rightarrow> run_ok step ok cs s'))"

locale simulation =
  fixes step :: "'c \<Rightarrow> 's \<Rightarrow> fault + 'r \<times> 's"
    and spec :: "'c \<Rightarrow> 'a \<Rightarrow> 'r \<times> 'a"
    and abs :: "'s \<Rightarrow> 'a"
    and inv :: "'s \<Rightarrow> bool"
    and ok :: "'c \<Rightarrow> 's \<Rightarrow> bool"
  assumes sim: "inv s \<Longrightarrow> ok c s \<Longrightarrow> \<exists>r s'. step c s = Inr (r, s') \<and> inv s' \<and> spec c (abs s) = (r, abs s')"
begin

lemma no_fault: "inv s \<Longrightarrow> ok c s \<Longrightarrow> step c s \<noteq> Inl f"
  using sim [of s c] by auto

lemma step_inv: "inv s \<Longrightarrow> ok c s \<Longrightarrow> step c s = Inr (r, s') \<Longrightarrow> inv s'"
  using sim [of s c] by auto

lemma run_sim:
  "inv s \<Longrightarrow> run_ok step ok cs s \<Longrightarrow>
     \<exists>rs s'. run step cs s = Inr (rs, s') \<and> inv s' \<and> run_spec spec cs (abs s) = (rs, abs s')"
proof (induction cs arbitrary: s)
  case (Cons c cs)
  from Cons.prems sim [of s c] obtain r s' where
    s': "step c s = Inr (r, s')" "inv s'" "spec c (abs s) = (r, abs s')" by auto
  with Cons.prems have "run_ok step ok cs s'" by simp
  from Cons.IH [OF s'(2) this] obtain rs s'' where
    "run step cs s' = Inr (rs, s'')" "inv s''" "run_spec spec cs (abs s') = (rs, abs s'')" by auto
  with s' show ?case by simp
qed simp

text \<open>What every single call keeps, a sequence keeps.\<close>

lemma run_keeps:
  assumes keep: "\<And>s c r s'. inv s \<Longrightarrow> ok c s \<Longrightarrow> step c s = Inr (r, s') \<Longrightarrow> Q s' = Q s"
  shows "inv s \<Longrightarrow> run_ok step ok cs s \<Longrightarrow> run step cs s = Inr (rs, s') \<Longrightarrow> Q s' = Q s"
proof (induction cs arbitrary: s rs)
  case (Cons c cs)
  from Cons.prems sim [of s c] obtain r s1 where
    s1: "step c s = Inr (r, s1)" "inv s1" by auto
  moreover from Cons.prems s1 obtain rs1 where "run step cs s1 = Inr (rs1, s')"
    by (auto simp: andThen_eq_Inr)
  ultimately have "Q s' = Q s1" using Cons by simp
  with keep [OF _ _ s1(1)] Cons.prems show ?case by simp
qed simp

end

section \<open>The specification\<close>

record store =
  capacity :: nat
  cursor :: nat
  content :: "nat \<rightharpoonup> ktime \<times> bytes"

datatype call =
    Put put_env bytes
  | Get get_env u32 u64
  | Invalidate "nat \<Rightarrow> bool" u32

datatype reply =
    Stored "nat sysret"
  | Fetched "(u64 \<times> bytes) sysret"
  | Invalidated "unit sysret"

text \<open>What can go wrong in the kernel before a message reaches a slot.\<close>

definition put_env_error :: "put_env \<Rightarrow> errno option" where
  "put_env_error env =
     (if buffer_alloc env = None then Some EADDRNOTAVAIL
      else if not_copied env \<noteq> 0 then Some EMSGSIZE
      else if elem_alloc env = None \<or> md_alloc env = None then Some EADDRNOTAVAIL
      else None)"

definition first_free :: "store \<Rightarrow> nat option" where
  "first_free st = find (\<lambda>i. content st i = None) (rotate (Suc (cursor st)) [0..<capacity st])"

definition spec_put :: "put_env \<Rightarrow> bytes \<Rightarrow> store \<Rightarrow> nat sysret \<times> store" where
  "spec_put env source st =
     (if length source > 4086 then (Inl E2BIG, st)
      else case put_env_error env of
        Some err \<Rightarrow> (Inl err, st)
      | None \<Rightarrow> (case first_free st of
            None \<Rightarrow> (Inl ENOMEM, st)
          | Some i \<Rightarrow> (Inr i, st\<lparr>cursor := i, content := (content st)(i \<mapsto> (now env, source))\<rparr>)))"

definition spec_get :: "get_env \<Rightarrow> u32 \<Rightarrow> u64 \<Rightarrow> store \<Rightarrow> (u64 \<times> bytes) sysret" where
  "spec_get env offset sz st =
     (if sint offset < 0 \<or> int (capacity st) \<le> sint offset then Inl E2BIG
      else case content st (unat offset) of
        None \<Rightarrow> Inl ENODATA
      | Some (ts, msg) \<Rightarrow>
          if \<not> get_bread env (unat offset + 2) then Inl EPERM
          else
            let k = min (unat sz) (length msg); d = k - uncopied env k
            in Inr (word_of_nat d, take d msg))"

definition spec_invalidate :: "(nat \<Rightarrow> bool) \<Rightarrow> u32 \<Rightarrow> store \<Rightarrow> unit sysret \<times> store" where
  "spec_invalidate br offset st =
     (if sint offset < 0 \<or> int (capacity st) \<le> sint offset then (Inl E2BIG, st)
      else case content st (unat offset) of
        None \<Rightarrow> (Inl ENODATA, st)
      | Some m \<Rightarrow>
          if \<not> br (unat offset + 2) then (Inl EPERM, st)
          else (Inr (), st\<lparr>content := (content st)(unat offset := None)\<rparr>))"

fun spec_call :: "call \<Rightarrow> store \<Rightarrow> reply \<times> store" where
  "spec_call (Put env source) st = (let (r, st') = spec_put env source st in (Stored r, st'))"
| "spec_call (Get env offset sz) st = (Fetched (spec_get env offset sz st), st)"
| "spec_call (Invalidate br offset) st =
     (let (r, st') = spec_invalidate br offset st in (Invalidated r, st'))"

section \<open>The implementation\<close>

fun do_call :: "call \<Rightarrow> bldms \<Rightarrow> fault + reply \<times> bldms" where
  "do_call (Put env source) s = andThen (put_data env source s) (\<lambda>(r, s). Inr (Stored r, s))"
| "do_call (Get env offset sz) s = andThen (get_data env offset sz s) (\<lambda>(r, s). Inr (Fetched r, s))"
| "do_call (Invalidate br offset) s =
     andThen (invalidate_data br offset s) (\<lambda>(r, s). Inr (Invalidated r, s))"

definition store_of :: "bldms \<Rightarrow> store" where
  "store_of s = \<lparr>capacity = md_array_size s, cursor = unat (last_written_block s), content = messages s\<rparr>"

text \<open>
  What a call relies on: the allocator returns unused memory, \<open>put_data\<close>'s block can be read,
  and a partial copy to the caller leaves at most what it was given.
\<close>

fun call_ok :: "call \<Rightarrow> bldms \<Rightarrow> bool" where
  "call_ok (Put env source) s = (put_env_ok env s \<and> (\<forall>i < md_array_size s. bread env (i + NUM_METADATA_BLKS)))"
| "call_ok (Get env offset sz) s = (\<forall>n \<le> 4086. uncopied env n \<le> n)"
| "call_ok (Invalidate br offset) s = True"

lemma store_of_fields [simp]:
  "capacity (store_of s) = md_array_size s" "cursor (store_of s) = unat (last_written_block s)"
  "content (store_of s) = messages s"
  by (simp_all add: store_of_def)

lemma first_free_target:
  assumes "driver_ok s"
  shows "find_target s = Inr (first_free (store_of s))"
proof -
  have "find (\<lambda>c. is_valid (md_at s c) = BLK_INVALID) xs = find (\<lambda>i. messages s i = None) xs"
    if "set xs \<subseteq> {0..<md_array_size s}" for xs
    using that assms
    by (induction xs) (auto simp: messages_def driver_ok_def shape_ok_def)
  then show ?thesis
    unfolding find_target_rotate [OF assms] first_free_def store_of_fields by simp
qed

lemma put_result_store:
  assumes ok: "driver_ok s" and t: "find_target s = Inr (Some t)"
    and len: "length source \<le> DEFAULT_BLOCK_SIZE - METADATA_SIZE"
  shows "store_of (put_result t e (put_obj env source m) (put_buffer env source) s) =
     (store_of s)\<lparr>cursor := t, content := (messages s)(t \<mapsto> (now env, source))\<rparr>"
proof -
  have n: "t < md_array_size s" using find_target_Some [OF ok t] by simp
  then have "messages (put_result t e (put_obj env source m) (put_buffer env source) s) =
      (messages s)(t \<mapsto> (now env, source))"
    using put_result_messages [of t s "put_obj env source m" e "put_buffer env source"] ok
      new_block_message [OF len, of "now env"]
    by (simp add: driver_ok_def shape_ok_def put_buffer_def)
  moreover have "t < 1000" using offset_in_range [OF ok n] by simp
  ultimately show ?thesis by (simp add: store_of_def) (simp add: put_result_def)
qed

lemma put_sim:
  assumes ok: "driver_ok s" and env: "call_ok (Put env source) s"
  shows "\<exists>r s'. put_data env source s = Inr (r, s') \<and> driver_ok s' \<and>
     spec_put env source (store_of s) = (r, store_of s')"
proof -
  have mount: "bldms_mounted s" using ok by (simp add: driver_ok_def shape_ok_def)
  have pe: "put_env_ok env s" using env by simp
  consider (big) "length source > DEFAULT_BLOCK_SIZE - METADATA_SIZE"
    | (env) err where "length source \<le> DEFAULT_BLOCK_SIZE - METADATA_SIZE" "put_env_error env = Some err"
    | (go) "length source \<le> DEFAULT_BLOCK_SIZE - METADATA_SIZE" "put_env_error env = None"
    by fastforce
  then show ?thesis
  proof cases
    case big
    then show ?thesis
      using put_data_too_big [OF mount big, of env] ok by (simp add: spec_put_def layout_consts)
  next
    case env
    then have bad: "buffer_alloc env = None \<or> elem_alloc env = None \<or> md_alloc env = None \<or> not_copied env \<noteq> 0"
      and err: "err = (if buffer_alloc env \<noteq> None \<and> not_copied env \<noteq> 0 then EMSGSIZE else EADDRNOTAVAIL)"
      by (auto simp: put_env_error_def split: if_splits)
    show ?thesis
      using put_data_early [OF ok pe env(1) bad] env ok err by (simp add: spec_put_def layout_consts)
  next
    case go
    then obtain b e m where r: "put_ready env source s b e m"
      using pe by (auto simp: put_env_error_def put_env_ok_def allocs_def put_ready_def split: if_splits)
    show ?thesis
    proof (cases "first_free (store_of s)")
      case None
      then show ?thesis
        using put_data_no_space [OF ok r] first_free_target [OF ok] ok go
        by (simp add: spec_put_def layout_consts)
    next
      case (Some t)
      then have t: "find_target s = Inr (Some t)" using first_free_target [OF ok] by simp
      have br: "bread env (t + NUM_METADATA_BLKS)" using env find_target_Some(1) [OF ok t] by simp
      let ?s = "put_result t e (put_obj env source m) (put_buffer env source) s"
      have "driver_ok ?s"
        using r go(1) by (intro put_result_ok [OF ok t]) (auto simp: put_ready_def put_buffer_def new_block_ok)
      then show ?thesis
        using put_data_success [OF ok r t br] put_result_store [OF ok t go(1), of e env m] Some go
        by (simp add: spec_put_def layout_consts)
    qed
  qed
qed

lemma offset_cases:
  assumes ok: "driver_ok s"
  obtains (out) "sint offset < 0 \<or> int (md_array_size s) \<le> sint offset"
      "md_array_size s \<le> unat (scast (offset :: u32) :: u64)"
    | (inside) i where "i < md_array_size s" "offset = word_of_nat i" "unat offset = i"
      "\<not> (sint offset < 0 \<or> int (md_array_size s) \<le> sint offset)"
proof (cases "sint offset < 0 \<or> int (md_array_size s) \<le> sint offset")
  case True
  then show thesis using out offset_out_of_range [OF ok True] by blast
next
  case False
  obtain x where x: "unat offset = x" "uint offset = int x" "x < 4294967296" by (rule u32_cases)
  from False have "x < md_array_size s" by (auto simp: sint_u32 x split: if_splits)
  moreover have "offset = word_of_nat x" unfolding x(1) [symmetric] by simp
  ultimately show thesis using inside [of x] False x by blast
qed

lemma get_sim:
  assumes ok: "driver_ok s" and env: "call_ok (Get env offset sz) s"
  shows "get_data env offset sz s = Inr (spec_get env offset sz (store_of s), s)"
proof (rule offset_cases [OF ok, of offset])
  assume "sint offset < 0 \<or> int (md_array_size s) \<le> sint offset"
    "md_array_size s \<le> unat (scast offset :: u64)"
  then show ?thesis
    using ok by (simp add: get_data_def spec_get_def driver_ok_def shape_ok_def)
next
  fix i
  assume i: "i < md_array_size s" "offset = word_of_nat i" "unat offset = i"
    "\<not> (sint offset < 0 \<or> int (md_array_size s) \<le> sint offset)"
  show ?thesis
  proof (cases "messages s i")
    case None
    then show ?thesis
      using get_data_absent [OF ok i(1) None] i by (simp add: spec_get_def)
  next
    case (Some p)
    obtain ts msg where p: "p = (ts, msg)" by (cases p)
    obtain el where el: "list_lookup (valid_blk_list s) (word_of_nat i) = Some el" "length msg \<le> 4086"
      using messages_Some [OF ok Some [unfolded p]] by metis
    show ?thesis
    proof (cases "get_bread env (i + NUM_METADATA_BLKS)")
      case True
      have "min (unat sz) (length msg) \<le> 4086" using el(2) by simp
      with env have "uncopied env (min (unat sz) (length msg)) \<le> min (unat sz) (length msg)"
        by (simp del: min.bounded_iff)
      with get_data_found [OF ok Some [unfolded p] True refl] True i Some p show ?thesis
        by (simp add: spec_get_def Let_def layout_consts)
    next
      case False
      then show ?thesis
        using ok i Some p el offset_in_range [OF ok i(1)]
        by (simp add: get_data_def spec_get_def driver_ok_def shape_ok_def word_add2_small
            rcu_read_lock_def rcu_read_unlock_def Let_def) (simp add: layout_consts)
    qed
  qed
qed

lemma invalidate_sim:
  assumes ok: "driver_ok s"
  shows "\<exists>r s'. invalidate_data br offset s = Inr (r, s') \<and> driver_ok s' \<and>
     spec_invalidate br offset (store_of s) = (r, store_of s')"
proof (rule offset_cases [OF ok, of offset])
  assume "sint offset < 0 \<or> int (md_array_size s) \<le> sint offset"
    "md_array_size s \<le> unat (scast offset :: u64)"
  then show ?thesis
    using ok by (simp add: invalidate_data_def spec_invalidate_def driver_ok_def shape_ok_def)
next
  fix i
  assume i: "i < md_array_size s" "offset = word_of_nat i" "unat offset = i"
    "\<not> (sint offset < 0 \<or> int (md_array_size s) \<le> sint offset)"
  show ?thesis
  proof (cases "messages s i")
    case None
    then show ?thesis
      using invalidate_data_absent [OF ok i(1) None, of br] i ok by (simp add: spec_invalidate_def)
  next
    case (Some p)
    obtain el where el: "list_lookup (valid_blk_list s) (word_of_nat i) = Some el"
      using messages_dom [of s i] Some ok by (auto simp: driver_ok_def)
    have len: "i < length (md_objs s)" using ok i by (simp add: driver_ok_def shape_ok_def)
    have st: "store_of (inval_result i el s) = (store_of s)\<lparr>content := (messages s)(i := None)\<rparr>"
      using inval_result_messages [OF len, of el]
      by (simp add: store_of_def) (simp add: inval_result_def Let_def)
    show ?thesis
    proof (cases "br (i + NUM_METADATA_BLKS)")
      case True
      then show ?thesis
        using invalidate_data_success [OF ok i(1) el, of br] inval_result_ok [OF ok i(1) el] i Some st
        by (simp add: spec_invalidate_def layout_consts)
    next
      case False
      then show ?thesis
        using invalidate_data_io_error [OF ok i(1) el, of br] i Some ok
        by (simp add: spec_invalidate_def layout_consts)
    qed
  qed
qed

interpretation service: simulation do_call spec_call store_of driver_ok call_ok
proof unfold_locales
  fix s c
  assume "driver_ok s" "call_ok c s"
  then show "\<exists>r s'. do_call c s = Inr (r, s') \<and> driver_ok s' \<and> spec_call c (store_of s) = (r, store_of s')"
  proof (cases c)
    case (Put env source)
    then show ?thesis
      using put_sim [OF \<open>driver_ok s\<close>, of env source] \<open>call_ok c s\<close> by auto
  next
    case (Get env offset sz)
    then show ?thesis
      using get_sim [OF \<open>driver_ok s\<close>, of env offset sz] \<open>call_ok c s\<close> \<open>driver_ok s\<close> by auto
  next
    case (Invalidate br offset)
    then show ?thesis
      using invalidate_sim [OF \<open>driver_ok s\<close>, of br offset] by auto
  qed
qed

section \<open>Failed calls and memory\<close>

text \<open>A \<open>put_data\<close> call either stores its message or leaves everything as it was.\<close>

lemma put_data_outcome:
  assumes ok: "driver_ok s" and env: "call_ok (Put env source) s"
  obtains (fail) err where "put_data env source s = Inr (Inl err, s)"
      "err = (if length source > DEFAULT_BLOCK_SIZE - METADATA_SIZE then E2BIG
              else case put_env_error env of Some e \<Rightarrow> e | None \<Rightarrow> ENOMEM)"
    | (stored) t b e m where "put_ready env source s b e m" "find_target s = Inr (Some t)"
      "put_data env source s = Inr (Inr t, put_result t e (put_obj env source m) (put_buffer env source) s)"
proof (cases "length source > DEFAULT_BLOCK_SIZE - METADATA_SIZE")
  case True
  then show thesis
    using put_data_too_big [OF _ True, of s env] ok fail by (simp add: driver_ok_def shape_ok_def)
next
  case len: False
  have pe: "put_env_ok env s" using env by simp
  show thesis
  proof (cases "put_env_error env")
    case (Some err)
    then have "buffer_alloc env = None \<or> elem_alloc env = None \<or> md_alloc env = None \<or> not_copied env \<noteq> 0"
      and "err = (if buffer_alloc env \<noteq> None \<and> not_copied env \<noteq> 0 then EMSGSIZE else EADDRNOTAVAIL)"
      by (auto simp: put_env_error_def split: if_splits)
    with put_data_early [OF ok pe _ this(1), of source] len Some show thesis by (intro fail) simp_all
  next
    case None
    then obtain b e m where r: "put_ready env source s b e m"
      using pe len by (auto simp: put_env_error_def put_env_ok_def allocs_def put_ready_def split: if_splits)
    show thesis
    proof (cases "first_free (store_of s)")
      case none: None
      then show thesis
        using put_data_no_space [OF ok r] first_free_target [OF ok] len None by (intro fail) simp_all
    next
      case (Some t)
      then have t: "find_target s = Inr (Some t)" using first_free_target [OF ok] by simp
      have br: "bread env (t + NUM_METADATA_BLKS)" using env find_target_Some(1) [OF ok t] by simp
      show thesis by (rule stored [OF r t put_data_success [OF ok r t br]])
    qed
  qed
qed

text \<open>The allocated memory that is not the driver's.\<close>

definition foreign :: "bldms \<Rightarrow> addr set" where
  "foreign s = live s - set (owned s)"

lemma put_result_foreign:
  assumes ok: "driver_ok s" and t: "t < length (md_objs s)" and new: "{e, md_addr new} \<inter> live s = {}"
  shows "foreign (put_result t e new buffer s) = foreign s"
proof -
  obtain arr where arr: "metadata_array s = Some arr" using ok by (auto simp: driver_ok_def shape_ok_def)
  let ?A = "map md_addr (arr_elems arr)" and ?E = "map el_addr (valid_blk_list s)"
  have d: "distinct (arr_addr arr # ?A @ ?E)" "set (arr_addr arr # ?A @ ?E) \<subseteq> live s"
    using ok by (simp_all add: driver_ok_def mem_ok_def owned_def arr)
  have tA: "t < length ?A" using t by (simp add: md_objs_def arr)
  have A: "set (?A[t := md_addr new]) = insert (md_addr new) (set ?A - {?A ! t})"
    using d tA by (intro set_update_distinct) simp_all
  have "owned (put_result t e new buffer s) = arr_addr arr # ?A[t := md_addr new] @
      map el_addr (valid_blk_list (put_result t e new buffer s))"
    by (simp add: owned_def put_result_def arr map_update)
  then have "set (owned (put_result t e new buffer s)) =
      insert (arr_addr arr) (insert (md_addr new) (set ?A - {?A ! t}) \<union> insert e (set ?E))"
    unfolding A [symmetric] by (simp add: put_result_def)
  moreover have "live (put_result t e new buffer s) = insert e (insert (md_addr new) (live s)) - {?A ! t}"
    using t by (simp add: put_result_def md_objs_def arr)
  moreover have "set (owned s) = insert (arr_addr arr) (set ?A \<union> set ?E)" by (simp add: owned_def arr)
  moreover have "?A ! t \<in> set ?A" using tA by (rule nth_mem)
  ultimately show ?thesis using d new unfolding foreign_def by auto
qed

lemma inval_result_foreign:
  assumes ok: "driver_ok s" and i: "i < length (md_objs s)"
    and el: "list_lookup (valid_blk_list s) (word_of_nat i) = Some el"
  shows "foreign (inval_result i el s) = foreign s"
proof -
  define A where "A = (case metadata_array s of None \<Rightarrow> [] | Some arr \<Rightarrow> arr_addr arr # map md_addr (arr_elems arr))"
  let ?E = "map el_addr (valid_blk_list s)"
  have o: "owned s = A @ ?E" by (simp add: owned_def A_def)
  have d: "distinct (A @ ?E)" using ok by (simp add: driver_ok_def mem_ok_def flip: o)
  have x: "el \<in> set (valid_blk_list s)" using list_lookup_Some [OF el] by simp
  then have inE: "el_addr el \<in> set ?E" by simp
  moreover have "set A \<inter> set ?E = {}" using d by simp
  ultimately have notA: "el_addr el \<notin> set A" by blast
  have "owned (inval_result i el s) = A @ map el_addr (remove1 el (valid_blk_list s))"
    using el i by (auto simp: owned_def A_def inval_result_def Let_def list_delete_def md_objs_def split: option.splits)
  moreover have "set (map el_addr (remove1 el (valid_blk_list s))) = set ?E - {el_addr el}"
    using d x by (auto simp: distinct_map dest: inj_onD)
  moreover have "live (inval_result i el s) = live s - {el_addr el}" by (simp add: inval_result_def Let_def)
  ultimately show ?thesis unfolding foreign_def o using inE notA by auto
qed

lemma invalidate_outcome:
  assumes ok: "driver_ok s"
  obtains (fail) err where "invalidate_data br offset s = Inr (Inl err, s)"
    | (gone) i el where "i < length (md_objs s)" "list_lookup (valid_blk_list s) (word_of_nat i) = Some el"
      "invalidate_data br offset s = Inr (Inr (), inval_result i el s)"
proof (rule offset_cases [OF ok, of offset])
  assume "md_array_size s \<le> unat (scast offset :: u64)"
  then show thesis using ok by (intro fail [of E2BIG]) (simp add: invalidate_data_def driver_ok_def shape_ok_def)
next
  fix i assume i: "i < md_array_size s" "offset = word_of_nat i"
  then have len: "i < length (md_objs s)" using ok by (simp add: driver_ok_def shape_ok_def)
  show thesis
  proof (cases "messages s i")
    case None
    then show thesis using invalidate_data_absent [OF ok i(1) None, of br] i fail by simp
  next
    case (Some m)
    then obtain el where el: "list_lookup (valid_blk_list s) (word_of_nat i) = Some el"
      using messages_dom [of s i] ok by (auto simp: driver_ok_def)
    show thesis
      using invalidate_data_success [OF ok i(1) el, of br] invalidate_data_io_error [OF ok i(1) el, of br] i fail
        gone [OF len el] by (cases "br (i + NUM_METADATA_BLKS)") auto
  qed
qed

lemma do_call_foreign:
  assumes ok: "driver_ok s" "call_ok c s" and r: "do_call c s = Inr (r, s')"
  shows "foreign s' = foreign s"
proof (cases c)
  case (Put env source)
  then show ?thesis
    using ok(2) r
    by (cases rule: put_data_outcome [OF ok(1), of env source])
      (auto simp: put_ready_def intro!: put_result_foreign [OF ok(1)]
        dest: find_target_Some(1) [OF ok(1)] simp: ok(1) [unfolded driver_ok_def shape_ok_def])
next
  case (Get env offset sz)
  then show ?thesis using r get_sim [OF ok(1), of env offset sz] ok(2) by auto
next
  case (Invalidate br offset)
  then show ?thesis
    using r by (cases rule: invalidate_outcome [OF ok(1), of br offset]) (auto simp: inval_result_foreign [OF ok(1)])
qed

end
