(* ===== verification/Vfs.thy ===== *)
theory Vfs
  imports Device Kernel
begin

text \<open>
  The objects of the kernel's file-system layer that the driver fills in: inodes, the superblock
  and the entry of the dentry cache that a lookup is given (\<^verbatim>\<open>bldms.c\<close>, \<^verbatim>\<open>file_ops.c\<close>). An
  inode comes from \<open>iget_locked\<close>, a parameter of the operations: what the driver does not set keeps
  the value it came with. \<open>i_new\<close> is the state bit \<open>I_NEW\<close> of an inode that is still locked.
\<close>

unbundle bit_operations_syntax

section \<open>Inodes\<close>

datatype inode_operations = bldms_inode_ops

datatype file_operations = bldms_dir_operations | bldms_file_operations

record inode =
  i_ino :: nat
  i_mode :: u32
  i_nlink :: nat
  i_size :: u64
  i_op :: "inode_operations option"
  i_fop :: "file_operations option"
  i_times :: ktime
  i_new :: bool

definition S_IFDIR :: u32 where
  "S_IFDIR = 0x4000"

definition S_IFREG :: u32 where
  "S_IFREG = 0x8000"

text \<open>The permission bits, read, write and execute, of the user, the group and the others.\<close>

definition S_IRUSR :: u32 where "S_IRUSR = 0x100"

definition S_IWUSR :: u32 where "S_IWUSR = 0x80"

definition S_IXUSR :: u32 where "S_IXUSR = 0x40"

definition S_IRGRP :: u32 where "S_IRGRP = 0x20"

definition S_IWGRP :: u32 where "S_IWGRP = 0x10"

definition S_IXGRP :: u32 where "S_IXGRP = 0x8"

definition S_IROTH :: u32 where "S_IROTH = 0x4"

definition S_IWOTH :: u32 where "S_IWOTH = 0x2"

definition S_IXOTH :: u32 where "S_IXOTH = 0x1"

lemmas mode_bits = S_IFDIR_def S_IFREG_def S_IRUSR_def S_IWUSR_def S_IXUSR_def S_IRGRP_def S_IWGRP_def S_IXGRP_def
  S_IROTH_def S_IWOTH_def S_IXOTH_def

definition inode_init_owner :: "u32 \<Rightarrow> inode \<Rightarrow> inode" where
  "inode_init_owner m inode = inode\<lparr>i_mode := m\<rparr>"

definition unlock_new_inode :: "inode \<Rightarrow> inode" where
  "unlock_new_inode inode = inode\<lparr>i_new := False\<rparr>"

definition ROOT_INODE_NUMBER :: nat where
  "ROOT_INODE_NUMBER = 2"

text \<open>The root directory, as \<open>bldms_fs_fill_super\<close> sets it up at the time \<open>curr_time\<close>.\<close>

definition init_root_inode :: "ktime \<Rightarrow> inode \<Rightarrow> inode" where
  "init_root_inode curr_time inode =
     (inode_init_owner S_IFDIR (inode\<lparr>i_ino := ROOT_INODE_NUMBER\<rparr>))\<lparr>
       i_op := Some bldms_inode_ops, i_fop := Some bldms_dir_operations,
       i_mode := S_IFDIR OR S_IRUSR OR S_IRGRP OR S_IROTH OR S_IWUSR OR S_IWGRP OR S_IXUSR OR S_IXGRP OR S_IXOTH,
       i_times := curr_time\<rparr>"

text \<open>The file, as \<open>bldms_lookup\<close> sets it up before it knows the size.\<close>

definition init_file_inode :: "inode \<Rightarrow> inode" where
  "init_file_inode inode =
     (inode_init_owner S_IFDIR inode)\<lparr>
       i_mode := S_IFREG OR S_IRUSR OR S_IRGRP OR S_IROTH OR S_IWUSR OR S_IWGRP OR S_IWOTH,
       i_fop := Some bldms_file_operations, i_op := Some bldms_inode_ops, i_nlink := 1\<rparr>"

text \<open>The modes in octal digits: a directory with 0775 and a file with 0666.\<close>

lemma root_mode: "i_mode (init_root_inode t inode) = 0x4000 OR (7 * 64 + 7 * 8 + 5)"
  by (simp add: init_root_inode_def mode_bits)

lemma file_mode: "i_mode (init_file_inode inode) = 0x8000 OR (6 * 64 + 6 * 8 + 6)"
  by (simp add: init_file_inode_def mode_bits)

section \<open>Superblock and dentries\<close>

text \<open>\<open>s_root\<close> is the inode of the root's dentry.\<close>

record super_block =
  s_magic :: u64
  s_root :: inode

record dentry =
  d_name :: string
  d_inode :: "inode option"
  d_count :: nat

definition d_add :: "dentry \<Rightarrow> inode \<Rightarrow> dentry" where
  "d_add child inode = child\<lparr>d_inode := Some inode\<rparr>"

definition dget :: "dentry \<Rightarrow> dentry" where
  "dget child = child\<lparr>d_count := d_count child + 1\<rparr>"

end
