(* ===== verification/Mount.thy ===== *)
theory Mount
  imports Service Vfs
begin

text \<open>
  Mounting and unmounting (\<^verbatim>\<open>bldms.c\<close>). \<open>bldms_fs_fill_super\<close> reads the superblock, the inode
  and the metadata of every data block and builds the metadata array and the list of valid
  blocks; \<open>free_data_structures\<close> undoes it. The kernel's \<open>mount_bdev\<close> is a parameter of
  \<open>bldms_fs_mount\<close>: a function that is given the driver's callback.
\<close>

section \<open>Filling the superblock\<close>

record fill_env =
  sb_bread :: "nat \<Rightarrow> bool"
  iget_root :: "inode option"
  root_ok :: bool
  curr_time :: ktime
  arr_alloc :: "addr option"
  md_allocs :: "nat \<Rightarrow> addr option"
  el_allocs :: "nat \<Rightarrow> addr option"

text \<open>
  The label \<open>err_and_clean_rcu\<close>. Its loop over the list unlinks an element with \<open>list_del\<close>,
  which overwrites the element's link, frees it, and then follows that link: with an element
  in the list the clean-up ends in the poisoned pointer.
\<close>

definition err_and_clean_rcu :: "errno \<Rightarrow> bldms \<Rightarrow> fault + unit sysret \<times> bldms" where
  "err_and_clean_rcu ret s =
     (if valid_blk_list s \<noteq> [] then Inl ListPoison
      else case metadata_array s of
        None \<Rightarrow> Inl NullDeref
      | Some arr \<Rightarrow>
          andThen (kfree_all (rev (map md_addr (arr_elems arr)) @ [arr_addr arr]) s) (\<lambda>s.
          Inr (Inl ret, s)))"

definition push_md :: "md_obj \<Rightarrow> bldms \<Rightarrow> bldms" where
  "push_md obj s =
     s\<lparr>metadata_array := map_option (\<lambda>arr. arr\<lparr>arr_elems := arr_elems arr @ [obj]\<rparr>) (metadata_array s)\<rparr>"

definition zero_block :: bldms_block where
  "zero_block = \<lparr>nsec = Ktime 0, is_valid = 0, valid_bytes = 0\<rparr>"

fun fill_blocks :: "fill_env \<Rightarrow> nat list \<Rightarrow> bldms \<Rightarrow> fault + unit sysret \<times> bldms" where
  "fill_blocks env [] s = Inr (Inr (), s)"
| "fill_blocks env (i # is) s =
     (case md_allocs env i of
        None \<Rightarrow> err_and_clean_rcu ENOMEM s
      | Some m \<Rightarrow>
          if \<not> sb_bread env (i + NUM_METADATA_BLKS) then
            err_and_clean_rcu EIO (push_md \<lparr>md_addr = m, md_blk = zero_block\<rparr> (kzalloc m s))
          else
            let b = block_metadata (disk s (i + NUM_METADATA_BLKS));
                s = push_md \<lparr>md_addr = m, md_blk = b\<rparr> (kzalloc m s)
            in if is_valid b = BLK_VALID then
                 case el_allocs env i of
                   None \<Rightarrow> err_and_clean_rcu ENOMEM s
                 | Some e \<Rightarrow>
                     fill_blocks env is (add_valid_block_in_order_secure e (word_of_nat i)
                       (ucast (valid_bytes b)) (nsec b) (kzalloc e s))
               else fill_blocks env is s)"

text \<open>The metadata array and the list of a device of \<open>n\<close> blocks.\<close>

definition init_structures :: "fill_env \<Rightarrow> nat \<Rightarrow> bldms \<Rightarrow> fault + unit sysret \<times> bldms" where
  "init_structures env n s =
     (case arr_alloc env of
        None \<Rightarrow> Inr (Inl EINVAL, s\<lparr>metadata_array := None\<rparr>)
      | Some a \<Rightarrow>
          let s = rcu_init ((kzalloc a s)\<lparr>metadata_array := Some \<lparr>arr_addr = a, arr_elems = []\<rparr>\<rparr>)
          in andThen (fill_blocks env [0..<n] s) (\<lambda>(r, s).
             case r of
               Inl err \<Rightarrow> Inr (Inl err, s)
             | Inr _ \<Rightarrow>
                 Inr (Inr (), s\<lparr>
                   last_written_block :=
                     (if valid_blk_list s \<noteq> [] then ndx (last (valid_blk_list s))
                      else word_of_nat (md_array_size s) - 1),
                   bldms_mounted := True\<rparr>)))"

text \<open>The result is the superblock that the callback has filled in.\<close>

definition bldms_fs_fill_super :: "fill_env \<Rightarrow> bldms \<Rightarrow> fault + super_block sysret \<times> bldms" where
  "bldms_fs_fill_super env s =
     (if \<not> sb_bread env SB_BLOCK_NUMBER then Inl NullDeref
      else if magic (decode_sb (take 16 (disk s SB_BLOCK_NUMBER))) \<noteq> MAGIC then Inr (Inl EBADF, s)
      else case iget_root env of
        None \<Rightarrow> Inr (Inl ENOMEM, s)
      | Some inode \<Rightarrow>
          let root_inode = init_root_inode (curr_time env) inode in
          if \<not> root_ok env then Inr (Inl ENOMEM, s)
          else
            let sb = \<lparr>s_magic = MAGIC, s_root = unlock_new_inode root_inode\<rparr> in
            if \<not> sb_bread env BLDMS_SINGLEFILE_INODE_NUMBER then Inr (Inl EIO, s)
            else
              let the_file_inode = decode_inode (take inode_size (disk s BLDMS_SINGLEFILE_INODE_NUMBER)) in
              if unat (file_size the_file_inode) > NBLOCKS * DEFAULT_BLOCK_SIZE then Inr (Inl E2BIG, s)
              else
                let n = unat (file_size the_file_inode) div DEFAULT_BLOCK_SIZE
                in andThen (init_structures env n (s\<lparr>md_array_size := n\<rparr>)) (\<lambda>(r, s).
                   Inr (map_sum id (\<lambda>_. sb) r, s)))"

section \<open>Mounting and unmounting\<close>

text \<open>\<open>free_data_structures\<close> after the list has been emptied,\<close>

definition drop_structures :: "bldms \<Rightarrow> fault + bldms" where
  "drop_structures s =
     andThen (case metadata_array s of None \<Rightarrow> Inr s | Some arr \<Rightarrow> kfree (arr_addr arr) s) (\<lambda>s.
     Inr (spin_unlock (s\<lparr>metadata_array := None, md_array_size := 0,
       the_dev_superblock := False, bldms_mounted := False\<rparr>)))"

text \<open>and as a whole.\<close>

definition free_data_structures :: "bool \<Rightarrow> bldms \<Rightarrow> fault + bldms" where
  "free_data_structures stale s =
     andThen (spin_lock s) (\<lambda>s.
     andThen (remove_all_entries_secure stale s) drop_structures)"

definition bldms_fs_kill_sb :: "bool \<Rightarrow> bldms \<Rightarrow> fault + bldms" where
  "bldms_fs_kill_sb stale s = free_data_structures stale s"

text \<open>
  \<open>get_by_path\<close> and \<open>bd_super\<close>: whether \<open>blkdev_get_by_path\<close> returns the device, and whether
  the device has a superblock with its device set. The result is the root of the mounted tree.
\<close>

definition bldms_fs_mount ::
  "((bldms \<Rightarrow> fault + super_block sysret \<times> bldms) \<Rightarrow> bldms \<Rightarrow> fault + inode sysret \<times> bldms) \<Rightarrow>
   bool \<Rightarrow> bool \<Rightarrow> bool \<Rightarrow> fill_env \<Rightarrow> bldms \<Rightarrow> fault + inode sysret \<times> bldms" where
  "bldms_fs_mount mount_bdev get_by_path bd_super stale env s =
     (if bldms_mounted s then Inr (Inl EBUSY, s)
      else
        andThen (mount_bdev (bldms_fs_fill_super env) s) (\<lambda>(r, s).
        case r of
          Inl err \<Rightarrow> Inr (Inl err, s)
        | Inr root \<Rightarrow>
            if \<not> get_by_path then
              andThen (free_data_structures stale s) (\<lambda>s. Inr (Inl EINVAL, s))
            else if \<not> bd_super then
              andThen (free_data_structures stale s) (\<lambda>s. Inr (Inl EINVAL, s))
            else Inr (Inr root, s\<lparr>the_dev_superblock := True\<rparr>)))"

section \<open>What the device holds\<close>

text \<open>
  A device the formatter or the driver wrote: \<open>n\<close> data blocks, each of the block size, whose
  valid ones hold a message that fits.
\<close>

definition formatted :: "disk \<Rightarrow> nat \<Rightarrow> bool" where
  "formatted d n \<longleftrightarrow>
     magic (decode_sb (take 16 (d SB_BLOCK_NUMBER))) = MAGIC \<and>
     unat (file_size (decode_inode (take inode_size (d BLDMS_SINGLEFILE_INODE_NUMBER)))) div DEFAULT_BLOCK_SIZE = n \<and>
     unat (file_size (decode_inode (take inode_size (d BLDMS_SINGLEFILE_INODE_NUMBER)))) \<le> NBLOCKS * DEFAULT_BLOCK_SIZE \<and>
     (\<forall>i < n. block_ok (d (i + NUM_METADATA_BLKS)) (block_metadata (d (i + NUM_METADATA_BLKS))))"

definition device_messages :: "disk \<Rightarrow> nat \<Rightarrow> nat \<rightharpoonup> ktime \<times> bytes" where
  "device_messages d n i =
     (let blk = d (i + NUM_METADATA_BLKS) in
      if i < n \<and> is_valid (block_metadata blk) = BLK_VALID then Some (message_at blk (block_metadata blk)) else None)"

definition fill_addrs :: "fill_env \<Rightarrow> nat \<Rightarrow> addr list" where
  "fill_addrs env n = the (arr_alloc env) #
     map (\<lambda>i. the (md_allocs env i)) [0..<n] @ map (\<lambda>i. the (el_allocs env i)) [0..<n]"

text \<open>Every allocation and every read of the mount succeeds, and the allocations are new.\<close>

definition fill_env_ok :: "fill_env \<Rightarrow> nat \<Rightarrow> bldms \<Rightarrow> bool" where
  "fill_env_ok env n s \<longleftrightarrow>
     (\<forall>i < n + NUM_METADATA_BLKS. sb_bread env i) \<and> iget_root env \<noteq> None \<and> root_ok env \<and> arr_alloc env \<noteq> None \<and>
     (\<forall>i < n. md_allocs env i \<noteq> None \<and> el_allocs env i \<noteq> None) \<and>
     distinct (fill_addrs env n) \<and> set (fill_addrs env n) \<inter> live s = {}"

section \<open>One block of the loop\<close>

definition fill_block :: "fill_env \<Rightarrow> nat \<Rightarrow> bldms \<Rightarrow> bldms" where
  "fill_block env i s =
     (let b = block_metadata (disk s (i + NUM_METADATA_BLKS)); e = the (el_allocs env i);
          m = the (md_allocs env i); s = push_md \<lparr>md_addr = m, md_blk = b\<rparr> (kzalloc m s)
      in if is_valid b = BLK_VALID
         then add_valid_block_in_order_secure e (word_of_nat i) (ucast (valid_bytes b)) (nsec b) (kzalloc e s)
         else s)"

lemma fill_blocks_step:
  assumes "sb_bread env (i + NUM_METADATA_BLKS)" "md_allocs env i \<noteq> None" "el_allocs env i \<noteq> None"
  shows "fill_blocks env (i # is) s = fill_blocks env is (fill_block env i s)"
  using assms by (auto simp: fill_block_def Let_def)

definition filled :: "nat \<Rightarrow> bldms \<Rightarrow> bool" where
  "filled k s \<longleftrightarrow> metadata_array s \<noteq> None \<and> length (md_objs s) = k \<and> mem_ok s \<and> index_inv s \<and> disk_inv s"

lemma fill_block_frame:
  "disk (fill_block env i s) = disk s"
  "md_array_size (fill_block env i s) = md_array_size s"
  "rcu_write_lock (fill_block env i s) = rcu_write_lock s"
  "rcu_readers (fill_block env i s) = rcu_readers s"
  "the_dev_superblock (fill_block env i s) = the_dev_superblock s"
  by (simp_all add: fill_block_def Let_def push_md_def kzalloc_def add_valid_block_in_order_secure_def)

lemma fill_block_live:
  "live (fill_block env i s) \<subseteq> insert (the (el_allocs env i)) (insert (the (md_allocs env i)) (live s))"
  by (auto simp: fill_block_def Let_def push_md_def kzalloc_def add_valid_block_in_order_secure_def)

lemma fill_block_md:
  assumes "metadata_array s \<noteq> None"
  shows "md_objs (fill_block env i s) =
     md_objs s @ [\<lparr>md_addr = the (md_allocs env i), md_blk = block_metadata (disk s (i + NUM_METADATA_BLKS))\<rparr>]"
    and "metadata_array (fill_block env i s) \<noteq> None"
  using assms
  by (auto simp: fill_block_def Let_def push_md_def kzalloc_def add_valid_block_in_order_secure_def md_objs_def)

lemma fill_block_md_at:
  assumes "metadata_array s \<noteq> None" "j \<le> length (md_objs s)"
  shows "md_at (fill_block env i s) j =
     (if j = length (md_objs s) then block_metadata (disk s (i + NUM_METADATA_BLKS)) else md_at s j)"
  using assms by (simp add: md_at_def fill_block_md nth_append)

lemma fill_block_list:
  "valid_blk_list (fill_block env i s) =
     (let b = block_metadata (disk s (i + NUM_METADATA_BLKS)) in
      if is_valid b = BLK_VALID
      then insert_in_order (rcu_fill (the (el_allocs env i)) (word_of_nat i) (ucast (valid_bytes b)) (nsec b))
             (valid_blk_list s)
      else valid_blk_list s)"
  by (simp add: fill_block_def Let_def push_md_def kzalloc_def add_valid_block_in_order_secure_def)

lemma owned_extend:
  assumes "distinct (a # A @ E)" "set (a # A @ E) \<subseteq> L" "m \<notin> L" "e \<notin> L" "e \<noteq> m"
    and "distinct E'" "set E' \<subseteq> insert e (set E)"
  shows "distinct (a # (A @ [m]) @ E')"
  using assms by auto

lemma fill_block_mem:
  assumes ok: "mem_ok s" "metadata_array s \<noteq> None"
    and new: "the (md_allocs env i) \<notin> live s" "the (el_allocs env i) \<notin> live s"
      "the (el_allocs env i) \<noteq> the (md_allocs env i)"
  shows "mem_ok (fill_block env i s)"
proof -
  from ok(2) obtain arr where arr: "metadata_array s = Some arr" by auto
  let ?m = "the (md_allocs env i)" and ?e = "the (el_allocs env i)"
  let ?A = "map md_addr (arr_elems arr)" and ?E = "map el_addr (valid_blk_list s)"
  let ?E' = "map el_addr (valid_blk_list (fill_block env i s))"
  have d: "distinct (arr_addr arr # ?A @ ?E)" and sub: "set (arr_addr arr # ?A @ ?E) \<subseteq> live s"
    using ok(1) by (simp_all add: mem_ok_def owned_def arr)
  have E: "distinct ?E'" "set ?E' \<subseteq> insert ?e (set ?E)"
    using d sub new by (auto simp: fill_block_list Let_def)
  have "owned (fill_block env i s) = arr_addr arr # (?A @ [?m]) @ ?E'"
    by (simp add: owned_def fill_block_def Let_def push_md_def kzalloc_def add_valid_block_in_order_secure_def arr)
  moreover have "set (owned (fill_block env i s)) \<subseteq> live (fill_block env i s)"
    using sub
    by (auto simp: owned_def fill_block_def Let_def push_md_def kzalloc_def
        add_valid_block_in_order_secure_def arr)
  ultimately show ?thesis
    using owned_extend [OF d sub new E] by (simp add: mem_ok_def)
qed

lemma fill_block_index:
  assumes ix: "index_inv s" and arr: "metadata_array s \<noteq> None" and i: "i = length (md_objs s)" "i < NBLOCKS"
  shows "index_inv (fill_block env i s)"
proof -
  let ?l = "valid_blk_list s" and ?b = "block_metadata (disk s (i + NUM_METADATA_BLKS))"
  let ?el = "rcu_fill (the (el_allocs env i)) (word_of_nat i) (ucast (valid_bytes ?b)) (nsec ?b)"
  have ok: "index_ok ?l" and lt: "\<And>el. el \<in> set ?l \<Longrightarrow> unat (ndx el) < i"
    using ix i by (auto simp: index_inv_def)
  have ui: "unat (word_of_nat i :: u32) = i" using i by (simp add: layout_consts)
  have none: "list_lookup ?l (word_of_nat i) = None"
    using lt ui by (force simp: list_lookup_None)
  have inj: "(word_of_nat j :: u32) \<noteq> word_of_nat i" if "j < i" for j
    using that i(2) word_of_nat_small_inj [of j i] by (simp add: layout_consts)
  have old: "entry_ok (list_lookup ?l (word_of_nat j)) (md_at s j)" if "j < i" for j
    using ix that i by (simp add: index_inv_def)
  have "ucast (ucast (valid_bytes ?b) :: u32) = (ucast (valid_bytes ?b) :: u64)"
    by (rule unat_eqD) simp
  then have new: "is_valid ?b = BLK_VALID \<Longrightarrow> entry_ok (Some ?el) ?b"
    "is_valid ?b \<noteq> BLK_VALID \<Longrightarrow> entry_ok None ?b"
    using valid_flag_cases [of "is_valid ?b"] by (auto simp: entry_ok_def elem_matches_def)
  have free: "list_lookup ?l (ndx ?el) = None" using none by simp
  note ins = vl.invar_ins [OF ok free] vl.lookup_ins [OF ok free]
  have len: "length (md_objs (fill_block env i s)) = Suc i" using fill_block_md(1) [OF arr, of env i] i by simp
  show ?thesis
    unfolding index_inv_def len
    using ok ins new old none inj ui lt i
    by (auto simp: fill_block_list fill_block_md_at [OF arr] Let_def less_Suc_eq dest: lt)
qed

lemma fill_block_disk:
  assumes "disk_inv s" "metadata_array s \<noteq> None" "i = length (md_objs s)"
    and "block_ok (disk s (i + NUM_METADATA_BLKS)) (block_metadata (disk s (i + NUM_METADATA_BLKS)))"
  shows "disk_inv (fill_block env i s)"
  using assms fill_block_md(1) [OF assms(2), of env i]
  by (auto simp: disk_inv_def fill_block_frame fill_block_md_at less_Suc_eq)

section \<open>The whole loop\<close>

definition fill_all :: "fill_env \<Rightarrow> nat \<Rightarrow> bldms \<Rightarrow> bldms" where
  "fill_all env k s = fold (fill_block env) [0..<k] s"

lemma fill_all_Suc: "fill_all env (Suc k) s = fill_block env k (fill_all env k s)"
  by (simp add: fill_all_def)

lemma fill_blocks_fold:
  assumes "\<And>i. i \<in> set is \<Longrightarrow> sb_bread env (i + NUM_METADATA_BLKS) \<and> md_allocs env i \<noteq> None \<and> el_allocs env i \<noteq> None"
  shows "fill_blocks env is s = Inr (Inr (), fold (fill_block env) is s)"
  using assms
proof (induction "is" arbitrary: s)
  case (Cons i "is")
  then have "fill_blocks env (i # is) s = fill_blocks env is (fill_block env i s)"
    by (intro fill_blocks_step) simp_all
  with Cons show ?case by simp
qed simp

lemma fill_all_frame:
  "disk (fill_all env k s) = disk s" "md_array_size (fill_all env k s) = md_array_size s"
  "rcu_write_lock (fill_all env k s) = rcu_write_lock s" "rcu_readers (fill_all env k s) = rcu_readers s"
  "the_dev_superblock (fill_all env k s) = the_dev_superblock s"
  by (induction k) (simp_all add: fill_all_Suc fill_block_frame, simp_all add: fill_all_def)

lemma fill_all_live:
  "live (fill_all env k s) \<subseteq> live s \<union> (\<lambda>i. the (md_allocs env i)) ` {..<k} \<union> (\<lambda>i. the (el_allocs env i)) ` {..<k}"
proof (induction k)
  case (Suc k)
  then show ?case
    using fill_block_live [of env k "fill_all env k s"] by (auto simp: fill_all_Suc lessThan_Suc)
qed (simp add: fill_all_def)

text \<open>The addresses of block \<open>k\<close> are new after the blocks before it.\<close>

lemma fill_all_new:
  assumes d: "distinct (fill_addrs env n)" and new: "set (fill_addrs env n) \<inter> live s \<subseteq> {the (arr_alloc env)}"
    and k: "k < n"
  shows "the (md_allocs env k) \<notin> live (fill_all env k s)" "the (el_allocs env k) \<notin> live (fill_all env k s)"
    "the (el_allocs env k) \<noteq> the (md_allocs env k)"
proof -
  let ?m = "\<lambda>i. the (md_allocs env i)" and ?e = "\<lambda>i. the (el_allocs env i)"
  have m: "inj_on ?m {..<n}" and e: "inj_on ?e {..<n}" and me: "?m ` {..<n} \<inter> ?e ` {..<n} = {}"
    and a: "the (arr_alloc env) \<notin> ?m ` {..<n}" "the (arr_alloc env) \<notin> ?e ` {..<n}"
    using d by (simp_all add: fill_addrs_def distinct_map atLeast0LessThan)
  have mem: "?m k \<in> ?m ` {..<n}" "?e k \<in> ?e ` {..<n}" using k by simp_all
  have "set (fill_addrs env n) = insert (the (arr_alloc env)) (?m ` {..<n} \<union> ?e ` {..<n})"
    by (simp add: fill_addrs_def atLeast0LessThan)
  then have in_addrs: "?m k \<in> set (fill_addrs env n)" "?e k \<in> set (fill_addrs env n)" using mem by auto
  have "?m k \<noteq> the (arr_alloc env)" "?e k \<noteq> the (arr_alloc env)" using a mem by auto
  with new in_addrs have l: "?m k \<notin> live s" "?e k \<notin> live s" by auto
  have sub: "{..<k} \<subseteq> {..<n}" using k by auto
  have "?m k \<notin> ?m ` {..<k}" "?e k \<notin> ?e ` {..<k}"
    using inj_on_image_mem_iff [OF m _ sub] inj_on_image_mem_iff [OF e _ sub] k by simp_all
  moreover have "?m k \<notin> ?e ` {..<n}" "?e k \<notin> ?m ` {..<n}" using me mem by (auto simp only: disjoint_iff)
  then have "?m k \<notin> ?e ` {..<k}" "?e k \<notin> ?m ` {..<k}"
    using image_mono [OF sub, of ?e] image_mono [OF sub, of ?m] by auto
  ultimately show "?m k \<notin> live (fill_all env k s)" "?e k \<notin> live (fill_all env k s)"
    using l fill_all_live [of env k s] by auto
  show "?e k \<noteq> ?m k" using me k by (metis IntI empty_iff imageI lessThan_iff)
qed

lemma filled_step:
  assumes "filled k s" "k < NBLOCKS"
    and "the (md_allocs env k) \<notin> live s" "the (el_allocs env k) \<notin> live s" "the (el_allocs env k) \<noteq> the (md_allocs env k)"
    and "block_ok (disk s (k + NUM_METADATA_BLKS)) (block_metadata (disk s (k + NUM_METADATA_BLKS)))"
  shows "filled (Suc k) (fill_block env k s)"
  using assms fill_block_md [of s env k]
  by (simp add: filled_def fill_block_mem fill_block_index fill_block_disk)

lemma fill_all_filled:
  assumes s: "filled 0 s" and n: "n \<le> NBLOCKS"
    and d: "distinct (fill_addrs env n)" and new: "set (fill_addrs env n) \<inter> live s \<subseteq> {the (arr_alloc env)}"
    and blocks: "\<And>i. i < n \<Longrightarrow> block_ok (disk s (i + NUM_METADATA_BLKS)) (block_metadata (disk s (i + NUM_METADATA_BLKS)))"
  shows "k \<le> n \<Longrightarrow> filled k (fill_all env k s)"
proof (induction k)
  case (Suc k)
  then show ?case
    using n blocks fill_all_new [OF d new, of k] unfolding fill_all_Suc
    by (intro filled_step) (simp_all add: fill_all_frame)
qed (simp add: fill_all_def s)

section \<open>A successful mount\<close>

lemma last_written_in_range:
  assumes "index_inv s" "length (md_objs s) = n" "n \<le> NBLOCKS" "n > 0"
  shows "unat (if valid_blk_list s \<noteq> [] then ndx (last (valid_blk_list s)) else word_of_nat n - 1) < n"
proof (cases "valid_blk_list s = []")
  case True
  have "word_of_nat n - 1 = (word_of_nat (n - 1) :: u32)" using assms(4) by (simp add: of_nat_diff)
  moreover have "unat (word_of_nat (n - 1) :: u32) = n - 1" using assms(3) by (simp add: layout_consts)
  ultimately have "unat (word_of_nat n - 1 :: u32) = n - 1" by (simp only:)
  with True assms(4) show ?thesis by simp
next
  case False
  then have "last (valid_blk_list s) \<in> set (valid_blk_list s)" by simp
  with False assms show ?thesis by (auto simp: index_inv_def)
qed

lemma filled_transfer:
  assumes "filled n s" "metadata_array t = metadata_array s" "valid_blk_list t = valid_blk_list s"
    "live t = live s" "disk t = disk s"
  shows "filled n t"
proof -
  have "md_objs t = md_objs s" "md_at t = md_at s" "owned t = owned s"
    using assms by (simp_all add: md_objs_def md_at_def owned_def fun_eq_iff)
  moreover from this have "mem_ok t = mem_ok s" "index_inv t = index_inv s" "disk_inv t = disk_inv s"
    using assms by (simp_all add: mem_ok_def index_inv_def disk_inv_def)
  ultimately show ?thesis using assms by (simp add: filled_def)
qed

lemma filled_messages:
  assumes "filled n s"
  shows "messages s = device_messages (disk s) n"
proof
  fix i
  have "i < n \<Longrightarrow> md_at s i = block_metadata (disk s (i + NUM_METADATA_BLKS))"
    using assms by (simp add: filled_def disk_inv_def block_ok_def)
  then show "messages s i = device_messages (disk s) n i"
    using assms by (auto simp: messages_def device_messages_def filled_def Let_def)
qed

text \<open>The state in which the loop starts, and the blocks it has read after \<open>k\<close> rounds.\<close>

definition fill_start :: "addr \<Rightarrow> nat \<Rightarrow> bldms \<Rightarrow> bldms" where
  "fill_start a n s = rcu_init ((kzalloc a (s\<lparr>md_array_size := n\<rparr>))\<lparr>metadata_array := Some \<lparr>arr_addr = a, arr_elems = []\<rparr>\<rparr>)"

lemma fill_start_frame [simp]:
  "disk (fill_start a n s) = disk s" "md_array_size (fill_start a n s) = n"
  "\<not> rcu_write_lock (fill_start a n s)" "rcu_readers (fill_start a n s) = rcu_readers s"
  "valid_blk_list (fill_start a n s) = valid_blk_list s" "live (fill_start a n s) = insert a (live s)"
  by (simp_all add: fill_start_def rcu_init_def kzalloc_def)

lemma fill_prefix:
  assumes fmt: "formatted (disk s) n" and a: "arr_alloc env = Some a" and empty: "valid_blk_list s = []"
    and new: "distinct (fill_addrs env n)" "set (fill_addrs env n) \<inter> live s = {}" and k: "k \<le> n"
  shows "filled k (fill_all env k (fill_start a n s))" "n \<le> NBLOCKS"
    "k < n \<Longrightarrow> the (md_allocs env k) \<notin> live (fill_all env k (fill_start a n s))"
proof -
  show n: "n \<le> NBLOCKS" using fmt by (auto simp: formatted_def layout_consts)
  have "filled 0 (fill_start a n s)"
    by (simp add: filled_def mem_ok_def owned_def index_inv_def disk_inv_def md_objs_def empty index_ok_def)
      (simp add: fill_start_def rcu_init_def)
  moreover have sub: "set (fill_addrs env n) \<inter> live (fill_start a n s) \<subseteq> {the (arr_alloc env)}"
    using new a by auto
  ultimately show "filled k (fill_all env k (fill_start a n s))"
    using n fmt new k by (intro fill_all_filled [of _ n]) (simp_all add: formatted_def)
  show "the (md_allocs env k) \<notin> live (fill_all env k (fill_start a n s))" if "k < n"
    using fill_all_new(1) [OF new(1) sub that] .
qed

text \<open>The superblock of a successful mount.\<close>

definition filled_sb :: "fill_env \<Rightarrow> super_block" where
  "filled_sb env = \<lparr>s_magic = MAGIC, s_root = unlock_new_inode (init_root_inode (curr_time env) (the (iget_root env)))\<rparr>"

lemma filled_sb_root:
  "s_magic (filled_sb env) = MAGIC" "\<not> i_new (s_root (filled_sb env))" "i_mode (s_root (filled_sb env)) = 0x41FD"
  "i_ino (s_root (filled_sb env)) = ROOT_INODE_NUMBER" "i_op (s_root (filled_sb env)) = Some bldms_inode_ops"
  "i_fop (s_root (filled_sb env)) = Some bldms_dir_operations"
  by (simp_all add: filled_sb_def unlock_new_inode_def root_mode)
    (simp_all add: init_root_inode_def inode_init_owner_def)

lemma fill_super_success:
  assumes fmt: "formatted (disk s) n" and env: "fill_env_ok env n s"
    and empty: "valid_blk_list s = []"
  shows "\<exists>s'. bldms_fs_fill_super env s = Inr (Inr (filled_sb env), s') \<and> filled n s' \<and> bldms_mounted s' \<and>
     md_array_size s' = n \<and> n \<le> NBLOCKS \<and> (n > 0 \<longrightarrow> unat (last_written_block s') < n) \<and>
     \<not> rcu_write_lock s' \<and> rcu_readers s' = rcu_readers s \<and> disk s' = disk s \<and>
     (finite (live s) \<longrightarrow> finite (live s'))"
proof -
  obtain a where a: "arr_alloc env = Some a" using env by (auto simp: fill_env_ok_def)
  let ?s = "fill_start a n s"
  let ?t = "fill_all env n ?s"
  have f: "filled n ?t" and n: "n \<le> NBLOCKS"
    using fill_prefix [OF fmt a empty, of n] env by (auto simp: fill_env_ok_def)
  have loop: "fill_blocks env [0..<n] ?s = Inr (Inr (), ?t)"
    unfolding fill_all_def using env by (intro fill_blocks_fold) (simp add: fill_env_ok_def)
  have fr: "disk ?t = disk s" "md_array_size ?t = n" "\<not> rcu_write_lock ?t" "rcu_readers ?t = rcu_readers s"
    by (simp_all add: fill_all_frame)
  let ?r = "?t\<lparr>last_written_block := (if valid_blk_list ?t \<noteq> [] then ndx (last (valid_blk_list ?t))
      else word_of_nat n - 1), bldms_mounted := True\<rparr>"
  have "sb_bread env SB_BLOCK_NUMBER" "sb_bread env BLDMS_SINGLEFILE_INODE_NUMBER" "root_ok env"
    and "\<exists>inode. iget_root env = Some inode"
    using env by (simp_all add: fill_env_ok_def SB_BLOCK_NUMBER_def BLDMS_SINGLEFILE_INODE_NUMBER_def layout_consts)
  then have "bldms_fs_fill_super env s = Inr (Inr (filled_sb env), ?r)"
    using fmt loop fr
    by (auto simp: bldms_fs_fill_super_def init_structures_def filled_sb_def formatted_def a Let_def fill_start_def)
  moreover have "filled n ?r" using f by (rule filled_transfer) simp_all
  moreover have "n > 0 \<longrightarrow> unat (last_written_block ?r) < n"
    using last_written_in_range [of ?t n] f n by (simp add: filled_def)
  moreover have "finite (live s) \<longrightarrow> finite (live ?r)"
    using fill_all_live [of env n ?s] by (auto intro: finite_subset)
  ultimately show ?thesis using fr n by (intro exI [of _ ?r]) simp
qed

text \<open>
  What the driver relies on of \<open>mount_bdev\<close>: on a device that is not in use it calls the
  callback, and it returns the root that a successful callback has set up.
\<close>

definition mount_bdev_ok ::
  "((bldms \<Rightarrow> fault + super_block sysret \<times> bldms) \<Rightarrow> bldms \<Rightarrow> fault + inode sysret \<times> bldms) \<Rightarrow> bool" where
  "mount_bdev_ok mb \<longleftrightarrow> (\<forall>fill s sb s'. fill s = Inr (Inr sb, s') \<longrightarrow> mb fill s = Inr (Inr (s_root sb), s'))"

lemma driver_ok_filled:
  "driver_ok s \<longleftrightarrow> filled (md_array_size s) s \<and> shape_ok s"
  by (auto simp: driver_ok_def filled_def shape_ok_def)

lemma mount_success:
  assumes mb: "mount_bdev_ok mb" and s: "\<not> bldms_mounted s" "rcu_readers s = 0" "valid_blk_list s = []"
    and fmt: "formatted (disk s) n" and env: "fill_env_ok env n s"
  shows "\<exists>s'. bldms_fs_mount mb True True stale env s = Inr (Inr (s_root (filled_sb env)), s') \<and> driver_ok s' \<and>
     store_of s' = \<lparr>capacity = n, cursor = unat (last_written_block s'), content = device_messages (disk s) n\<rparr> \<and>
     disk s' = disk s \<and> (finite (live s) \<longrightarrow> finite (live s'))"
proof -
  obtain s' where f: "bldms_fs_fill_super env s = Inr (Inr (filled_sb env), s')" "filled n s'" "bldms_mounted s'"
    "md_array_size s' = n" "n \<le> NBLOCKS" "n > 0 \<longrightarrow> unat (last_written_block s') < n"
    "\<not> rcu_write_lock s'" "rcu_readers s' = 0" "disk s' = disk s" "finite (live s) \<longrightarrow> finite (live s')"
    using fill_super_success [OF fmt env s(3)] unfolding s(2) by (elim exE conjE) (rule that)
  let ?r = "s'\<lparr>the_dev_superblock := True\<rparr>"
  have "mb (bldms_fs_fill_super env) s = Inr (Inr (s_root (filled_sb env)), s')"
    using mb f(1) unfolding mount_bdev_ok_def by blast
  then have "bldms_fs_mount mb True True stale env s = Inr (Inr (s_root (filled_sb env)), ?r)"
    using s by (simp add: bldms_fs_mount_def)
  moreover have fr: "filled n ?r" using f(2) by (rule filled_transfer) simp_all
  then have "driver_ok ?r" using f by (auto simp: driver_ok_filled shape_ok_def filled_def)
  moreover have "messages ?r = device_messages (disk s) n"
    using filled_messages [OF fr] f(9) by simp
  ultimately show ?thesis using f by (intro exI [of _ ?r]) (simp add: store_of_def)
qed

section \<open>Unmounting\<close>

definition unmounted :: "bldms \<Rightarrow> bldms" where
  "unmounted s = s\<lparr>
     live := live s - insert (arr_addr (the (metadata_array s))) (el_addr ` set (valid_blk_list s)),
     slept_locked := (slept_locked s \<or> valid_blk_list s \<noteq> []), valid_blk_list := [],
     metadata_array := None, md_array_size := 0, the_dev_superblock := False, bldms_mounted := False\<rparr>"

lemma unmount_success:
  assumes ok: "driver_ok s"
  shows "bldms_fs_kill_sb True s = Inr (unmounted s)"
proof -
  obtain arr where arr: "metadata_array s = Some arr" using ok by (auto simp: driver_ok_def shape_ok_def)
  have ul: "\<not> rcu_write_lock s" "rcu_readers s = 0" using ok by (simp_all add: driver_ok_def shape_ok_def)
  let ?l = "valid_blk_list s"
  have d: "distinct (map el_addr ?l)" "el_addr ` set ?l \<subseteq> live s" and
    a: "arr_addr arr \<in> live s" "arr_addr arr \<notin> el_addr ` set ?l"
    using ok by (auto simp: driver_ok_def mem_ok_def owned_def arr)
  let ?E = "el_addr ` set ?l" and ?t = "s\<lparr>rcu_write_lock := True\<rparr>"
  have loop: "remove_all_loop True ?l ?t = Inr (?t\<lparr>live := live s - ?E,
      slept_locked := (slept_locked s \<or> ?l \<noteq> []), valid_blk_list := []\<rparr>)"
    using remove_all_loop_stale [of ?l ?t] d ul by simp
  have "live s - ?E - {arr_addr arr} = live s - insert (arr_addr arr) ?E" by (rule Diff_insert [symmetric])
  then show ?thesis
    unfolding bldms_fs_kill_sb_def free_data_structures_def drop_structures_def remove_all_entries_secure_def
    using a ul by (simp add: loop arr spin_unlock_def unmounted_def)
qed

lemma unmount_use_after_free:
  assumes ok: "driver_ok s" and ne: "valid_blk_list s = el # rest"
  shows "bldms_fs_kill_sb False s = Inl (UseAfterFree (el_addr el))"
proof -
  have "el_addr el \<in> live s" using ok ne by (auto simp: driver_ok_def mem_ok_def owned_def split: option.splits)
  then show ?thesis
    using ok
    by (simp add: bldms_fs_kill_sb_def free_data_structures_def remove_all_entries_secure_def ne
        driver_ok_def shape_ok_def)
qed

text \<open>The metadata objects stay allocated with no pointer left to them.\<close>

lemma unmount_leak:
  assumes ok: "driver_ok s"
  shows "set (map md_addr (md_objs s)) \<subseteq> live (unmounted s)" "owned (unmounted s) = []"
proof -
  obtain arr where arr: "metadata_array s = Some arr" using ok by (auto simp: driver_ok_def shape_ok_def)
  then show "set (map md_addr (md_objs s)) \<subseteq> live (unmounted s)"
    using ok by (force simp: unmounted_def driver_ok_def mem_ok_def owned_def md_objs_def)
  show "owned (unmounted s) = []" by (simp add: unmounted_def owned_def)
qed

section \<open>What the device says after any calls\<close>

text \<open>The superblock and the inode block, which no call writes.\<close>

definition header_ok :: "disk \<Rightarrow> nat \<Rightarrow> bool" where
  "header_ok d n \<longleftrightarrow>
     magic (decode_sb (take 16 (d SB_BLOCK_NUMBER))) = MAGIC \<and>
     unat (file_size (decode_inode (take inode_size (d BLDMS_SINGLEFILE_INODE_NUMBER)))) div DEFAULT_BLOCK_SIZE = n \<and>
     unat (file_size (decode_inode (take inode_size (d BLDMS_SINGLEFILE_INODE_NUMBER)))) \<le> NBLOCKS * DEFAULT_BLOCK_SIZE"

lemma header_ok_cong: "d' 0 = d 0 \<Longrightarrow> d' 1 = d 1 \<Longrightarrow> header_ok d' n = header_ok d n"
  by (simp add: header_ok_def SB_BLOCK_NUMBER_def BLDMS_SINGLEFILE_INODE_NUMBER_def)

lemma formatted_header: "formatted d n \<Longrightarrow> header_ok d n"
  by (simp add: formatted_def header_ok_def)

lemma driver_formatted:
  assumes "driver_ok s" "header_ok (disk s) (md_array_size s)"
  shows "formatted (disk s) (md_array_size s)"
  using assms by (auto simp: formatted_def header_ok_def driver_ok_def disk_inv_def shape_ok_def block_ok_def)

lemma driver_device_messages:
  "driver_ok s \<Longrightarrow> messages s = device_messages (disk s) (md_array_size s)"
  using filled_messages by (simp add: driver_ok_filled)

lemma kfree_all_frame: "kfree_all as s = Inr s' \<Longrightarrow> \<exists>L. s' = s\<lparr>live := L\<rparr>"
proof (induction as arbitrary: s)
  case Nil
  then have "s' = s\<lparr>live := live s\<rparr>" by simp
  then show ?case ..
next
  case (Cons a as)
  then show ?case by (fastforce simp: andThen_eq_Inr kfree_def split: if_splits)
qed

lemma put_data_critical_header:
  assumes "put_data_critical br b e new buffer s = Inr (r, s')"
  shows "disk s' 0 = disk s 0 \<and> disk s' 1 = disk s 1 \<and> md_array_size s' = md_array_size s"
proof -
  note defs = put_data_critical_def spin_unlock_def add_valid_block_in_order_secure_def Let_def
  obtain target where t: "find_target s = Inr target"
    using assms by (cases "find_target s") (simp_all add: defs)
  show ?thesis
  proof (cases target)
    case None
    then show ?thesis
      using assms t by (auto simp: defs andThen_eq_Inr simp del: kfree_all.simps dest!: kfree_all_frame)
  next
    case (Some i)
    then obtain arr where "metadata_array s = Some arr"
      using assms t by (cases "metadata_array s") (simp_all add: defs)
    with assms t Some show ?thesis
      by (cases "br (i + NUM_METADATA_BLKS)")
        (auto simp: defs andThen_eq_Inr NUM_METADATA_BLKS_def simp del: kfree_all.simps dest!: kfree_all_frame)
  qed
qed

lemma put_data_header:
  assumes "put_data env source s = Inr (r, s')"
  shows "disk s' 0 = disk s 0 \<and> disk s' 1 = disk s 1 \<and> md_array_size s' = md_array_size s"
  using assms
  by (auto simp: put_data_def andThen_eq_Inr kzalloc_def kfree_def Let_def spin_lock_def
      dest!: put_data_critical_header split: option.splits if_splits)

lemma inval_result_header:
  "disk (inval_result i el s) 0 = disk s 0 \<and> disk (inval_result i el s) 1 = disk s 1 \<and>
   md_array_size (inval_result i el s) = md_array_size s"
  by (simp add: inval_result_def Let_def NUM_METADATA_BLKS_def)

lemma invalidate_data_header:
  assumes ok: "driver_ok s" and r: "invalidate_data br offset s = Inr (r, s')"
  shows "disk s' 0 = disk s 0 \<and> disk s' 1 = disk s 1 \<and> md_array_size s' = md_array_size s"
proof (rule offset_cases [OF ok, of offset])
  assume "md_array_size s \<le> unat (scast offset :: u64)"
  then show ?thesis using r ok by (auto simp: invalidate_data_def driver_ok_def shape_ok_def)
next
  fix i assume i: "i < md_array_size s" "offset = word_of_nat i"
  show ?thesis
  proof (cases "messages s i")
    case None
    then show ?thesis using invalidate_data_absent [OF ok i(1) None, of br] r i by simp
  next
    case (Some m)
    then obtain el where el: "list_lookup (valid_blk_list s) (word_of_nat i) = Some el"
      using messages_dom [of s i] ok by (auto simp: driver_ok_def)
    show ?thesis
      using invalidate_data_success [OF ok i(1) el, of br] invalidate_data_io_error [OF ok i(1) el, of br]
        inval_result_header r i by (cases "br (i + NUM_METADATA_BLKS)") auto
  qed
qed

lemma do_call_header:
  assumes ok: "driver_ok s" "call_ok c s" and r: "do_call c s = Inr (r, s')"
  shows "disk s' 0 = disk s 0 \<and> disk s' 1 = disk s 1 \<and> md_array_size s' = md_array_size s"
proof (cases c)
  case (Put env source)
  then show ?thesis using r put_data_header by (auto simp: andThen_eq_Inr)
next
  case (Get env offset sz)
  then show ?thesis using r get_sim [OF ok(1), of env offset sz] ok(2) by auto
next
  case (Invalidate br offset)
  then show ?thesis using r invalidate_data_header [OF ok(1)] by (auto simp: andThen_eq_Inr)
qed

text \<open>
  The service refinement again, for an invariant that also keeps the header: a state in the
  middle of any sequence of calls can be unmounted and mounted.
\<close>

definition mountable :: "bldms \<Rightarrow> bool" where
  "mountable s \<longleftrightarrow> driver_ok s \<and> header_ok (disk s) (md_array_size s)"

interpretation durable: simulation do_call spec_call store_of mountable call_ok
proof unfold_locales
  fix s c
  assume inv: "mountable s" and ok: "call_ok c s"
  then obtain r s' where s': "do_call c s = Inr (r, s')" "driver_ok s'" "spec_call c (store_of s) = (r, store_of s')"
    using service.sim [of s c] by (auto simp: mountable_def)
  moreover have "mountable s'"
    using inv s' do_call_header [OF _ ok s'(1)] header_ok_cong [of "disk s'" "disk s"] by (simp add: mountable_def)
  ultimately show "\<exists>r s'. do_call c s = Inr (r, s') \<and> mountable s' \<and> spec_call c (store_of s) = (r, store_of s')"
    by blast
qed

section \<open>A device block that cannot be read\<close>

lemma fill_blocks_append:
  assumes "\<And>i. i \<in> set is \<Longrightarrow> sb_bread env (i + NUM_METADATA_BLKS) \<and> md_allocs env i \<noteq> None \<and> el_allocs env i \<noteq> None"
  shows "fill_blocks env (is @ js) s = fill_blocks env js (fold (fill_block env) is s)"
  using assms
proof (induction "is" arbitrary: s)
  case (Cons i "is")
  then have "fill_blocks env (i # (is @ js)) s = fill_blocks env (is @ js) (fill_block env i s)"
    by (intro fill_blocks_step) simp_all
  with Cons show ?case by simp
qed simp

lemma fill_all_empty:
  "valid_blk_list s = [] \<Longrightarrow>
     valid_blk_list (fill_all env k s) = [] \<longleftrightarrow>
       (\<forall>i < k. is_valid (block_metadata (disk s (i + NUM_METADATA_BLKS))) \<noteq> BLK_VALID)"
proof (induction k)
  case (Suc k)
  have "insert_in_order x xs \<noteq> []" for x xs
    by (metis set_insert_in_order insert_not_empty set_empty)
  with Suc show ?case
    unfolding fill_all_Suc fill_block_list fill_all_frame Let_def less_Suc_eq by auto
qed (simp add: fill_all_def)

lemma err_and_clean_dangling:
  assumes "mem_ok s" "metadata_array s = Some arr" "valid_blk_list s = []"
  shows "\<exists>s'. err_and_clean_rcu ret s = Inr (Inl ret, s') \<and> metadata_array s' = Some arr \<and>
     arr_addr arr \<notin> live s' \<and> valid_blk_list s' = [] \<and> rcu_write_lock s' = rcu_write_lock s \<and>
     rcu_readers s' = rcu_readers s \<and> bldms_mounted s' = bldms_mounted s"
proof -
  let ?as = "rev (map md_addr (arr_elems arr)) @ [arr_addr arr]"
  have "kfree_all ?as s = Inr (s\<lparr>live := live s - set ?as\<rparr>)"
    using assms by (intro kfree_all_live) (auto simp: mem_ok_def owned_def)
  with assms show ?thesis by (simp add: err_and_clean_rcu_def)
qed

lemma fill_block_unread:
  assumes "filled k s" "the (md_allocs env k) \<notin> live s" "md_allocs env k \<noteq> None"
    and "\<not> sb_bread env (k + NUM_METADATA_BLKS)" "metadata_array s = Some arr"
  shows "fill_blocks env (k # is) s =
     err_and_clean_rcu EIO (push_md \<lparr>md_addr = the (md_allocs env k), md_blk = zero_block\<rparr>
       (kzalloc (the (md_allocs env k)) s))"
    and "mem_ok (push_md \<lparr>md_addr = the (md_allocs env k), md_blk = zero_block\<rparr>
       (kzalloc (the (md_allocs env k)) s))"
  using assms
  by (auto simp: filled_def mem_ok_def owned_def push_md_def kzalloc_def)

lemma kill_sb_double_free:
  assumes "metadata_array s = Some arr" "arr_addr arr \<notin> live s" "valid_blk_list s = []" "\<not> rcu_write_lock s"
  shows "bldms_fs_kill_sb stale s = Inl (DoubleFree (arr_addr arr))"
  using assms
  by (simp add: bldms_fs_kill_sb_def free_data_structures_def drop_structures_def remove_all_entries_secure_def)

text \<open>The environment of a mount in which only block \<open>k\<close> of the device cannot be read.\<close>

definition fill_env_bad :: "fill_env \<Rightarrow> nat \<Rightarrow> nat \<Rightarrow> bldms \<Rightarrow> bool" where
  "fill_env_bad env k n s \<longleftrightarrow> k < n \<and> \<not> sb_bread env (k + NUM_METADATA_BLKS) \<and>
     fill_env_ok (env\<lparr>sb_bread := (sb_bread env)(k + NUM_METADATA_BLKS := True)\<rparr>) n s"

lemma fill_super_unread:
  assumes fmt: "formatted (disk s) n" and env: "fill_env_bad env k n s" and empty: "valid_blk_list s = []"
  shows "if \<exists>i < k. is_valid (block_metadata (disk s (i + NUM_METADATA_BLKS))) = BLK_VALID
     then bldms_fs_fill_super env s = Inl ListPoison
     else \<exists>s' arr. bldms_fs_fill_super env s = Inr (Inl EIO, s') \<and>
       bldms_fs_kill_sb stale s' = Inl (DoubleFree arr)"
proof -
  let ?env = "env\<lparr>sb_bread := (sb_bread env)(k + NUM_METADATA_BLKS := True)\<rparr>"
  have ok: "fill_env_ok ?env n s" and k: "k < n" "\<not> sb_bread env (k + NUM_METADATA_BLKS)"
    using env by (simp_all add: fill_env_bad_def)
  obtain a where a: "arr_alloc env = Some a" using ok by (auto simp: fill_env_ok_def)
  let ?s = "fill_start a n s"
  let ?t = "fill_all env k ?s"
  have d: "distinct (fill_addrs env n)" "set (fill_addrs env n) \<inter> live s = {}"
    using ok by (simp_all add: fill_env_ok_def fill_addrs_def)
  note pre = fill_prefix [OF fmt a empty d less_imp_le_nat [OF k(1)]]
  obtain arr where arr: "metadata_array ?t = Some arr" using pre(1) by (auto simp: filled_def)
  let ?u = "push_md \<lparr>md_addr = the (md_allocs env k), md_blk = zero_block\<rparr> (kzalloc (the (md_allocs env k)) ?t)"
  have m: "md_allocs env k \<noteq> None" using ok k by (simp add: fill_env_ok_def)
  note un = fill_block_unread [OF pre(1) pre(3) [OF k(1)] m k(2) arr]
  have "[0..<n] = [0..<k] @ k # [Suc k..<n]"
    using k by (metis less_imp_le_nat upt_add_eq_append upt_conv_Cons le0 le_add_diff_inverse)
  moreover have "fill_blocks env ([0..<k] @ k # [Suc k..<n]) ?s = fill_blocks env (k # [Suc k..<n]) ?t"
    unfolding fill_all_def using ok k by (intro fill_blocks_append) (force simp: fill_env_ok_def)
  ultimately have loop: "fill_blocks env [0..<n] ?s = err_and_clean_rcu EIO ?u" using un(1) by simp
  have "\<forall>i < n + NUM_METADATA_BLKS. i = k + NUM_METADATA_BLKS \<or> sb_bread env i"
    "\<exists>inode. iget_root env = Some inode" "root_ok env"
    using ok by (auto simp: fill_env_ok_def)
  then have "sb_bread env SB_BLOCK_NUMBER" "sb_bread env BLDMS_SINGLEFILE_INODE_NUMBER" "root_ok env"
    "\<exists>inode. iget_root env = Some inode"
    by (auto simp: SB_BLOCK_NUMBER_def BLDMS_SINGLEFILE_INODE_NUMBER_def layout_consts
        dest: spec [of _ 0] spec [of _ "Suc 0"])
  then have fill: "err_and_clean_rcu EIO ?u = Inl x \<Longrightarrow> bldms_fs_fill_super env s = Inl x"
    "err_and_clean_rcu EIO ?u = Inr (Inl y, s') \<Longrightarrow> bldms_fs_fill_super env s = Inr (Inl y, s')" for x y s'
    using fmt loop by (auto simp: bldms_fs_fill_super_def init_structures_def formatted_def a Let_def fill_start_def)
  have u: "valid_blk_list ?u = valid_blk_list ?t" "\<not> rcu_write_lock ?u"
    by (simp_all add: push_md_def kzalloc_def fill_all_frame)
  have e: "valid_blk_list ?t = [] \<longleftrightarrow>
      (\<forall>i < k. is_valid (block_metadata (disk s (i + NUM_METADATA_BLKS))) \<noteq> BLK_VALID)"
    using fill_all_empty [of ?s env k] empty by simp
  show ?thesis
  proof (cases "valid_blk_list ?t = []")
    case True
    obtain arr' where "metadata_array ?u = Some arr'" by (simp add: push_md_def kzalloc_def arr)
    then show ?thesis
      using err_and_clean_dangling [OF un(2), of arr' EIO] True e u fill(2) kill_sb_double_free [of _ arr' stale]
      by fastforce
  next
    case False
    then show ?thesis using fill(1) e u by (auto simp: err_and_clean_rcu_def)
  qed
qed

section \<open>Devices that are refused\<close>

lemma fill_super_refused:
  assumes "sb_bread env SB_BLOCK_NUMBER" "magic (decode_sb (take 16 (disk s SB_BLOCK_NUMBER))) \<noteq> MAGIC \<or>
      iget_root env \<noteq> None \<and> root_ok env \<and> sb_bread env BLDMS_SINGLEFILE_INODE_NUMBER \<and>
      unat (file_size (decode_inode (take inode_size (disk s BLDMS_SINGLEFILE_INODE_NUMBER)))) > NBLOCKS * DEFAULT_BLOCK_SIZE"
  shows "bldms_fs_fill_super env s =
     Inr (Inl (if magic (decode_sb (take 16 (disk s SB_BLOCK_NUMBER))) \<noteq> MAGIC then EBADF else E2BIG), s)"
  using assms by (auto simp: bldms_fs_fill_super_def Let_def)

end
