(* ===== verification/File_Ops.thy ===== *)
theory File_Ops
  imports Mount "HOL-Library.Signed_Division"
begin

text \<open>
  The operations of the single file (\<^verbatim>\<open>file_ops.c\<close>) and of the root directory
  (\<^verbatim>\<open>dir_ops.c\<close>). An open file is a session: its access mode, its position and its
  \<open>private_data\<close>, a pointer to the timestamp of the message to deliver next. The arithmetic of
  \<open>bldms_read\<close> is that of the C types: \<open>*off\<close> and \<open>offset\<close> are 64-bit values that are signed in
  \<open>%\<close> and \<open>/\<close> and unsigned next to a \<open>size_t\<close>, block numbers are 32-bit values.
\<close>

section \<open>Sessions\<close>

datatype accmode = O_RDONLY | O_WRONLY | O_RDWR

record session =
  f_mode :: accmode
  f_pos :: u64
  private_data :: "(addr \<times> ktime) option"

definition readable :: "session \<Rightarrow> bool" where
  "readable f \<longleftrightarrow> f_mode f = O_RDONLY \<or> f_mode f = O_RDWR"

definition free_private :: "session \<Rightarrow> bldms \<Rightarrow> fault + bldms" where
  "free_private f s = (case private_data f of None \<Rightarrow> Inr s | Some (a, t) \<Rightarrow> kfree a s)"

text \<open>\<open>refs\<close> is the module's usage count, which \<open>try_module_get\<close> and \<open>module_put\<close> move.\<close>

definition bldms_open :: "addr option \<Rightarrow> session \<Rightarrow> int \<Rightarrow> bldms \<Rightarrow> unit sysret \<times> session \<times> int \<times> bldms" where
  "bldms_open alloc f refs s =
     (if \<not> bldms_mounted s then (Inl ENODEV, f, refs, s)
      else
        let refs = refs + 1 in
        if readable f then
          case alloc of
            None \<Rightarrow> (Inl ENOMEM, f, refs, s)
          | Some a \<Rightarrow> (Inr (), f\<lparr>private_data := Some (a, Ktime 0)\<rparr>, refs, kzalloc a s)
        else (Inr (), f, refs, s))"

definition bldms_release :: "session \<Rightarrow> int \<Rightarrow> bldms \<Rightarrow> fault + unit sysret \<times> int \<times> bldms" where
  "bldms_release f refs s =
     (if \<not> bldms_mounted s then Inr (Inl ENODEV, refs, s)
      else
        andThen (if readable f then free_private f s else Inr s) (\<lambda>s.
        Inr (Inr (), refs - 1, s)))"

datatype whence = SEEK_SET | SEEK_OTHER

definition bldms_llseek ::
  "addr option \<Rightarrow> u64 \<Rightarrow> whence \<Rightarrow> session \<Rightarrow> bldms \<Rightarrow> fault + u64 sysret \<times> session \<times> bldms" where
  "bldms_llseek alloc off wh f s =
     (if \<not> bldms_mounted s then Inr (Inl ENODEV, f, s)
      else if wh = SEEK_SET \<and> off = 0 \<and> private_data f \<noteq> None then
        case alloc of
          None \<Rightarrow> Inr (Inl ENOMEM, f, s)
        | Some a \<Rightarrow>
            andThen (free_private f (kzalloc a s)) (\<lambda>s.
            Inr (Inr 0, f\<lparr>private_data := Some (a, Ktime 0), f_pos := 0\<rparr>, s))
      else Inr (Inl EINVAL, f, s))"

section \<open>read\<close>

record read_env =
  read_bread :: "nat \<Rightarrow> bool"
  to_user :: "nat \<Rightarrow> nat"
  ts_alloc :: "addr option"
  uninit_ret :: u32

text \<open>
  In the formulas below 4096 is \<open>DEFAULT_BLOCK_SIZE\<close>, 8192 is
  \<open>NUM_METADATA_BLKS * DEFAULT_BLOCK_SIZE\<close> and 10 is \<open>METADATA_SIZE\<close>.

  The checks before the list is searched: end of file, the position moved past a block's
  metadata, the length cut at the end of the block. The results are the new \<open>*off\<close>, the
  \<open>offset\<close> inside the block and the length.
\<close>

definition read_clamp :: "u64 \<Rightarrow> u64 \<Rightarrow> u64 \<Rightarrow> (u64 \<times> u64 \<times> u64) option" where
  "read_clamp file_sz off len =
     (if off + 8192 \<ge> file_sz then None
      else
        let len = (if off + 8192 + len > file_sz then file_sz - off else len);
            offset = word_of_int (sint off smod 4096) :: u64;
            (off, offset) = (if offset < 10 then (off + (10 - offset), 10) else (off, offset));
            len = (if offset + len > 4096 then 4096 - offset else len)
        in Some (off, offset, len))"

text \<open>
  The search. It ends at the element with the block number of the position, or else at the
  first element later than the session's timestamp, to whose start the position then moves.
  The result is the list from that element on, empty at the list's head, with the updated block
  number, position, offset and length.
\<close>

fun read_find :: "addr set \<Rightarrow> (addr \<times> ktime) option \<Rightarrow> u32 \<Rightarrow> u64 \<Rightarrow> u64 \<Rightarrow> u64 \<Rightarrow> rcu_elem list \<Rightarrow>
    fault + rcu_elem list \<times> u32 \<times> u64 \<times> u64 \<times> u64" where
  "read_find lv ts blk off offset len [] = Inr ([], blk, off, offset, len)"
| "read_find lv ts blk off offset len (el # rest) =
     (if ndx el = blk then Inr (el # rest, blk, off, offset, len)
      else case ts of
        None \<Rightarrow> Inl NullDeref
      | Some (a, t) \<Rightarrow>
          if a \<notin> lv then Inl (UseAfterFree a)
          else if el_nsec el > t then
            Inr (el # rest, ndx el, ucast (ndx el * 4096) + 10, 10,
                 if el_valid_bytes el < len then el_valid_bytes el else len)
          else read_find lv ts blk off offset len rest)"

text \<open>
  What follows the label \<open>set_next_blk\<close>: \<open>ret\<close> is the number of bytes read, \<open>out\<close> the bytes that
  have reached the caller's buffer, \<open>rest\<close> the list behind the element that was read.
\<close>

definition set_next_blk ::
  "read_env \<Rightarrow> u64 \<Rightarrow> u32 \<Rightarrow> bytes \<Rightarrow> rcu_elem list \<Rightarrow> u64 \<Rightarrow> session \<Rightarrow> bldms \<Rightarrow>
     fault + (u64 sysret \<times> bytes) \<times> u64 \<times> session \<times> bldms" where
  "set_next_blk env file_sz ret out rest off f s =
     (case rest of
        [] \<Rightarrow> Inr ((Inr (if sint ret > 0 then scast ret else 0), out), file_sz, f, rcu_read_unlock s)
      | next_el # _ \<Rightarrow>
          (case ts_alloc env of
             None \<Rightarrow> Inr ((Inl ENOMEM, out), off, f, rcu_read_unlock s)
           | Some a \<Rightarrow>
               andThen (free_private f (kzalloc a s)) (\<lambda>s.
               Inr ((Inr (scast ret), out), ucast (ndx next_el * 4096) + 10,
                    f\<lparr>private_data := Some (a, el_nsec next_el)\<rparr>, rcu_read_unlock s))))"

text \<open>The element found: its block is read from \<open>offset\<close> on and as much of it copied as is left.\<close>

definition read_element ::
  "read_env \<Rightarrow> u64 \<Rightarrow> rcu_elem \<Rightarrow> rcu_elem list \<Rightarrow> u32 \<Rightarrow> u64 \<Rightarrow> u64 \<Rightarrow> u64 \<Rightarrow> session \<Rightarrow> bldms \<Rightarrow>
     fault + (u64 sysret \<times> bytes) \<times> u64 \<times> session \<times> bldms" where
  "read_element env file_sz el rest device_blk off offset len f s =
     (if offset - 10 > el_valid_bytes el then
        set_next_blk env file_sz (uninit_ret env) [] rest off f s
      else
        let len = (if len + offset - 10 > el_valid_bytes el then el_valid_bytes el - (offset - 10) else len);
            block_to_read = unat (device_blk + word_of_nat NUM_METADATA_BLKS)
        in if \<not> read_bread env block_to_read then
             Inr ((Inl EIO, []), off, f, rcu_read_unlock s)
           else if unat offset + unat len > DEFAULT_BLOCK_SIZE then Inl OutOfBounds
           else
             let r = word_of_nat (to_user env (unat len)) :: u32;
                 out = take (unat len - to_user env (unat len)) (drop (unat offset) (disk s block_to_read))
             in if r \<noteq> 0 \<or> offset + len - scast r < el_valid_bytes el + 10 then
                  Inr ((Inr (len - scast r), out), off + (len - scast r), f, rcu_read_unlock s)
                else set_next_blk env file_sz (ucast (len - scast r)) out rest off f s)"

text \<open>
  The block of the element that was found on its own. The result is an answer that ends the call,
  with the file position it leaves, or the number and the bytes read with which the call goes on to
  the label \<open>set_next_blk\<close>.
\<close>

definition read_block ::
  "read_env \<Rightarrow> rcu_elem \<Rightarrow> u32 \<Rightarrow> u64 \<Rightarrow> u64 \<Rightarrow> u64 \<Rightarrow> disk \<Rightarrow> fault + ((u64 sysret \<times> bytes) \<times> u64) + (u32 \<times> bytes)" where
  "read_block env el device_blk off offset len d =
     (if offset - 10 > el_valid_bytes el then Inr (Inr (uninit_ret env, []))
      else
        let len = (if len + offset - 10 > el_valid_bytes el then el_valid_bytes el - (offset - 10) else len);
            block_to_read = unat (device_blk + word_of_nat NUM_METADATA_BLKS)
        in if \<not> read_bread env block_to_read then Inr (Inl ((Inl EIO, []), off))
           else if unat offset + unat len > DEFAULT_BLOCK_SIZE then Inl OutOfBounds
           else
             let r = word_of_nat (to_user env (unat len)) :: u32;
                 out = take (unat len - to_user env (unat len)) (drop (unat offset) (d block_to_read))
             in if r \<noteq> 0 \<or> offset + len - scast r < el_valid_bytes el + 10 then
                  Inr (Inl ((Inr (len - scast r), out), off + (len - scast r)))
                else Inr (Inr (ucast (len - scast r), out)))"

definition bldms_read ::
  "read_env \<Rightarrow> u64 \<Rightarrow> u64 \<Rightarrow> u64 \<Rightarrow> session \<Rightarrow> bldms \<Rightarrow>
     fault + (u64 sysret \<times> bytes) \<times> u64 \<times> session \<times> bldms" where
  "bldms_read env file_sz len off f s =
     (case read_clamp file_sz off len of
        None \<Rightarrow> Inr ((Inr 0, []), off, f, s)
      | Some (off, offset, len) \<Rightarrow>
          let device_blk = word_of_int (sint off sdiv 4096) :: u32;
              s = rcu_read_lock s
          in andThen (read_find (live s) (private_data f) device_blk off offset len (valid_blk_list s))
            (\<lambda>(els, device_blk, off, offset, len).
            case els of
              [] \<Rightarrow> Inr ((Inr 0, []), file_sz, f, rcu_read_unlock s)
            | el # rest \<Rightarrow> read_element env file_sz el rest device_blk off offset len f s))"

section \<open>Lookup and directory\<close>

text \<open>
  The outcome of a lookup: no such file, an error, or the dentry it returns. The lookup is given the
  dentry of the name, the inode that \<open>iget_locked\<close> returns and the readable blocks; it also yields the inode
  it has taken from the cache, in the state in which it leaves it there.
\<close>

datatype lookup_result = NoEntry | LookupError errno | Returned dentry

definition UNIQUE_FILE_NAME :: string where
  "UNIQUE_FILE_NAME = ''the_file''"

definition BLDMS_INODES_BLOCK_NUMBER :: nat where
  "BLDMS_INODES_BLOCK_NUMBER = 1"

definition bldms_lookup :: "inode option \<Rightarrow> (nat \<Rightarrow> bool) \<Rightarrow> disk \<Rightarrow> dentry \<Rightarrow> lookup_result \<times> inode option" where
  "bldms_lookup iget br d child_dentry =
     (if d_name child_dentry = UNIQUE_FILE_NAME then
        case iget of
          None \<Rightarrow> (LookupError ENOMEM, None)
        | Some var_inode \<Rightarrow>
            if \<not> i_new var_inode then (Returned child_dentry, Some var_inode)
            else
              let var_inode = init_file_inode var_inode in
              if \<not> br BLDMS_INODES_BLOCK_NUMBER then (LookupError EIO, Some var_inode)
              else
                let fs_specific_inode = decode_inode (take inode_size (d BLDMS_INODES_BLOCK_NUMBER));
                    var_inode = unlock_new_inode (var_inode\<lparr>i_size := file_size fs_specific_inode\<rparr>)
                in (Returned (dget (d_add child_dentry var_inode)), Some var_inode)
      else (NoEntry, None))"

text \<open>
  A successful lookup attaches the unlocked inode of a regular file with the size on the device.
  Two paths leave something behind. A cached inode is not attached to the dentry, and the dentry is
  returned without a reference of its own. A read that fails leaves the inode in the cache with the bit
  \<open>I_NEW\<close> set, for which the next \<open>iget_locked\<close> of the inode waits.
\<close>

lemma lookup_new:
  assumes "d_name child = UNIQUE_FILE_NAME" "i_new inode" "br BLDMS_INODES_BLOCK_NUMBER"
  obtains child' ino where "bldms_lookup (Some inode) br d child = (Returned child', Some ino)" "d_inode child' = Some ino"
    "d_count child' = d_count child + 1" "\<not> i_new ino" "i_mode ino = 0x81B6" "i_fop ino = Some bldms_file_operations"
    "i_size ino = file_size (decode_inode (take inode_size (d BLDMS_INODES_BLOCK_NUMBER)))"
  using assms
  by (simp add: bldms_lookup_def Let_def dget_def d_add_def unlock_new_inode_def file_mode)
    (simp add: init_file_inode_def)

lemma lookup_header:
  assumes "header_ok d n" "d_name child = UNIQUE_FILE_NAME" "i_new inode"
  shows "\<exists>child' ino. bldms_lookup (Some inode) (\<lambda>_. True) d child = (Returned child', Some ino) \<and>
     d_inode child' = Some ino \<and> unat (i_size ino) div DEFAULT_BLOCK_SIZE = n"
proof -
  obtain child' ino where "bldms_lookup (Some inode) (\<lambda>_. True) d child = (Returned child', Some ino)" "d_inode child' = Some ino"
    "i_size ino = file_size (decode_inode (take inode_size (d BLDMS_INODES_BLOCK_NUMBER)))"
    by (rule lookup_new [OF assms(2,3), of "\<lambda>_. True" d]) simp_all
  then show ?thesis
    using assms(1) by (auto simp: header_ok_def BLDMS_INODES_BLOCK_NUMBER_def BLDMS_SINGLEFILE_INODE_NUMBER_def)
qed

lemma lookup_other: "d_name child \<noteq> UNIQUE_FILE_NAME \<Longrightarrow> bldms_lookup iget br d child = (NoEntry, None)"
  by (simp add: bldms_lookup_def)

lemma lookup_cached_keeps_dentry:
  "d_name child = UNIQUE_FILE_NAME \<Longrightarrow> \<not> i_new inode \<Longrightarrow>
     bldms_lookup (Some inode) br d child = (Returned child, Some inode)"
  by (simp add: bldms_lookup_def)

lemma lookup_failure_leaves_locked:
  "d_name child = UNIQUE_FILE_NAME \<Longrightarrow> i_new inode \<Longrightarrow> \<not> br BLDMS_INODES_BLOCK_NUMBER \<Longrightarrow>
     \<exists>ino. bldms_lookup (Some inode) br d child = (LookupError EIO, Some ino) \<and> i_new ino \<and> i_nlink ino = 1"
  by (simp add: bldms_lookup_def init_file_inode_def inode_init_owner_def)

datatype dir_entry = Dot | DotDot | FileEntry string u64

text \<open>\<open>emit\<close> is whether the caller's buffer takes the entry; the position is a signed \<open>loff_t\<close>.\<close>

definition bldms_iterate :: "(dir_entry \<Rightarrow> bool) \<Rightarrow> int \<Rightarrow> dir_entry list \<times> int" where
  "bldms_iterate emit pos =
     (if pos \<ge> 2 + 1 then ([], pos)
      else
        let entry = (if pos = 0 then Dot else if pos = 1 then DotDot
                     else FileEntry UNIQUE_FILE_NAME (word_of_nat BLDMS_SINGLEFILE_INODE_NUMBER))
        in if emit entry then ([entry], pos + 1) else ([], pos))"

text \<open>Successive calls, as the kernel makes them for a listing, one buffer each.\<close>

fun listing_calls :: "(dir_entry \<Rightarrow> bool) list \<Rightarrow> int \<Rightarrow> dir_entry list \<times> int" where
  "listing_calls [] pos = ([], pos)"
| "listing_calls (emit # emits) pos =
     (let (es, pos) = bldms_iterate emit pos; (es', pos) = listing_calls emits pos in (es @ es', pos))"

definition root_entries :: "dir_entry list" where
  "root_entries = [Dot, DotDot, FileEntry UNIQUE_FILE_NAME (word_of_nat BLDMS_SINGLEFILE_INODE_NUMBER)]"

lemma bldms_iterate_entry:
  "k \<le> 3 \<Longrightarrow> bldms_iterate emit (int k) =
     (if k < 3 \<and> emit (root_entries ! k) then ([root_entries ! k], int (Suc k)) else ([], int k))"
proof -
  assume "k \<le> 3"
  then consider "k = 0" | "k = 1" | "k = 2" | "k = 3" by linarith
  then show ?thesis by cases (simp_all add: bldms_iterate_def root_entries_def Let_def)
qed

lemma listing_calls_prefix:
  "k \<le> 3 \<Longrightarrow> \<exists>k' \<le> 3. k \<le> k' \<and> listing_calls emits (int k) = (drop k (take k' root_entries), int k') \<and>
     (min 3 (k + length (filter (\<lambda>emit. \<forall>e. emit e) emits)) \<le> k')"
proof (induction emits arbitrary: k)
  case (Cons emit emits)
  have len: "length root_entries = 3" by (simp add: root_entries_def)
  show ?case
  proof (cases "k < 3 \<and> emit (root_entries ! k)")
    case True
    with Cons.IH [of "Suc k"] obtain k' where k': "k' \<le> 3" "Suc k \<le> k'"
      "listing_calls emits (int (Suc k)) = (drop (Suc k) (take k' root_entries), int k')"
      "min 3 (Suc k + length (filter (\<lambda>emit. \<forall>e. emit e) emits)) \<le> k'" by auto
    have "drop k (take k' root_entries) = root_entries ! k # drop (Suc k) (take k' root_entries)"
      using k' len Cons_nth_drop_Suc [of k "take k' root_entries"] by simp
    with k' True Cons.prems show ?thesis
      by (intro exI [of _ k']) (auto simp: bldms_iterate_entry simp del: of_nat_Suc)
  next
    case False
    with Cons.prems have "bldms_iterate emit (int k) = ([], int k)" by (simp add: bldms_iterate_entry)
    moreover have "k = 3 \<or> \<not> (\<forall>e. emit e)" using False Cons.prems by auto
    ultimately show ?thesis using Cons.IH [OF Cons.prems] by (auto split: if_splits)
  qed
qed simp

section \<open>Positions\<close>

text \<open>The file position of byte \<open>p\<close> of the message in block \<open>i\<close>.\<close>

definition file_pos :: "nat \<Rightarrow> nat \<Rightarrow> u64" where
  "file_pos i p = word_of_nat (i * 4096 + 10 + p)"

lemma unat_u64 [simp]: "m < 2 ^ 64 \<Longrightarrow> unat (word_of_nat m :: u64) = m"
  by (simp add: unat_of_nat)

lemma sint_u64_small: "m < 2 ^ 63 \<Longrightarrow> sint (word_of_nat m :: u64) = int m"
  by (simp add: sint_uint uint_nat signed_take_bit_eq_take_bit_shift take_bit_eq_mod mod_pos_pos_trivial)

lemma u64_order:
  assumes "a < 2 ^ 64" "b < 2 ^ 64"
  shows "(word_of_nat a :: u64) < word_of_nat b \<longleftrightarrow> a < b" "(word_of_nat a :: u64) \<le> word_of_nat b \<longleftrightarrow> a \<le> b"
  using assms by (simp_all add: word_less_nat_alt word_le_nat_alt)

lemma u64_arith:
  "word_of_nat a + (word_of_nat b :: u64) = word_of_nat (a + b)"
  "b \<le> a \<Longrightarrow> word_of_nat a - (word_of_nat b :: u64) = word_of_nat (a - b)"
  by (simp_all add: of_nat_diff)

lemma u64_numerals: "(8192 :: u64) = word_of_nat 8192" "(4096 :: u64) = word_of_nat 4096" "(10 :: u64) = word_of_nat 10"
  by simp_all

lemma u64_cases: obtains l where "len = (word_of_nat l :: u64)" "l < 2 ^ 64"
  using word_nat_cases [of len] by auto

lemma block_offset:
  assumes "x < 2 ^ 63"
  shows "(word_of_int (sint (word_of_nat x :: u64) smod 4096) :: u64) = word_of_nat (x mod 4096)"
    "(word_of_int (sint (word_of_nat x :: u64) sdiv 4096) :: u32) = word_of_nat (x div 4096)"
proof -
  have s: "sint (word_of_nat x :: u64) = int x" using assms by (rule sint_u64_small)
  have "int x smod 4096 = int (x mod 4096)" "int x sdiv 4096 = int (x div 4096)"
    by (cases "x = 0"; simp add: signed_divide_int_def signed_modulo_int_def zmod_int zdiv_int)+
  then show "(word_of_int (sint (word_of_nat x :: u64) smod 4096) :: u64) = word_of_nat (x mod 4096)"
    "(word_of_int (sint (word_of_nat x :: u64) sdiv 4096) :: u32) = word_of_nat (x div 4096)"
    unfolding s by (simp_all only: of_int_of_nat_eq)
qed

lemma clamp_len:
  fixes x l F :: nat
  assumes "x mod 4096 = q" "F mod 4096 = 0" "x + 8192 < F" "m = max q 10"
  shows "(if m + (if F < x + 8192 + l then F - x else l) > 4096 then 4096 - m
          else if F < x + 8192 + l then F - x else l) = min l (4096 - m)"
proof -
  have q: "q < 4096" using assms(1) by auto
  obtain i where x: "x = i * 4096 + q" using assms(1) by (metis div_mult_mod_eq)
  obtain n where F: "F = n * 4096" using assms(2) by auto
  have "i + 2 < n" using assms(3) unfolding x F by simp
  then show ?thesis using q assms(4) unfolding x F by (auto simp: min_def max_def)
qed

lemma read_clamp_nat:
  assumes b: "x < 2 ^ 62" "F < 2 ^ 62" "l < 2 ^ 63" "x + 8192 < F" "F mod 4096 = 0"
    and q: "x mod 4096 = q" and m: "m = max q 10"
  shows "read_clamp (word_of_nat F) (word_of_nat x) (word_of_nat l) =
     Some (word_of_nat (x + (m - q)), word_of_nat m, word_of_nat (min l (4096 - m)))"
proof -
  define L where "L = (if F < x + 8192 + l then F - x else l)"
  have q': "q < 4096" using q by auto
  then have m': "m < 4096" "q \<le> m" using m by auto
  have L: "L < 2 ^ 63" using b by (auto simp: L_def)
  have e1: "\<not> word_of_nat F \<le> (word_of_nat x + 8192 :: u64)"
    unfolding u64_numerals u64_arith using b by (subst u64_order) simp_all
  have e2: "word_of_nat F < (word_of_nat x + 8192 + word_of_nat l :: u64) \<longleftrightarrow> F < x + 8192 + l"
    unfolding u64_numerals u64_arith using b by (subst u64_order) simp_all
  have e3: "(if F < x + 8192 + l then word_of_nat F - word_of_nat x else word_of_nat l) = (word_of_nat L :: u64)"
    using b by (simp add: L_def of_nat_diff)
  have e4: "word_of_int (sint (word_of_nat x :: u64) smod 4096) = (word_of_nat q :: u64)"
    using block_offset(1) [of x] b q by simp
  have e5: "(word_of_nat q :: u64) < 10 \<longleftrightarrow> q < 10"
    unfolding u64_numerals using q' by (subst u64_order) simp_all
  have e5': "(if q < 10 then (word_of_nat x + (10 - word_of_nat q), 10) else (word_of_nat x, word_of_nat q)) =
      (word_of_nat (x + (m - q)) :: u64, word_of_nat m :: u64)"
    using m by (simp add: max_def of_nat_diff)
  have e6: "(4096 :: u64) < word_of_nat m + word_of_nat L \<longleftrightarrow> 4096 < m + L"
    unfolding u64_numerals u64_arith using L m' by (subst u64_order) simp_all
  have e7: "(4096 :: u64) - word_of_nat m = word_of_nat (4096 - m)"
    unfolding u64_numerals using m' by (intro u64_arith) simp
  have "(if 4096 < m + L then 4096 - m else L) = min l (4096 - m)"
    using clamp_len [OF q b(5,4) m, of l] unfolding L_def .
  then have "(if 4096 < m + L then word_of_nat (4096 - m) else word_of_nat L) = (word_of_nat (min l (4096 - m)) :: u64)"
    by (metis (full_types))
  then show ?thesis
    unfolding read_clamp_def Let_def e4 by (simp only: e1 e2 e3 e5 e5' e6 e7 if_False prod.case)
qed

lemma file_pos_mod:
  fixes i p :: nat
  assumes "p < 4086"
  shows "(i * 4096 + 10 + p) mod 4096 = 10 + p" "(i * 4096 + 10 + p) div 4096 = i"
  using assms unfolding add.assoc mod_mult_self3 by simp_all

lemma file_pos_block:
  assumes "i < 1000" "q < 4086"
  shows "(word_of_int (sint (file_pos i q) sdiv 4096) :: u32) = word_of_nat i"
  unfolding file_pos_def using block_offset(2) [of "i * 4096 + 10 + q"] assms file_pos_mod(2) [OF assms(2), of i]
  by (simp del: of_nat_add of_nat_mult of_nat_numeral)

lemma read_clamp_pos:
  assumes "i + 2 < n" "n \<le> 1000" "p < 4086" "unat len < 2 ^ 63"
  shows "read_clamp (word_of_nat (n * 4096)) (file_pos i p) len =
     Some (file_pos i p, word_of_nat (10 + p), word_of_nat (min (unat len) (4086 - p)))"
proof -
  have "read_clamp (word_of_nat (n * 4096)) (word_of_nat (i * 4096 + 10 + p)) (word_of_nat (unat len)) =
     Some (word_of_nat (i * 4096 + 10 + p), word_of_nat (10 + p), word_of_nat (min (unat len) (4096 - (10 + p))))"
    using assms read_clamp_nat [of "i * 4096 + 10 + p" "n * 4096" "unat len", OF _ _ _ _ _ file_pos_mod(1) refl] by simp
  then show ?thesis by (simp add: file_pos_def del: of_nat_add of_nat_mult of_nat_numeral)
qed

section \<open>The search\<close>

lemma read_find_here:
  assumes "\<forall>x \<in> set pre. ndx x \<noteq> ndx el \<and> el_nsec x \<le> t" "a \<in> lv"
  shows "read_find lv (Some (a, t)) (ndx el) off offset len (pre @ el # rest) =
     Inr (el # rest, ndx el, off, offset, len)"
  using assms by (induction pre) auto

lemma read_find_later:
  assumes "\<forall>x \<in> set pre. ndx x \<noteq> blk \<and> el_nsec x \<le> t" "a \<in> lv" "ndx el \<noteq> blk" "t < el_nsec el"
  shows "read_find lv (Some (a, t)) blk off offset len (pre @ el # rest) =
     Inr (el # rest, ndx el, ucast (ndx el * 4096) + 10, 10, if el_valid_bytes el < len then el_valid_bytes el else len)"
  using assms by (induction pre) auto

lemma read_find_end:
  assumes "\<forall>x \<in> set xs. ndx x \<noteq> blk \<and> el_nsec x \<le> t" "a \<in> lv"
  shows "read_find lv (Some (a, t)) blk off offset len xs = Inr ([], blk, off, offset, len)"
  using assms by (induction xs) auto

section \<open>One message\<close>

text \<open>
  The session waits for the message of time \<open>ts\<close>, and its memory is allocated.
\<close>

definition session_at :: "session \<Rightarrow> ktime \<Rightarrow> bldms \<Rightarrow> bool" where
  "session_at f ts s \<longleftrightarrow> (case private_data f of None \<Rightarrow> False | Some (a, t) \<Rightarrow> a \<in> live s \<and> t = ts)"

text \<open>
  What a read leaves that has come to the end of the message: the start of the next message in the
  list, or the end of the file.
\<close>

definition read_next ::
  "read_env \<Rightarrow> u64 \<Rightarrow> rcu_elem list \<Rightarrow> u64 sysret \<times> bytes \<Rightarrow> session \<Rightarrow> bldms \<Rightarrow>
     fault + (u64 sysret \<times> bytes) \<times> u64 \<times> session \<times> bldms" where
  "read_next env file_sz rest r f s =
     (case rest of
        [] \<Rightarrow> Inr (r, file_sz, f, s)
      | el # _ \<Rightarrow>
          let b = the (ts_alloc env); a = fst (the (private_data f))
          in Inr (r, file_pos (unat (ndx el)) 0, f\<lparr>private_data := Some (b, el_nsec el)\<rparr>,
               s\<lparr>live := insert b (live s) - {a}\<rparr>))"

lemma pos_of_block:
  assumes "i < 1000"
  shows "ucast (word_of_nat i * 4096 :: u32) + 10 = file_pos i 0"
proof -
  have "word_of_nat i * 4096 = (word_of_nat (i * 4096) :: u32)" by simp
  moreover have "unat (word_of_nat (i * 4096) :: u32) = i * 4096"
    using assms by (simp add: unat_of_nat del: of_nat_mult)
  ultimately have "unat (word_of_nat i * 4096 :: u32) = i * 4096" by (simp only:)
  then have "unat (ucast (word_of_nat i * 4096 :: u32) :: u64) = unat (word_of_nat (i * 4096) :: u64)"
    using assms by (simp del: of_nat_mult)
  then have "ucast (word_of_nat i * 4096 :: u32) = (word_of_nat (i * 4096) :: u64)" by (rule unat_eqD)
  then show ?thesis by (simp add: file_pos_def)
qed

lemma ret_value:
  assumes "k \<le> 4096"
  shows "scast (ucast (word_of_nat k :: u64) :: u32) = (word_of_nat k :: u64)"
    "sint (ucast (word_of_nat k :: u64) :: u32) = int k"
proof -
  let ?r = "ucast (word_of_nat k :: u64) :: u32"
  have u: "unat ?r = k" using assms by (subst unat_ucast_64_32) simp_all
  then have "unat (scast ?r :: u64) = unat (word_of_nat k :: u64)"
    using assms unat_scast_nonneg [of ?r] by simp
  then show "scast ?r = (word_of_nat k :: u64)" by (rule unat_eqD)
  have "uint ?r = int k" using u by (metis uint_nat)
  then show "sint ?r = int k" using u assms by (simp add: sint_u32)
qed

text \<open>The jump to the next message, with the number \<open>k\<close> of bytes just read.\<close>

lemma set_next_blk_read_next:
  assumes "session_at f ts s" "k \<le> 4096" "\<forall>x \<in> set rest. unat (ndx x) < 1000"
    and "rest \<noteq> [] \<longrightarrow> ts_alloc env \<noteq> None"
  shows "set_next_blk env file_sz (ucast (word_of_nat k :: u64)) out rest off f (rcu_read_lock s) =
     read_next env file_sz rest (Inr (word_of_nat k), out) f s"
proof (cases rest)
  case Nil
  have "(0 :: u64) = word_of_nat k" if "\<not> 0 < int k" using that by simp
  then show ?thesis
    using Nil ret_value [OF assms(2)] by (auto simp: set_next_blk_def read_next_def)
next
  case (Cons x xs)
  obtain b where b: "ts_alloc env = Some b" using assms(4) Cons by auto
  obtain a t where a: "private_data f = Some (a, t)" "a \<in> live s"
    using assms(1) by (auto simp: session_at_def split: option.splits)
  have "ucast (ndx x * 4096) + 10 = file_pos (unat (ndx x)) 0"
    using pos_of_block [of "unat (ndx x)"] assms(3) Cons by simp
  then show ?thesis
    using Cons a ret_value(1) [OF assms(2)]
    by (simp add: set_next_blk_def read_next_def b free_private_def kzalloc_def rcu_read_lock_def
        rcu_read_unlock_def Let_def)
qed

lemma index_prefix:
  assumes "index_ok (pre @ el # rest)"
  shows "\<forall>x \<in> set pre. ndx x \<noteq> ndx el \<and> el_nsec x \<le> el_nsec el"
proof -
  have "ndx el \<notin> ndx ` set pre" "\<forall>x \<in> set pre. el_nsec x \<le> el_nsec el"
    using assms by (auto simp: index_ok_def sorted_append)
  then show ?thesis by (metis imageI)
qed

lemma listed_small:
  assumes "driver_ok s" "x \<in> set (valid_blk_list s)"
  shows "unat (ndx x) < 1000" "unat (ndx x) < md_array_size s"
proof -
  have "unat (ndx x) < length (md_objs s)" using assms by (auto simp: driver_ok_def index_inv_def)
  also have "\<dots> = md_array_size s" using assms(1) by (simp add: driver_ok_def shape_ok_def)
  finally show "unat (ndx x) < md_array_size s" .
  then show "unat (ndx x) < 1000" by (rule offset_in_range(1) [OF assms(1)])
qed

lemma listed_length:
  assumes "driver_ok s" "el \<in> set (valid_blk_list s)" "messages s (unat (ndx el)) = Some (t, msg)"
  shows "el_valid_bytes el = word_of_nat (length msg)"
proof -
  obtain el' where el': "list_lookup (valid_blk_list s) (word_of_nat (unat (ndx el))) = Some el'" "unat (el_valid_bytes el') = length msg"
    using messages_Some [OF assms(1,3)] by metis
  have "distinct (map ndx (valid_blk_list s))" using assms(1) by (simp add: driver_ok_def index_inv_def index_ok_def)
  then have "el' = el" using list_lookup_Some [OF el'(1)] assms(2) by (auto dest: distinct_map_eqD)
  then show ?thesis using el'(2) by (metis of_nat_unat ucast_id)
qed

text \<open>A read environment in which the device can be read and the caller's buffer takes everything.\<close>

definition read_env_ok :: "read_env \<Rightarrow> bool" where
  "read_env_ok env \<longleftrightarrow> (\<forall>i. read_bread env i) \<and> (\<forall>n. to_user env n = 0)"

lemma read_element_steps:
  "read_element env file_sz el rest device_blk off offset len f s =
     andThen (read_block env el device_blk off offset len (disk s)) (\<lambda>r. case r of
       Inl (r, off) \<Rightarrow> Inr (r, off, f, rcu_read_unlock s)
     | Inr (ret, out) \<Rightarrow> set_next_blk env file_sz ret out rest off f s)"
  by (simp add: read_element_def read_block_def Let_def)

lemma read_block_message:
  assumes ok: "driver_ok s" and el: "el \<in> set (valid_blk_list s)"
    and m: "messages s (unat (ndx el)) = Some (el_nsec el, msg)" and p: "p \<le> length msg"
    and env: "read_env_ok env" and l: "l \<le> 4086 - p"
    and d: "d (unat (ndx el) + NUM_METADATA_BLKS) = disk s (unat (ndx el) + NUM_METADATA_BLKS)"
  defines "k \<equiv> min l (length msg - p)"
  shows "read_block env el (ndx el) (file_pos (unat (ndx el)) p) (word_of_nat (10 + p)) (word_of_nat l) d =
     Inr (if p + k < length msg
      then Inl ((Inr (word_of_nat k), take k (drop p msg)), file_pos (unat (ndx el)) (p + k))
      else Inr (ucast (word_of_nat k :: u64), take k (drop p msg)))"
proof -
  let ?i = "unat (ndx el)"
  obtain el' where el': "?i < md_array_size s" "list_lookup (valid_blk_list s) (word_of_nat ?i) = Some el'"
    "unat (el_valid_bytes el') = length msg" "length msg \<le> 4086"
    "msg = take (length msg) (drop METADATA_SIZE (disk s (?i + NUM_METADATA_BLKS)))"
    using messages_Some [OF ok m] by metis
  have V: "el_valid_bytes el = word_of_nat (length msg)" by (rule listed_length [OF ok el m])
  have blk: "unat (ndx el + word_of_nat NUM_METADATA_BLKS) = ?i + NUM_METADATA_BLKS"
    using word_add2_small [of ?i] offset_in_range(1) [OF ok el'(1)] by simp
  have kb: "k \<le> 4086 - p" "p + k \<le> length msg" "p \<le> 4086" using l p el'(4) by (auto simp: k_def)
  have e1: "word_of_nat (10 + p) - 10 = (word_of_nat p :: u64)" by simp
  have e2: "\<not> (word_of_nat (length msg) :: u64) < word_of_nat p"
    using p el'(4) by (subst u64_order) simp_all
  have lp: "word_of_nat l + word_of_nat (10 + p) - 10 = (word_of_nat (l + p) :: u64)" by simp
  have e3: "(word_of_nat (length msg) :: u64) < word_of_nat l + word_of_nat (10 + p) - 10 \<longleftrightarrow> length msg < l + p"
    unfolding lp using l kb el'(4) by (intro u64_order(1)) simp_all
  have kc: "k = (if length msg < l + p then length msg - p else l)" using p by (auto simp: k_def)
  have e4: "(if length msg < l + p then word_of_nat (length msg) - word_of_nat p else word_of_nat l) = (word_of_nat k :: u64)"
    using p kc by (simp add: of_nat_diff)
  have e5: "unat (word_of_nat (10 + p) :: u64) = 10 + p" "unat (word_of_nat k :: u64) = k"
    using kb by (simp_all del: of_nat_add)
  have sums: "word_of_nat (10 + p) + word_of_nat k = (word_of_nat (10 + p + k) :: u64)"
    "word_of_nat (length msg) + 10 = (word_of_nat (length msg + 10) :: u64)" by simp_all
  have e6: "word_of_nat (10 + p) + word_of_nat k < (word_of_nat (length msg) + 10 :: u64) \<longleftrightarrow> p + k < length msg"
    unfolding sums using kb el'(4) by (subst u64_order(1)) simp_all
  have out: "take k (drop (10 + p) (d (?i + NUM_METADATA_BLKS))) = take k (drop p msg)"
    unfolding d using kb by (subst el'(5)) (simp add: drop_take min_def layout_consts add.commute)
  have pos: "file_pos ?i p + word_of_nat k = file_pos ?i (p + k)" by (simp add: file_pos_def)
  have fits: "\<not> DEFAULT_BLOCK_SIZE < 10 + p + k" using kb by (simp add: layout_consts)
  show ?thesis
    unfolding read_block_def V Let_def e1 blk
    using env fits kb
    by (simp add: e2 e3 e4 e5 e6 out pos read_env_ok_def del: of_nat_add)
qed

lemma read_element_message:
  assumes ok: "driver_ok s" and el: "el \<in> set (valid_blk_list s)" "set rest \<subseteq> set (valid_blk_list s)"
    and at: "session_at f ts s"
    and m: "messages s (unat (ndx el)) = Some (el_nsec el, msg)" and p: "p \<le> length msg"
    and env: "read_env_ok env" "rest \<noteq> [] \<longrightarrow> ts_alloc env \<noteq> None"
    and l: "l \<le> 4086 - p"
  defines "k \<equiv> min l (length msg - p)"
  shows "read_element env file_sz el rest (ndx el) (file_pos (unat (ndx el)) p) (word_of_nat (10 + p)) (word_of_nat l)
       f (rcu_read_lock s) =
     (if p + k < length msg
      then Inr ((Inr (word_of_nat k), take k (drop p msg)), file_pos (unat (ndx el)) (p + k), f, s)
      else read_next env file_sz rest (Inr (word_of_nat k), take k (drop p msg)) f s)"
proof -
  have small: "\<forall>x \<in> set rest. unat (ndx x) < 1000" using el(2) listed_small(1) [OF ok] by blast
  have "k \<le> 4096" using l by (auto simp: k_def)
  note nxt = set_next_blk_read_next [OF at this small env(2)]
  have d: "disk (rcu_read_lock s) = disk s" by (simp add: rcu_read_lock_def)
  show ?thesis
    unfolding read_element_steps d read_block_message [OF ok el(1) m p env(1) l, of "disk s", OF refl] k_def [symmetric]
    by (simp add: nxt)
qed

lemma read_message_clamped:
  assumes ok: "driver_ok s" and list: "valid_blk_list s = pre @ el # rest" and at: "session_at f t s"
    and t: "\<forall>x \<in> set pre. el_nsec x \<le> t"
    and m: "messages s (unat (ndx el)) = Some (el_nsec el, msg)" and p: "p < length msg \<or> p = 0"
    and clamp: "read_clamp file_sz (file_pos (unat (ndx el)) p) len =
      Some (file_pos (unat (ndx el)) p, word_of_nat (10 + p), word_of_nat l)" and l: "l \<le> 4086 - p"
    and env: "read_env_ok env" "rest \<noteq> [] \<longrightarrow> ts_alloc env \<noteq> None"
  defines "k \<equiv> min l (length msg - p)"
  shows "bldms_read env file_sz len (file_pos (unat (ndx el)) p) f s =
     (if p + k < length msg
      then Inr ((Inr (word_of_nat k), take k (drop p msg)), file_pos (unat (ndx el)) (p + k), f, s)
      else read_next env file_sz rest (Inr (word_of_nat k), take k (drop p msg)) f s)"
proof -
  let ?i = "unat (ndx el)"
  have V: "length msg \<le> 4086" using messages_Some [OF ok m] by metis
  have p': "p < 4086" "p \<le> length msg" using p V by auto
  have i: "?i < 1000" using listed_small(1) [OF ok] list by simp
  have ix: "index_ok (pre @ el # rest)" using ok by (simp add: driver_ok_def index_inv_def list)
  obtain a where a: "private_data f = Some (a, t)" "a \<in> live s"
    using at by (auto simp: session_at_def split: option.splits)
  have dev: "word_of_int (sint (file_pos ?i p) sdiv 4096) = ndx el"
    using file_pos_block [OF i p'(1)] by simp
  have find: "read_find (live s) (Some (a, t)) (ndx el) (file_pos ?i p) (word_of_nat (10 + p)) (word_of_nat l)
      (pre @ el # rest) = Inr (el # rest, ndx el, file_pos ?i p, word_of_nat (10 + p), word_of_nat l)"
    using index_prefix [OF ix] t by (intro read_find_here [OF _ a(2)]) auto
  have "read_element env file_sz el rest (ndx el) (file_pos ?i p) (word_of_nat (10 + p)) (word_of_nat l) f (rcu_read_lock s) =
     (if p + k < length msg
      then Inr ((Inr (word_of_nat k), take k (drop p msg)), file_pos ?i (p + k), f, s)
      else read_next env file_sz rest (Inr (word_of_nat k), take k (drop p msg)) f s)"
    unfolding k_def using p' list l by (intro read_element_message [OF ok _ _ at m _ env]) auto
  then show ?thesis
    using find a list by (simp add: bldms_read_def clamp dev Let_def rcu_read_lock_def del: of_nat_add)
qed

lemma read_message_at:
  assumes ok: "driver_ok s" and list: "valid_blk_list s = pre @ el # rest" and at: "session_at f t s"
    and t: "\<forall>x \<in> set pre. el_nsec x \<le> t"
    and m: "messages s (unat (ndx el)) = Some (el_nsec el, msg)" and p: "p < length msg \<or> p = 0"
    and n: "unat (ndx el) + 2 < md_array_size s" and len: "unat len < 2 ^ 63"
    and env: "read_env_ok env" "rest \<noteq> [] \<longrightarrow> ts_alloc env \<noteq> None"
  defines "k \<equiv> min (unat len) (length msg - p)"
  shows "bldms_read env (word_of_nat (md_array_size s * 4096)) len (file_pos (unat (ndx el)) p) f s =
     (if p + k < length msg
      then Inr ((Inr (word_of_nat k), take k (drop p msg)), file_pos (unat (ndx el)) (p + k), f, s)
      else read_next env (word_of_nat (md_array_size s * 4096)) rest (Inr (word_of_nat k), take k (drop p msg)) f s)"
proof -
  have V: "length msg \<le> 4086" using messages_Some [OF ok m] by metis
  have sz: "md_array_size s \<le> 1000" using ok by (simp add: driver_ok_def shape_ok_def layout_consts)
  have p': "p < 4086" using p V by auto
  have "k = min (min (unat len) (4086 - p)) (length msg - p)" using V by (auto simp: k_def)
  then show ?thesis
    using read_message_clamped [OF ok list at t m p read_clamp_pos [OF n sz p' len] _ env] by simp
qed

lemma index_before: "driver_ok s \<Longrightarrow> valid_blk_list s = pre @ el # rest \<Longrightarrow> \<forall>x \<in> set pre. el_nsec x \<le> el_nsec el"
  using index_prefix [of pre el rest] by (simp add: driver_ok_def index_inv_def)

text \<open>
  When the file size is not a multiple of the block size, the length is replaced by the
  distance to the end of the file, which can be more than the caller's buffer holds.
\<close>

lemma read_clamp_grows:
  assumes p: "p < 4086" and i: "i < 1000" and g: "0 < g" "g < unat len" "unat len < 2 ^ 63"
  shows "read_clamp (file_pos i (p + 8192 + g)) (file_pos i p) len =
     Some (file_pos i p, word_of_nat (10 + p), word_of_nat (4086 - p))"
proof -
  define x where "x = i * 4096 + 10 + p"
  obtain l where l: "len = word_of_nat l" "unat len = l" using u64_cases [of len] by (metis unat_u64)
  have b: "x < 2 ^ 62" "g < 2 ^ 63" using p i g by (simp_all add: x_def)
  have F: "file_pos i (p + 8192 + g) = word_of_nat (x + 8192 + g)" "file_pos i p = word_of_nat x"
    by (simp_all add: file_pos_def x_def)
  have e1: "\<not> word_of_nat (x + 8192 + g) \<le> (word_of_nat x + 8192 :: u64)"
    unfolding u64_numerals u64_arith using b g by (subst u64_order) simp_all
  have e2: "word_of_nat (x + 8192 + g) < (word_of_nat x + 8192 + word_of_nat l :: u64)"
    unfolding u64_numerals u64_arith using b g l by (subst u64_order) simp_all
  have e3: "word_of_nat (x + 8192 + g) - word_of_nat x = (word_of_nat (8192 + g) :: u64)" by simp
  have "x < 2 ^ 63" using b by simp
  then have e4: "word_of_int (sint (word_of_nat x :: u64) smod 4096) = (word_of_nat (10 + p) :: u64)"
    using block_offset(1) [of x] file_pos_mod(1) [OF p, of i] by (simp add: x_def del: of_nat_add of_nat_mult)
  have e5: "\<not> (word_of_nat (10 + p) :: u64) < 10"
    unfolding u64_numerals using p by (subst u64_order) simp_all
  have e6: "(4096 :: u64) < word_of_nat (10 + p) + word_of_nat (8192 + g)"
    unfolding u64_numerals u64_arith using b p by (subst u64_order) simp_all
  have e7: "(4096 :: u64) - word_of_nat (10 + p) = word_of_nat (4086 - p)"
    unfolding u64_numerals using p u64_arith(2) [of "10 + p" 4096] by (simp del: of_nat_add)
  show ?thesis
    unfolding read_clamp_def Let_def F l(1) e3 e4 by (simp only: e1 e2 e3 e5 e6 e7 if_False if_True prod.case)
qed

section \<open>The first read of a session\<close>

lemma read_clamp_start:
  assumes "2 < n" "n \<le> 1000" "unat len < 2 ^ 63"
  shows "read_clamp (word_of_nat (n * 4096)) 0 len = Some (file_pos 0 0, 10, word_of_nat (min (unat len) 4086))"
proof -
  let ?F = "word_of_nat (n * 4096) :: u64"
  have F: "unat ?F = n * 4096" using assms by (simp del: of_nat_mult)
  obtain l where l: "len = word_of_nat l" "unat len = l" "l < 2 ^ 63"
    using u64_cases [of len] assms(3) by (metis unat_u64)
  have s: "(8192 :: u64) + word_of_nat l = word_of_nat (8192 + l)" by simp
  have e1: "\<not> ?F \<le> 8192" unfolding word_le_nat_alt F using assms by simp
  have e2: "?F < 8192 + word_of_nat l \<longleftrightarrow> n * 4096 < 8192 + l"
    unfolding s word_less_nat_alt F using l by (simp del: of_nat_add)
  have sF: "(10 :: u64) + ?F = word_of_nat (10 + n * 4096)" "(10 :: u64) + word_of_nat l = word_of_nat (10 + l)"
    by simp_all
  have e3: "4096 < 10 + ?F" "4096 < 10 + (word_of_nat l :: u64) \<longleftrightarrow> 4096 < 10 + l"
    unfolding sF word_less_nat_alt using assms l by (simp_all del: of_nat_add of_nat_mult)
  have p0: "file_pos 0 0 = 10" by (simp add: file_pos_def)
  show ?thesis
  proof (cases "n * 4096 < 8192 + l")
    case True
    moreover have "min l 4086 = 4086" using True assms(1) by simp
    ultimately show ?thesis
      unfolding read_clamp_def l(2) p0 unfolding l(1) using e1 e2 e3(1) by (simp add: Let_def del: of_nat_mult)
  next
    case False
    then show ?thesis
      unfolding read_clamp_def l(2) p0 unfolding l(1) using e1 e2 e3(2)
      by (simp add: Let_def min_def del: of_nat_mult)
  qed
qed

lemma read_first_message:
  assumes ok: "driver_ok s" and list: "valid_blk_list s = el # rest" and at: "session_at f (Ktime 0) s"
    and m: "messages s (unat (ndx el)) = Some (el_nsec el, msg)"
    and t: "Ktime 0 < el_nsec el" and n: "2 < md_array_size s" and len: "unat len < 2 ^ 63"
    and env: "read_env_ok env" "rest \<noteq> [] \<longrightarrow> ts_alloc env \<noteq> None"
  defines "k \<equiv> min (unat len) (length msg)"
  shows "bldms_read env (word_of_nat (md_array_size s * 4096)) len 0 f s =
     (if k < length msg
      then Inr ((Inr (word_of_nat k), take k msg), file_pos (unat (ndx el)) k, f, s)
      else read_next env (word_of_nat (md_array_size s * 4096)) rest (Inr (word_of_nat k), take k msg) f s)"
proof -
  let ?i = "unat (ndx el)" and ?F = "word_of_nat (md_array_size s * 4096) :: u64"
  obtain el' where V: "length msg \<le> 4086" "unat (el_valid_bytes el') = length msg"
    "list_lookup (valid_blk_list s) (word_of_nat ?i) = Some el'"
    using messages_Some [OF ok m] by metis
  then have "unat (el_valid_bytes el) = length msg" by (simp add: list list_lookup_def)
  then have vb: "el_valid_bytes el = word_of_nat (length msg)" by (metis of_nat_unat ucast_id)
  have sz: "md_array_size s \<le> 1000" using ok by (simp add: driver_ok_def shape_ok_def layout_consts)
  obtain a where a: "private_data f = Some (a, Ktime 0)" "a \<in> live s"
    using at by (auto simp: session_at_def split: option.splits)
  have dev: "word_of_int (sint (file_pos 0 0) sdiv 4096) = (0 :: u32)"
    using block_offset(2) [of 10] by (simp add: file_pos_def)
  have pos: "ucast (ndx el * 4096) + 10 = file_pos ?i 0"
    using pos_of_block [of ?i] listed_small(1) [OF ok, of el] list by simp
  have el: "read_element env ?F el rest (ndx el) (file_pos ?i 0) 10 (word_of_nat l) f (rcu_read_lock s) =
     (if k < length msg
      then Inr ((Inr (word_of_nat k), take k msg), file_pos ?i k, f, s)
      else read_next env ?F rest (Inr (word_of_nat k), take k msg) f s)"
    if "l \<le> 4086" "k = min l (length msg)" for l
  proof -
    have "el \<in> set (valid_blk_list s)" "set rest \<subseteq> set (valid_blk_list s)" "l \<le> 4086 - 0"
      using list that by auto
    from read_element_message [OF ok this(1,2) at m le0 env this(3), of ?F] show ?thesis
      using that(2) by (simp del: of_nat_mult)
  qed
  show ?thesis
  proof (cases "ndx el = 0")
    case True
    have "k = min (min (unat len) 4086) (length msg)" using V by (simp add: k_def)
    then show ?thesis
      using el [of "min (unat len) 4086"] True a list
      by (simp add: bldms_read_def read_clamp_start [OF n sz len] dev Let_def rcu_read_lock_def del: of_nat_mult)
  next
    case False
    let ?m = "min (unat len) 4086"
    have "(word_of_nat (length msg) :: u64) < word_of_nat ?m \<longleftrightarrow> length msg < ?m"
      using V len by (intro u64_order) simp_all
    then have "(if el_valid_bytes el < word_of_nat ?m then el_valid_bytes el else word_of_nat ?m) =
        word_of_nat (min (length msg) ?m)"
      unfolding vb by (simp add: min_def)
    then have find: "read_find (live s) (Some (a, Ktime 0)) 0 (file_pos 0 0) 10 (word_of_nat ?m) (el # rest) =
        Inr (el # rest, ndx el, file_pos ?i 0, 10, word_of_nat (min (length msg) ?m))"
      using False a t pos by simp
    have "k = min (min (length msg) ?m) (length msg)" using V by (auto simp: k_def)
    then show ?thesis
      using el [of "min (length msg) ?m"] V a
      by (simp add: bldms_read_def read_clamp_start [OF n sz len] dev Let_def rcu_read_lock_def list find
          del: of_nat_mult read_find.simps)
  qed
qed

section \<open>Reading the whole device\<close>

text \<open>
  A caller that reads until a read returns zero or an error, and collects what it gets; \<open>None\<close>
  when \<open>k\<close> calls were not enough.
\<close>

fun read_all ::
  "(nat \<Rightarrow> read_env) \<Rightarrow> u64 \<Rightarrow> u64 \<Rightarrow> nat \<Rightarrow> u64 \<Rightarrow> session \<Rightarrow> bldms \<Rightarrow> (fault + bytes list) option" where
  "read_all envs file_sz len 0 off f s = None"
| "read_all envs file_sz len (Suc k) off f s =
     (case bldms_read (envs k) file_sz len off f s of
        Inl e \<Rightarrow> Some (Inl e)
      | Inr ((r, out), off, f, s) \<Rightarrow>
          if r = Inr 0 \<or> isl r then Some (Inr [])
          else map_option (map_sum id ((#) out)) (read_all envs file_sz len k off f s))"

definition elem_message :: "bldms \<Rightarrow> rcu_elem \<Rightarrow> bytes" where
  "elem_message s el = snd (the (messages s (unat (ndx el))))"

text \<open>The calls' environments: all reads succeed, and the \<open>k\<close> allocations are new.\<close>

definition envs_ok :: "(nat \<Rightarrow> read_env) \<Rightarrow> nat \<Rightarrow> addr set \<Rightarrow> bool" where
  "envs_ok envs k lv \<longleftrightarrow> (\<forall>j < k. read_env_ok (envs j) \<and> (\<exists>b. ts_alloc (envs j) = Some b \<and> b \<notin> lv)) \<and>
     inj_on (\<lambda>j. ts_alloc (envs j)) {..<k}"

lemma envs_ok_step:
  assumes "envs_ok envs (Suc k) lv"
  obtains b where "read_env_ok (envs k)" "ts_alloc (envs k) = Some b" "b \<notin> lv"
    "envs_ok envs k (insert b lv - A)"
proof -
  obtain b where b: "read_env_ok (envs k)" "ts_alloc (envs k) = Some b" "b \<notin> lv"
    using assms by (auto simp: envs_ok_def)
  have inj: "inj_on (\<lambda>j. ts_alloc (envs j)) {..<Suc k}" using assms by (simp add: envs_ok_def)
  have "ts_alloc (envs j) \<noteq> Some b" if "j < k" for j
    using inj_onD [OF inj, of j k] b(2) that by auto
  moreover have "\<exists>c. ts_alloc (envs j) = Some c \<and> c \<notin> lv" "read_env_ok (envs j)" if "j < k" for j
    using assms that by (simp_all add: envs_ok_def)
  ultimately have "\<exists>c. ts_alloc (envs j) = Some c \<and> c \<notin> insert b lv - A" "read_env_ok (envs j)" if "j < k" for j
    using that by blast+
  moreover have "inj_on (\<lambda>j. ts_alloc (envs j)) {..<k}" by (rule inj_on_subset [OF inj]) auto
  ultimately have "envs_ok envs k (insert b lv - A)" by (simp add: envs_ok_def)
  with b show thesis by (rule that)
qed

lemma elem_message_messages:
  assumes "driver_ok s" "el \<in> set (valid_blk_list s)"
  shows "messages s (unat (ndx el)) = Some (el_nsec el, elem_message s el)"
proof -
  let ?i = "unat (ndx el)"
  have ix: "index_ok (valid_blk_list s)" using assms by (simp add: driver_ok_def index_inv_def)
  have "list_lookup (valid_blk_list s) (word_of_nat ?i) \<noteq> None"
    using assms(2) by (auto simp: list_lookup_None)
  then obtain ts msg where m: "messages s ?i = Some (ts, msg)"
    using messages_dom [of s ?i] assms listed_small(2) [OF assms] by (auto simp: driver_ok_def shape_ok_def)
  obtain el' where "list_lookup (valid_blk_list s) (word_of_nat ?i) = Some el'" "el_nsec el' = ts"
    using messages_Some [OF assms(1) m] by metis
  moreover from this have "el' = el"
    using list_lookup_Some [of _ _ el'] assms(2) ix by (auto simp: index_ok_def dest: distinct_map_eqD)
  ultimately show ?thesis using m by (simp add: elem_message_def)
qed

text \<open>Sessions only allocate and free: the driver's state stays as it was.\<close>

lemma live_frame:
  assumes "driver_ok s" "set (owned s) \<subseteq> L"
  shows "driver_ok (s\<lparr>live := L\<rparr>)" "messages (s\<lparr>live := L\<rparr>) = messages s" "owned (s\<lparr>live := L\<rparr>) = owned s"
proof -
  show o: "owned (s\<lparr>live := L\<rparr>) = owned s" by (simp add: owned_def)
  have m: "md_objs (s\<lparr>live := L\<rparr>) = md_objs s" "md_at (s\<lparr>live := L\<rparr>) = md_at s"
    by (simp_all add: md_objs_def md_at_def fun_eq_iff)
  then show "messages (s\<lparr>live := L\<rparr>) = messages s" by (simp add: fun_eq_iff messages_def)
  have "shape_ok (s\<lparr>live := L\<rparr>) = shape_ok s" "index_inv (s\<lparr>live := L\<rparr>) = index_inv s"
    "disk_inv (s\<lparr>live := L\<rparr>) = disk_inv s"
    by (simp_all add: shape_ok_def index_inv_def disk_inv_def m)
  with assms o show "driver_ok (s\<lparr>live := L\<rparr>)" by (simp add: driver_ok_def mem_ok_def)
qed

lemma read_at_end: "bldms_read env (word_of_nat F) len (word_of_nat F) f s = Inr ((Inr 0, []), word_of_nat F, f, s)"
  if "F < 2 ^ 62"
proof -
  have "(word_of_nat F :: u64) \<le> word_of_nat F + 8192"
    unfolding u64_numerals u64_arith using that by (subst u64_order) simp_all
  then show ?thesis by (simp add: bldms_read_def read_clamp_def)
qed

lemma read_all_Suc:
  assumes "bldms_read (envs k) file_sz len off f s = Inr ((Inr (word_of_nat m), out), off', f', s')" "0 < m" "m \<le> 4096"
  shows "read_all envs file_sz len (Suc k) off f s = map_option (map_sum id ((#) out)) (read_all envs file_sz len k off' f' s')"
proof -
  have "unat (word_of_nat m :: u64) = m" using assms(3) by simp
  then have "(word_of_nat m :: u64) \<noteq> 0" using assms(2) by (metis unat_0 less_irrefl)
  with assms(1) show ?thesis by simp
qed

definition file_bytes :: "bldms \<Rightarrow> u64" where
  "file_bytes s = word_of_nat (md_array_size s * 4096)"

lemma read_all_end:
  assumes "driver_ok s"
  shows "read_all envs (file_bytes s) len (Suc k) (file_bytes s) f s = Some (Inr [])"
proof -
  have "md_array_size s * 4096 < 2 ^ 62" using assms by (simp add: driver_ok_def shape_ok_def layout_consts)
  from read_at_end [OF this] show ?thesis by (simp add: file_bytes_def del: of_nat_mult)
qed

text \<open>The caller has room for a whole message.\<close>

lemma read_whole_message:
  assumes ok: "driver_ok s" and list: "valid_blk_list s = pre @ el # rest" and at: "session_at f (el_nsec el) s"
    and n: "unat (ndx el) + 2 < md_array_size s" and len: "4086 \<le> unat len" "unat len < 2 ^ 63"
    and env: "read_env_ok env" "rest \<noteq> [] \<longrightarrow> ts_alloc env \<noteq> None"
  shows "bldms_read env (file_bytes s) len (file_pos (unat (ndx el)) 0) f s =
     read_next env (file_bytes s) rest (Inr (word_of_nat (length (elem_message s el))), elem_message s el) f s"
    and "length (elem_message s el) \<le> 4086"
proof -
  have m: "messages s (unat (ndx el)) = Some (el_nsec el, elem_message s el)"
    using elem_message_messages [OF ok] list by simp
  show l: "length (elem_message s el) \<le> 4086" using messages_Some [OF ok m] by metis
  show "bldms_read env (file_bytes s) len (file_pos (unat (ndx el)) 0) f s =
     read_next env (file_bytes s) rest (Inr (word_of_nat (length (elem_message s el))), elem_message s el) f s"
    using read_message_at [OF ok list at index_before [OF ok list] m _ n len(2) env, of 0] l len(1)
    by (simp add: file_bytes_def min_absorb2 del: of_nat_mult)
qed

lemma read_rest:
  assumes "driver_ok s" "valid_blk_list s = pre @ el # rest" "session_at f (el_nsec el) s"
    and "fst (the (private_data f)) \<notin> set (owned s)"
    and "\<forall>x \<in> set (el # rest). unat (ndx x) + 2 < md_array_size s \<and> elem_message s x \<noteq> []"
    and "4086 \<le> unat len" "unat len < 2 ^ 63" "envs_ok envs (length rest + 2) (live s)"
  shows "read_all envs (file_bytes s) len (length rest + 2) (file_pos (unat (ndx el)) 0) f s =
     Some (Inr (map (elem_message s) (el # rest)))"
  using assms
proof (induction rest arbitrary: pre el f s)
  case Nil
  have e: "read_env_ok (envs 1)" using Nil.prems(8) by (simp add: envs_ok_def)
  note r = read_whole_message [OF Nil.prems(1-3) _ Nil.prems(6,7) e]
  have "bldms_read (envs 1) (file_bytes s) len (file_pos (unat (ndx el)) 0) f s =
      Inr ((Inr (word_of_nat (length (elem_message s el))), elem_message s el), file_bytes s, f, s)"
    using r(1) Nil.prems(5) by (simp add: read_next_def)
  from read_all_Suc [where envs = envs and k = 1, OF this] r(2) Nil.prems(5) read_all_end [OF Nil.prems(1), of envs len 0] show ?case
    by (simp del: read_all.simps)
next
  case (Cons x rest)
  define k where "k = length rest + 2"
  obtain a where a: "private_data f = Some (a, el_nsec el)" "a \<in> live s"
    using Cons.prems(3) by (auto simp: session_at_def split: option.splits)
  from Cons.prems(8) have eo: "envs_ok envs (Suc k) (live s)" by (simp add: k_def)
  obtain b where b: "read_env_ok (envs k)" "ts_alloc (envs k) = Some b" "b \<notin> live s"
    "envs_ok envs k (insert b (live s) - {a})"
    by (rule envs_ok_step [OF eo, of "{a}"])
  let ?s = "s\<lparr>live := insert b (live s) - {a}\<rparr>" and ?f = "f\<lparr>private_data := Some (b, el_nsec x)\<rparr>"
  have sub: "set (owned s) \<subseteq> insert b (live s) - {a}" "b \<notin> set (owned s)"
    using Cons.prems(1,4) a b(3) by (auto simp: driver_ok_def mem_ok_def)
  note fr = live_frame [OF Cons.prems(1) sub(1)]
  note r = read_whole_message [OF Cons.prems(1-3) _ Cons.prems(6,7) b(1)]
  have "bldms_read (envs k) (file_bytes s) len (file_pos (unat (ndx el)) 0) f s =
      Inr ((Inr (word_of_nat (length (elem_message s el))), elem_message s el), file_pos (unat (ndx x)) 0, ?f, ?s)"
    using r(1) Cons.prems(5) by (simp add: read_next_def a b(2))
  note step = read_all_Suc [where envs = envs and k = k, OF this]
  have em: "elem_message ?s = elem_message s" "file_bytes ?s = file_bytes s"
    by (simp_all add: elem_message_def fr file_bytes_def fun_eq_iff)
  have "read_all envs (file_bytes ?s) len k (file_pos (unat (ndx x)) 0) ?f ?s =
      Some (Inr (map (elem_message ?s) (x # rest)))"
    unfolding k_def by (rule Cons.IH [OF fr(1), of "pre @ [el]"])
      (use Cons.prems a b sub in \<open>auto simp: session_at_def fr em k_def\<close>)
  moreover have "length (elem_message s el) \<le> 4086" using r(2) b(2) Cons.prems(5) by simp
  ultimately show ?case using step Cons.prems(5) by (simp add: em k_def del: read_all.simps)
qed

lemma read_from_start:
  assumes ok: "driver_ok s" and list: "valid_blk_list s = el # rest" and at: "session_at f (Ktime 0) s"
    and own: "fst (the (private_data f)) \<notin> set (owned s)"
    and t: "Ktime 0 < el_nsec el" and n: "2 < md_array_size s"
    and rest: "\<forall>x \<in> set rest. unat (ndx x) + 2 < md_array_size s"
    and ne: "\<forall>x \<in> set (el # rest). elem_message s x \<noteq> []"
    and len: "4086 \<le> unat len" "unat len < 2 ^ 63" and envs: "envs_ok envs (length rest + 2) (live s)"
  shows "read_all envs (file_bytes s) len (length rest + 2) 0 f s = Some (Inr (map (elem_message s) (el # rest)))"
proof -
  define k where "k = length rest + 1"
  obtain a where a: "private_data f = Some (a, Ktime 0)" "a \<in> live s"
    using at by (auto simp: session_at_def split: option.splits)
  have m: "messages s (unat (ndx el)) = Some (el_nsec el, elem_message s el)"
    using elem_message_messages [OF ok] list by simp
  have l: "length (elem_message s el) \<le> 4086" using messages_Some [OF ok m] by metis
  from envs have "envs_ok envs (Suc k) (live s)" by (simp add: k_def)
  then obtain b where b: "read_env_ok (envs k)" "ts_alloc (envs k) = Some b" "b \<notin> live s"
    "envs_ok envs k (insert b (live s) - {a})"
    by (rule envs_ok_step [of _ _ _ "{a}"])
  have r: "bldms_read (envs k) (file_bytes s) len 0 f s =
      read_next (envs k) (file_bytes s) rest (Inr (word_of_nat (length (elem_message s el))), elem_message s el) f s"
    using read_first_message [OF ok list at m t n len(2) b(1)] b(2) l len(1)
    by (simp add: file_bytes_def min_absorb2 del: of_nat_mult)
  show ?thesis
  proof (cases rest)
    case Nil
    then have "bldms_read (envs k) (file_bytes s) len 0 f s =
        Inr ((Inr (word_of_nat (length (elem_message s el))), elem_message s el), file_bytes s, f, s)"
      using r by (simp add: read_next_def)
    from read_all_Suc [where envs = envs and k = k, OF this] l ne read_all_end [OF ok, of envs len 0] Nil
    show ?thesis by (simp add: k_def del: read_all.simps)
  next
    case (Cons x xs)
    let ?s = "s\<lparr>live := insert b (live s) - {a}\<rparr>" and ?f = "f\<lparr>private_data := Some (b, el_nsec x)\<rparr>"
    have sub: "set (owned s) \<subseteq> insert b (live s) - {a}" "b \<notin> set (owned s)"
      using ok own a b(3) by (auto simp: driver_ok_def mem_ok_def)
    note fr = live_frame [OF ok sub(1)]
    have "bldms_read (envs k) (file_bytes s) len 0 f s =
        Inr ((Inr (word_of_nat (length (elem_message s el))), elem_message s el), file_pos (unat (ndx x)) 0, ?f, ?s)"
      using r by (simp add: read_next_def a b(2) Cons)
    note step = read_all_Suc [where envs = envs and k = k, OF this]
    have em: "elem_message ?s = elem_message s" "file_bytes ?s = file_bytes s"
      by (simp_all add: elem_message_def fr file_bytes_def fun_eq_iff)
    have "read_all envs (file_bytes ?s) len (length xs + 2) (file_pos (unat (ndx x)) 0) ?f ?s =
        Some (Inr (map (elem_message ?s) (x # xs)))"
      by (rule read_rest [OF fr(1), of "[el]"])
        (use list rest ne len a b sub Cons in \<open>auto simp: session_at_def fr em k_def\<close>)
    with step l ne show ?thesis by (simp add: em k_def Cons del: read_all.simps)
  qed
qed

text \<open>At the start of one of the last two blocks a read finds the end of the file.\<close>

lemma read_last_blocks:
  assumes "i + 2 \<ge> n" "i < n" "n \<le> 1000"
  shows "bldms_read env (word_of_nat (n * 4096)) len (file_pos i 0) f s = Inr ((Inr 0, []), file_pos i 0, f, s)"
proof -
  have sum: "file_pos i 0 + 8192 = (word_of_nat (i * 4096 + 10 + 8192) :: u64)" by (simp add: file_pos_def)
  have "(word_of_nat (n * 4096) :: u64) \<le> file_pos i 0 + 8192"
    unfolding sum using assms by (subst u64_order) simp_all
  then show ?thesis by (simp add: bldms_read_def read_clamp_def)
qed

text \<open>
  A position behind the end of the message in its block, as it is left when a longer message was
  read in part, invalidated, and followed by a shorter one in the same block.
\<close>

lemma read_behind_message:
  assumes ok: "driver_ok s" and list: "valid_blk_list s = pre @ el # rest" and at: "session_at f t s"
    and t: "\<forall>x \<in> set pre. el_nsec x \<le> t" and m: "messages s (unat (ndx el)) = Some (el_nsec el, msg)"
    and p: "length msg < p" "p < 4086" and n: "unat (ndx el) + 2 < md_array_size s" and len: "unat len < 2 ^ 63"
  shows "bldms_read env (word_of_nat (md_array_size s * 4096)) len (file_pos (unat (ndx el)) p) f s =
     set_next_blk env (word_of_nat (md_array_size s * 4096)) (uninit_ret env) [] rest (file_pos (unat (ndx el)) p) f (rcu_read_lock s)"
proof -
  let ?i = "unat (ndx el)"
  have ix: "index_ok (pre @ el # rest)" using ok by (simp add: driver_ok_def index_inv_def list)
  have V: "el_valid_bytes el = word_of_nat (length msg)" by (rule listed_length [OF ok _ m]) (simp add: list)
  have i: "?i < 1000" "md_array_size s \<le> 1000"
    using listed_small(1) [OF ok] list ok by (simp_all add: driver_ok_def shape_ok_def layout_consts)
  obtain a where a: "private_data f = Some (a, t)" "a \<in> live s"
    using at by (auto simp: session_at_def split: option.splits)
  have dev: "word_of_int (sint (file_pos ?i p) sdiv 4096) = ndx el"
    using file_pos_block [OF i(1) p(2)] by simp
  have find: "read_find (live s) (Some (a, t)) (ndx el) off offset l (pre @ el # rest) = Inr (el # rest, ndx el, off, offset, l)"
    for off offset l using index_prefix [OF ix] t by (intro read_find_here [OF _ a(2)]) auto
  have "word_of_nat (10 + p) - 10 = (word_of_nat p :: u64)" by simp
  moreover have "(word_of_nat (length msg) :: u64) < word_of_nat p" using p by (subst u64_order) simp_all
  ultimately have "el_valid_bytes el < word_of_nat (10 + p) - 10" by (simp only: V)
  then show ?thesis
    using find a list
    by (simp add: bldms_read_def read_clamp_pos [OF n i(2) p(2) len] dev Let_def rcu_read_lock_def read_element_def
        del: of_nat_add of_nat_mult)
qed

text \<open>
  \<open>llseek\<close> to the beginning of the file restarts the delivery: it leaves the driver's content
  alone, exchanges the session's memory for a new object of its own, and the session waits for
  the first message from position zero, as one just opened does.
\<close>

lemma llseek_restarts_session:
  assumes ok: "driver_ok s" and f: "private_data f = Some (a, t)" "a \<in> live s" "a \<notin> set (owned s)" and b: "b \<notin> live s"
  shows "\<exists>f' s'. bldms_llseek (Some b) 0 SEEK_SET f s = Inr (Inr 0, f', s') \<and> f_pos f' = 0 \<and>
     session_at f' (Ktime 0) s' \<and> driver_ok s' \<and> messages s' = messages s \<and>
     live s' = insert b (live s - {a}) \<and> b \<notin> set (owned s')"
proof -
  let ?s = "s\<lparr>live := insert b (live s - {a})\<rparr>"
  have sub: "set (owned s) \<subseteq> insert b (live s - {a})" "b \<notin> set (owned s)" "a \<noteq> b"
    using ok f b by (auto simp: driver_ok_def mem_ok_def)
  have "bldms_llseek (Some b) 0 SEEK_SET f s = Inr (Inr 0, f\<lparr>private_data := Some (b, Ktime 0), f_pos := 0\<rparr>, ?s)"
    using ok f sub(3)
    by (simp add: bldms_llseek_def driver_ok_def shape_ok_def free_private_def kzalloc_def insert_Diff_if)
  then show ?thesis using live_frame [OF ok sub(1)] sub(2) by (simp add: session_at_def)
qed

text \<open>
  \<open>open\<close> and \<open>release\<close> balance: a session opened on a mounted device and released again leaves
  the driver's state, the allocated memory and the module's usage count as they were, in every
  access mode.
\<close>

lemma open_release_balance:
  assumes "bldms_mounted s" "a \<notin> live s"
  shows "\<exists>f'. bldms_open (Some a) f refs s = (Inr (), f', refs + 1, if readable f then kzalloc a s else s) \<and>
     bldms_release f' (refs + 1) (if readable f then kzalloc a s else s) = Inr (Inr (), refs, s)"
  using assms
  by (auto simp: bldms_open_def bldms_release_def readable_def free_private_def kzalloc_def Let_def)

end
