(* ===== verification/Concurrency.thy ===== *)
theory Concurrency
  imports Rcu_Pointers File_Ops
begin

text \<open>
  Concurrent callers of the three system calls and of the file operations. A call is cut where
  other threads can see its effects: \<open>put_data\<close> before it takes the spinlock, between the write of
  the block and the publication of its list element, and after the release of the lock;
  \<open>invalidate_data\<close> around its critical section and its wait for a grace period; \<open>get_data\<close> and
  \<open>bldms_read\<close> at every step of their walks along the links and before the copy of the block, and
  \<open>bldms_read\<close> once more before it looks for the next element. Any number of threads take these
  steps in any order. A thread has at most one open file, which no other thread uses.

  The step functions are those of the sequential calls, cut up; the first section shows that
  putting the pieces together gives the calls of the theory \<open>Syscalls\<close>.
\<close>

section \<open>The pieces of the calls\<close>

text \<open>\<open>put_data\<close> up to the acquisition of the lock.\<close>

definition put_enter :: "put_env \<Rightarrow> bytes \<Rightarrow> bldms \<Rightarrow> fault + (addr \<times> addr \<times> addr) sysret \<times> bldms" where
  "put_enter env source s =
     (if \<not> bldms_mounted s then Inr (Inl ENODEV, s)
      else if length source > DEFAULT_BLOCK_SIZE - METADATA_SIZE then Inr (Inl E2BIG, s)
      else if \<not> the_dev_superblock s then Inr (Inl EINVAL, s)
      else case buffer_alloc env of
        None \<Rightarrow> Inr (Inl EADDRNOTAVAIL, s)
      | Some b \<Rightarrow>
          let s = kzalloc b s in
          if not_copied env \<noteq> 0 then andThen (kfree b s) (\<lambda>s. Inr (Inl EMSGSIZE, s))
          else case elem_alloc env of
            None \<Rightarrow> andThen (kfree b s) (\<lambda>s. Inr (Inl EADDRNOTAVAIL, s))
          | Some e \<Rightarrow>
              let s = kzalloc e s in
              case md_alloc env of
                None \<Rightarrow> andThen (kfree_all [b, e] s) (\<lambda>s. Inr (Inl EADDRNOTAVAIL, s))
              | Some m \<Rightarrow> Inr (Inr (b, e, m), kzalloc m s))"

text \<open>Inside the lock: the choice of the block and the write to the device,\<close>

definition put_write ::
  "(nat \<Rightarrow> bool) \<Rightarrow> addr \<Rightarrow> addr \<Rightarrow> md_obj \<Rightarrow> bytes \<Rightarrow> bldms \<Rightarrow> fault + nat sysret \<times> bldms" where
  "put_write br b e new buffer s =
     andThen (find_target s) (\<lambda>target.
     case target of
       None \<Rightarrow>
         andThen (kfree_all [e, b, md_addr new] (spin_unlock s)) (\<lambda>s. Inr (Inl ENOMEM, s))
     | Some t \<Rightarrow>
         case metadata_array s of
           None \<Rightarrow> Inl NullDeref
         | Some arr \<Rightarrow>
             if \<not> br (t + NUM_METADATA_BLKS) then
               andThen (kfree_all [e, b, md_addr new, md_addr (arr_elems arr ! t)] (spin_unlock s))
                 (\<lambda>s. Inr (Inl EPERM, s))
             else Inr (Inr t, s\<lparr>disk := (disk s)(t + NUM_METADATA_BLKS := buffer)\<rparr>))"

text \<open>and the publication, the release of the lock and the freeing of what is no longer used.\<close>

definition put_publish :: "addr \<Rightarrow> addr \<Rightarrow> md_obj \<Rightarrow> nat \<Rightarrow> bldms \<Rightarrow> fault + bldms" where
  "put_publish b e new t s =
     (case metadata_array s of
        None \<Rightarrow> Inl NullDeref
      | Some arr \<Rightarrow>
          let old = md_addr (arr_elems arr ! t);
              s = add_valid_block_in_order_secure e (word_of_nat t)
                    (ucast (valid_bytes (md_blk new))) (nsec (md_blk new)) s;
              s = s\<lparr>metadata_array := Some (arr\<lparr>arr_elems := (arr_elems arr)[t := new]\<rparr>),
                    last_written_block := word_of_nat t\<rparr>
          in kfree_all [b, old] (spin_unlock s))"

lemma put_data_critical_steps:
  "put_data_critical br b e new buffer s =
     andThen (put_write br b e new buffer s) (\<lambda>(r, s). case r of
       Inl err \<Rightarrow> Inr (Inl err, s)
     | Inr t \<Rightarrow> andThen (put_publish b e new t s) (\<lambda>s. Inr (Inr t, s)))"
proof (cases "find_target s")
  case (Inr target)
  then show ?thesis
  proof (cases target)
    case None
    show ?thesis
      unfolding put_data_critical_def put_write_def Inr None
      by (cases "kfree_all [e, b, md_addr new] (spin_unlock s)") simp_all
  next
    case (Some t)
    show ?thesis
    proof (cases "metadata_array s")
      case (Some arr)
      show ?thesis
        unfolding put_data_critical_def put_write_def put_publish_def Inr \<open>target = Some t\<close>
        by (cases "kfree_all [e, b, md_addr new, md_addr (arr_elems arr ! t)] (spin_unlock s)")
          (simp_all add: Some Let_def add_valid_block_in_order_secure_def del: kfree_all.simps)
    qed (simp add: put_data_critical_def put_write_def Inr \<open>target = Some t\<close>)
  qed
qed (simp add: put_data_critical_def put_write_def)

lemma andThen_assoc: "andThen (andThen r f) g = andThen r (\<lambda>x. andThen (f x) g)"
  by (cases r) simp_all

lemma put_data_steps:
  "put_data env source s =
     andThen (put_enter env source s) (\<lambda>(r, s). case r of
       Inl err \<Rightarrow> Inr (Inl err, s)
     | Inr (b, e, m) \<Rightarrow>
         andThen (spin_lock s) (\<lambda>s.
         andThen (put_write (bread env) b e (put_obj env source m) (put_buffer env source) s) (\<lambda>(r, s). case r of
           Inl err \<Rightarrow> Inr (Inl err, s)
         | Inr t \<Rightarrow> andThen (put_publish b e (put_obj env source m) t s) (\<lambda>s. Inr (Inr t, s)))))"
  unfolding put_data_critical_steps [symmetric]
  by (simp add: put_data_def put_enter_def put_obj_def put_buffer_def andThen_assoc Let_def split: option.split)

text \<open>\<open>get_data\<close>: the checks, and what follows the search of the list.\<close>

definition get_enter :: "u32 \<Rightarrow> bldms \<Rightarrow> unit sysret" where
  "get_enter offset s =
     (if \<not> bldms_mounted s then Inl ENODEV
      else if unat (scast offset :: u64) \<ge> md_array_size s then Inl E2BIG
      else if \<not> the_dev_superblock s then Inl EINVAL
      else Inr ())"

definition get_copy :: "get_env \<Rightarrow> u32 \<Rightarrow> u64 \<Rightarrow> rcu_elem \<Rightarrow> bldms \<Rightarrow> fault + (u64 \<times> bytes) sysret" where
  "get_copy env offset sz el s =
     (let target_block = offset + word_of_nat NUM_METADATA_BLKS in
      if \<not> get_bread env (unat target_block) then Inr (Inl EPERM)
      else
        let b = bytes_to_copy (el_valid_bytes el) sz;
            n = unat (scast b :: u64);
            r = uncopied env n
        in if METADATA_SIZE + n > DEFAULT_BLOCK_SIZE then Inl OutOfBounds
           else Inr (Inr (scast b - word_of_nat r, take (n - r) (drop METADATA_SIZE (disk s (unat target_block))))))"

lemma get_data_steps:
  "get_data env offset sz s =
     (case get_enter offset s of
        Inl err \<Rightarrow> Inr (Inl err, s)
      | Inr _ \<Rightarrow>
          (case list_lookup (valid_blk_list s) offset of
             None \<Rightarrow> Inr (Inl ENODATA, s)
           | Some el \<Rightarrow> andThen (get_copy env offset sz el s) (\<lambda>r. Inr (r, s))))"
  by (simp add: get_data_def get_enter_def get_copy_def rcu_read_lock_def rcu_read_unlock_def Let_def split: option.split)

definition inv_enter :: "u32 \<Rightarrow> bldms \<Rightarrow> unit sysret" where
  "inv_enter offset s =
     (if \<not> bldms_mounted s then Inl ENODEV
      else if unat (scast offset :: u64) \<ge> md_array_size s then Inl E2BIG
      else Inr ())"

lemma invalidate_data_steps:
  "invalidate_data br offset s =
     (case inv_enter offset s of
        Inl err \<Rightarrow> Inr (Inl err, s)
      | Inr _ \<Rightarrow>
          andThen (spin_lock s) (\<lambda>s.
          andThen (invalidate_critical br offset s) (\<lambda>(r, s). case r of
            Inl err \<Rightarrow> Inr (Inl err, s)
          | Inr el \<Rightarrow>
              andThen (synchronize_rcu s) (\<lambda>s.
              andThen (kfree (el_addr el) s) (\<lambda>s. Inr (Inr (), s))))))"
  by (simp add: invalidate_data_def inv_enter_def)

text \<open>The search looks at one element after the other.\<close>

lemma read_find_steps:
  "read_find lv ts blk off offset len (el # rest) =
     andThen (read_find lv ts blk off offset len [el]) (\<lambda>(els, blk', off', offset', len').
       if els = [] then read_find lv ts blk off offset len rest
       else Inr (els @ rest, blk', off', offset', len'))"
  by (simp split: option.split)

section \<open>Threads\<close>

text \<open>
  Where a thread stands. \<open>PutWrote\<close> holds the lock. \<open>Walks\<close> and \<open>Reads\<close> are inside a read-side
  critical section: \<open>Walks\<close> has the node the walk has reached, and \<open>Reads\<close> the element it has
  found. \<open>RWalks\<close>, \<open>RFound\<close> and \<open>RNext\<close> are the same for \<open>bldms_read\<close>: on its way, at the element to
  read, and after the copy. \<open>Removed\<close> has taken an element out of the list and \<open>Syncs\<close> waits in \<open>synchronize_rcu\<close> for
  the sections that were open when it was called to end. Two components serve the proofs only:
  the last one of \<open>Walks\<close> holds the nodes that have been in the list ever since the section
  began, the set of \<open>Removed\<close> and the first set of \<open>Syncs\<close> the sections, still open, that began
  before the removal.
\<close>

text \<open>The local variables of a \<open>bldms_read\<close>: the block, the position, the offset in the block, the length.\<close>

record reading =
  rd_env :: read_env
  rd_blk :: u32
  rd_off :: u64
  rd_offset :: u64
  rd_len :: u64

datatype file_reply =
    Opened "unit sysret"
  | Delivered "(u64 \<times> bytes) sysret"
  | Sought "u64 sysret"
  | Closed "unit sysret"

datatype thread =
    Idle
  | PutWaits put_env bytes addr addr addr
  | PutWrote put_env bytes addr addr addr nat
  | Walks get_env u32 u64 "addr option" "addr set"
  | Reads get_env u32 u64 rcu_elem
  | InvWaits "nat \<Rightarrow> bool" u32
  | Removed rcu_elem "nat set"
  | Syncs rcu_elem "nat set" "nat set"
  | Done reply
  | RWalks reading "addr option"
  | RFound reading rcu_elem
  | RNext reading u32 bytes rcu_elem
  | FileDone file_reply

text \<open>
  The shared state: the driver's, the links and the contents of the list elements by address, and
  the open file of each thread. The component \<open>undo\<close> serves the proofs: the block that was written and not yet published, with
  what it held before.
\<close>

record conc =
  drv :: bldms
  nxt :: links
  heap :: "addr \<Rightarrow> rcu_elem"
  undo :: "(nat \<times> bytes) option"
  threads :: "nat \<Rightarrow> thread"
  sessions :: "nat \<Rightarrow> session option"

fun in_section :: "thread \<Rightarrow> bool" where
  "in_section (Walks env offset sz p M) = True"
| "in_section (Reads env offset sz el) = True"
| "in_section (RWalks rd p) = True"
| "in_section (RFound rd el) = True"
| "in_section (RNext rd ret out el) = True"
| "in_section _ = False"

definition readers :: "conc \<Rightarrow> nat set" where
  "readers c = {i. in_section (threads c i)}"

definition move :: "nat \<Rightarrow> thread \<Rightarrow> conc \<Rightarrow> conc" where
  "move i th c = c\<lparr>threads := (threads c)(i := th)\<rparr>"

text \<open>The end of the read-side section of thread \<open>i\<close>: no grace period waits for it any longer.\<close>

fun forget :: "nat \<Rightarrow> thread \<Rightarrow> thread" where
  "forget i (Removed el S) = Removed el (S - {i})"
| "forget i (Syncs el S W) = Syncs el (S - {i}) (W - {i})"
| "forget i th = th"

definition leave :: "nat \<Rightarrow> thread \<Rightarrow> conc \<Rightarrow> conc" where
  "leave i th c = c\<lparr>threads := (\<lambda>j. forget i (threads c j))(i := th)\<rparr>"

definition set_session :: "nat \<Rightarrow> session option \<Rightarrow> conc \<Rightarrow> conc" where
  "set_session i f c = c\<lparr>sessions := (sessions c)(i := f)\<rparr>"

fun unlist :: "addr \<Rightarrow> thread \<Rightarrow> thread" where
  "unlist a (Walks env offset sz p M) = Walks env offset sz p (M - {a})"
| "unlist a th = th"

definition listed :: "conc \<Rightarrow> addr set" where
  "listed c = el_addr ` set (valid_blk_list (drv c))"

section \<open>Steps\<close>

definition put_call :: "nat \<Rightarrow> put_env \<Rightarrow> bytes \<Rightarrow> conc \<Rightarrow> fault + conc" where
  "put_call i env source c =
     andThen (put_enter env source (drv c)) (\<lambda>(r, s).
     Inr (move i (case r of Inl err \<Rightarrow> Done (Stored (Inl err)) | Inr (b, e, m) \<Rightarrow> PutWaits env source b e m)
       (c\<lparr>drv := s\<rparr>)))"

definition put_lock :: "nat \<Rightarrow> put_env \<Rightarrow> bytes \<Rightarrow> addr \<Rightarrow> addr \<Rightarrow> addr \<Rightarrow> conc \<Rightarrow> fault + conc" where
  "put_lock i env source b e m c =
     andThen (spin_lock (drv c)) (\<lambda>s.
     andThen (put_write (bread env) b e (put_obj env source m) (put_buffer env source) s) (\<lambda>(r, s).
     Inr (case r of
         Inl err \<Rightarrow> move i (Done (Stored (Inl err))) (c\<lparr>drv := s\<rparr>)
       | Inr t \<Rightarrow> move i (PutWrote env source b e m t)
           (c\<lparr>drv := s, undo := Some (t, disk (drv c) (t + NUM_METADATA_BLKS))\<rparr>))))"

definition put_elem :: "addr \<Rightarrow> nat \<Rightarrow> md_obj \<Rightarrow> rcu_elem" where
  "put_elem e t new = rcu_fill e (word_of_nat t) (ucast (valid_bytes (md_blk new))) (nsec (md_blk new))"

definition put_unlock :: "nat \<Rightarrow> put_env \<Rightarrow> bytes \<Rightarrow> addr \<Rightarrow> addr \<Rightarrow> addr \<Rightarrow> nat \<Rightarrow> conc \<Rightarrow> fault + conc" where
  "put_unlock i env source b e m t c =
     andThen (put_publish b e (put_obj env source m) t (drv c)) (\<lambda>s.
     let el = put_elem e t (put_obj env source m) in
     Inr (move i (Done (Stored (Inr t)))
       (c\<lparr>drv := s, undo := None, heap := (heap c)(e := el),
          nxt := list_add_rcu e (insert_prev el (valid_blk_list (drv c))) (nxt c)\<rparr>)))"

definition get_call :: "nat \<Rightarrow> get_env \<Rightarrow> u32 \<Rightarrow> u64 \<Rightarrow> conc \<Rightarrow> fault + conc" where
  "get_call i env offset sz c =
     Inr (move i (case get_enter offset (drv c) of
         Inl err \<Rightarrow> Done (Fetched (Inl err))
       | Inr _ \<Rightarrow> Walks env offset sz None (listed c)) c)"

text \<open>
  One step of the walk: the link of the node is read, then the block number of the node it leads
  to. Both nodes have to be allocated.
\<close>

definition get_walk :: "nat \<Rightarrow> get_env \<Rightarrow> u32 \<Rightarrow> u64 \<Rightarrow> addr option \<Rightarrow> addr set \<Rightarrow> conc \<Rightarrow> fault + conc" where
  "get_walk i env offset sz p M c =
     andThen (case p of
        Some a \<Rightarrow> if a \<notin> live (drv c) then Inl (UseAfterFree a) else Inr ()
      | None \<Rightarrow> Inr ()) (\<lambda>_.
     case nxt c p of
       None \<Rightarrow> Inr (leave i (Done (Fetched (Inl ENODATA))) c)
     | Some a \<Rightarrow>
         if a \<notin> live (drv c) then Inl (UseAfterFree a)
         else if ndx (heap c a) = offset then Inr (move i (Reads env offset sz (heap c a)) c)
         else Inr (move i (Walks env offset sz (Some a) M) c))"

definition get_read :: "nat \<Rightarrow> get_env \<Rightarrow> u32 \<Rightarrow> u64 \<Rightarrow> rcu_elem \<Rightarrow> conc \<Rightarrow> fault + conc" where
  "get_read i env offset sz el c =
     andThen (get_copy env offset sz el (drv c)) (\<lambda>r. Inr (leave i (Done (Fetched r)) c))"

text \<open>
  The file operations. \<open>open\<close>, \<open>llseek\<close> and \<open>release\<close> touch the memory of the session only and are
  one step each.
\<close>

definition open_call :: "nat \<Rightarrow> addr option \<Rightarrow> accmode \<Rightarrow> conc \<Rightarrow> fault + conc" where
  "open_call i alloc m c =
     (let (r, f, _, s) = bldms_open alloc \<lparr>f_mode = m, f_pos = 0, private_data = None\<rparr> 0 (drv c)
      in Inr (move i (FileDone (Opened r)) (set_session i (if isl r then None else Some f) (c\<lparr>drv := s\<rparr>))))"

definition seek_call :: "nat \<Rightarrow> addr option \<Rightarrow> u64 \<Rightarrow> whence \<Rightarrow> session \<Rightarrow> conc \<Rightarrow> fault + conc" where
  "seek_call i alloc off wh f c =
     andThen (bldms_llseek alloc off wh f (drv c)) (\<lambda>(r, f, s).
     Inr (move i (FileDone (Sought r)) (set_session i (Some f) (c\<lparr>drv := s\<rparr>))))"

definition close_call :: "nat \<Rightarrow> session \<Rightarrow> conc \<Rightarrow> fault + conc" where
  "close_call i f c =
     andThen (bldms_release f 1 (drv c)) (\<lambda>(r, _, s).
     Inr (move i (FileDone (Closed r)) (set_session i None (c\<lparr>drv := s\<rparr>))))"

text \<open>The end of a read: the kernel stores the position back unless there was an error.\<close>

definition read_reply :: "nat \<Rightarrow> u64 sysret \<times> bytes \<Rightarrow> u64 \<Rightarrow> session \<Rightarrow> conc \<Rightarrow> conc" where
  "read_reply i r off f c =
     (case fst r of
        Inl e \<Rightarrow> leave i (FileDone (Delivered (Inl e))) (set_session i (Some f) c)
      | Inr n \<Rightarrow> leave i (FileDone (Delivered (Inr (n, snd r)))) (set_session i (Some (f\<lparr>f_pos := off\<rparr>)) c))"

definition read_call :: "nat \<Rightarrow> read_env \<Rightarrow> u64 \<Rightarrow> session \<Rightarrow> conc \<Rightarrow> fault + conc" where
  "read_call i env len f c =
     Inr (case read_clamp (file_bytes (drv c)) (f_pos f) len of
        None \<Rightarrow> move i (FileDone (Delivered (Inr (0, [])))) c
      | Some (off, offset, len) \<Rightarrow>
          move i (RWalks \<lparr>rd_env = env, rd_blk = word_of_int (sint off sdiv 4096), rd_off = off,
                   rd_offset = offset, rd_len = len\<rparr> None) c)"

definition read_walk :: "nat \<Rightarrow> reading \<Rightarrow> addr option \<Rightarrow> session \<Rightarrow> conc \<Rightarrow> fault + conc" where
  "read_walk i rd p f c =
     andThen (case p of
        Some a \<Rightarrow> if a \<notin> live (drv c) then Inl (UseAfterFree a) else Inr ()
      | None \<Rightarrow> Inr ()) (\<lambda>_.
     case nxt c p of
       None \<Rightarrow> Inr (read_reply i (Inr 0, []) (file_bytes (drv c)) f c)
     | Some a \<Rightarrow>
         if a \<notin> live (drv c) then Inl (UseAfterFree a)
         else
           andThen (read_find (live (drv c)) (private_data f) (rd_blk rd) (rd_off rd) (rd_offset rd) (rd_len rd) [heap c a])
             (\<lambda>(els, blk, off, offset, len).
             Inr (move i (if els = [] then RWalks rd (Some a)
               else RFound (rd\<lparr>rd_blk := blk, rd_off := off, rd_offset := offset, rd_len := len\<rparr>) (heap c a)) c)))"

definition read_copy :: "nat \<Rightarrow> reading \<Rightarrow> rcu_elem \<Rightarrow> session \<Rightarrow> conc \<Rightarrow> fault + conc" where
  "read_copy i rd el f c =
     andThen (read_block (rd_env rd) el (rd_blk rd) (rd_off rd) (rd_offset rd) (rd_len rd) (disk (drv c))) (\<lambda>r.
     Inr (case r of
         Inl (r, off) \<Rightarrow> read_reply i r off f c
       | Inr (ret, out) \<Rightarrow> move i (RNext rd ret out el) c))"

text \<open>The memory for the next timestamp is what the allocator has at this moment.\<close>

definition read_advance ::
  "nat \<Rightarrow> addr option \<Rightarrow> reading \<Rightarrow> u32 \<Rightarrow> bytes \<Rightarrow> rcu_elem \<Rightarrow> session \<Rightarrow> conc \<Rightarrow> fault + conc" where
  "read_advance i alloc rd ret out el f c =
     (if el_addr el \<notin> live (drv c) then Inl (UseAfterFree (el_addr el))
      else
        andThen (case nxt c (Some (el_addr el)) of
            None \<Rightarrow> Inr []
          | Some a \<Rightarrow> if a \<notin> live (drv c) then Inl (UseAfterFree a) else Inr [heap c a]) (\<lambda>rest.
        andThen (set_next_blk ((rd_env rd)\<lparr>ts_alloc := alloc\<rparr>) (file_bytes (drv c)) ret out rest (rd_off rd) f
            (rcu_read_lock (drv c))) (\<lambda>(r, off, f, s).
        Inr (read_reply i r off f (c\<lparr>drv := s\<rparr>)))))"

definition inv_call :: "nat \<Rightarrow> (nat \<Rightarrow> bool) \<Rightarrow> u32 \<Rightarrow> conc \<Rightarrow> fault + conc" where
  "inv_call i br offset c =
     Inr (move i (case inv_enter offset (drv c) of
         Inl err \<Rightarrow> Done (Invalidated (Inl err))
       | Inr _ \<Rightarrow> InvWaits br offset) c)"

definition inv_lock :: "nat \<Rightarrow> (nat \<Rightarrow> bool) \<Rightarrow> u32 \<Rightarrow> conc \<Rightarrow> fault + conc" where
  "inv_lock i br offset c =
     andThen (spin_lock (drv c)) (\<lambda>s.
     andThen (invalidate_critical br offset s) (\<lambda>(r, s).
     Inr (case r of
         Inl err \<Rightarrow> move i (Done (Invalidated (Inl err))) (c\<lparr>drv := s\<rparr>)
       | Inr el \<Rightarrow>
           let a = el_addr el in
           move i (Removed el (readers c))
             (c\<lparr>drv := s, nxt := list_del_rcu a (prev_in None a (map el_addr (valid_blk_list (drv c)))) (nxt c),
                threads := (\<lambda>j. unlist a (threads c j))\<rparr>))))"

text \<open>\<open>synchronize_rcu\<close> waits for the sections that are open when it is called.\<close>

definition inv_wait :: "nat \<Rightarrow> rcu_elem \<Rightarrow> nat set \<Rightarrow> conc \<Rightarrow> fault + conc" where
  "inv_wait i el S c = Inr (move i (Syncs el S (readers c)) c)"

definition inv_free :: "nat \<Rightarrow> rcu_elem \<Rightarrow> conc \<Rightarrow> fault + conc" where
  "inv_free i el c =
     andThen (kfree (el_addr el) (drv c)) (\<lambda>s. Inr (move i (Done (Invalidated (Inr ()))) (c\<lparr>drv := s\<rparr>)))"

text \<open>
  What the steps of the file operations rely on: an allocation returns unused memory, a partial
  copy to the caller leaves at most what it was given, and the kernel refuses lengths that are
  negative as a signed number, and reads of a file that is not open for reading.
\<close>

definition unused :: "addr option \<Rightarrow> bldms \<Rightarrow> bool" where
  "unused alloc s \<longleftrightarrow> (case alloc of None \<Rightarrow> True | Some a \<Rightarrow> fresh s a)"

definition read_ok :: "read_env \<Rightarrow> u64 \<Rightarrow> session \<Rightarrow> bool" where
  "read_ok env len f \<longleftrightarrow> readable f \<and> unat len < 2 ^ 63 \<and> (\<forall>n \<le> 4086. to_user env n \<le> n)"

text \<open>
  The step relation: the thread \<open>i\<close>, when it has no call, makes one, or it takes the next step of
  its call. The lock and the end of a grace period are waited for.
\<close>

inductive cstep :: "conc \<Rightarrow> nat \<Rightarrow> fault + conc \<Rightarrow> bool" for c i where
  step_put: "threads c i = Idle \<Longrightarrow> call_ok (Put env source) (drv c) \<Longrightarrow> cstep c i (put_call i env source c)"
| step_put_lock: "threads c i = PutWaits env source b e m \<Longrightarrow> \<not> rcu_write_lock (drv c) \<Longrightarrow>
    cstep c i (put_lock i env source b e m c)"
| step_put_unlock: "threads c i = PutWrote env source b e m t \<Longrightarrow> cstep c i (put_unlock i env source b e m t c)"
| step_get: "threads c i = Idle \<Longrightarrow> call_ok (Get env offset sz) (drv c) \<Longrightarrow> cstep c i (get_call i env offset sz c)"
| step_walk: "threads c i = Walks env offset sz p M \<Longrightarrow> cstep c i (get_walk i env offset sz p M c)"
| step_read: "threads c i = Reads env offset sz el \<Longrightarrow> cstep c i (get_read i env offset sz el c)"
| step_inv: "threads c i = Idle \<Longrightarrow> cstep c i (inv_call i br offset c)"
| step_inv_lock: "threads c i = InvWaits br offset \<Longrightarrow> \<not> rcu_write_lock (drv c) \<Longrightarrow> cstep c i (inv_lock i br offset c)"
| step_inv_wait: "threads c i = Removed el S \<Longrightarrow> cstep c i (inv_wait i el S c)"
| step_inv_free: "threads c i = Syncs el S {} \<Longrightarrow> cstep c i (inv_free i el c)"
| step_return: "threads c i = Done r \<Longrightarrow> cstep c i (Inr (move i Idle c))"
| step_open: "threads c i = Idle \<Longrightarrow> sessions c i = None \<Longrightarrow> unused alloc (drv c) \<Longrightarrow> cstep c i (open_call i alloc m c)"
| step_seek: "threads c i = Idle \<Longrightarrow> sessions c i = Some f \<Longrightarrow> unused alloc (drv c) \<Longrightarrow>
    cstep c i (seek_call i alloc off wh f c)"
| step_close: "threads c i = Idle \<Longrightarrow> sessions c i = Some f \<Longrightarrow> cstep c i (close_call i f c)"
| step_read_call: "threads c i = Idle \<Longrightarrow> sessions c i = Some f \<Longrightarrow> read_ok env len f \<Longrightarrow>
    cstep c i (read_call i env len f c)"
| step_read_walk: "threads c i = RWalks rd p \<Longrightarrow> sessions c i = Some f \<Longrightarrow> cstep c i (read_walk i rd p f c)"
| step_read_copy: "threads c i = RFound rd el \<Longrightarrow> sessions c i = Some f \<Longrightarrow> cstep c i (read_copy i rd el f c)"
| step_read_next: "threads c i = RNext rd ret out el \<Longrightarrow> sessions c i = Some f \<Longrightarrow> unused alloc (drv c) \<Longrightarrow>
    cstep c i (read_advance i alloc rd ret out el f c)"
| step_file_return: "threads c i = FileDone r \<Longrightarrow> cstep c i (Inr (move i Idle c))"

definition conc_step :: "conc \<Rightarrow> fault + conc \<Rightarrow> bool" where
  "conc_step c r \<longleftrightarrow> (\<exists>i. cstep c i r)"

end
