(* ===== verification/Concurrency_Inv.thy ===== *)
theory Concurrency_Inv
  imports Concurrency
begin

text \<open>
  The invariant of the concurrent system and its proof. Between the write of a block and its
  publication the device is ahead of the driver's structures; \<open>settled\<close> is the driver's state
  with that write taken back, and it is that state in which the driver's own invariant holds at
  all times. What the threads hold of the memory is disjoint from it. A reader may stand on a
  node that is in the list or that was removed after its section began (\<open>visible\<close>), and the links
  never lead it to any other node; those nodes stay allocated, because a grace period ends only
  when the readers that can see the removed node have left.
\<close>

section \<open>The invariant\<close>

definition settled :: "conc \<Rightarrow> bldms" where
  "settled c = (drv c)\<lparr>rcu_write_lock := False,
     disk := (case undo c of None \<Rightarrow> disk (drv c) | Some (t, old) \<Rightarrow> (disk (drv c))(t + NUM_METADATA_BLKS := old))\<rparr>"

fun held :: "thread \<Rightarrow> addr list" where
  "held (PutWaits env source b e m) = [b, e, m]"
| "held (PutWrote env source b e m t) = [b, e, m]"
| "held (Removed el S) = [el_addr el]"
| "held (Syncs el S W) = [el_addr el]"
| "held _ = []"

text \<open>The memory of an open file, and all that a thread holds.\<close>

definition keeps :: "session option \<Rightarrow> addr list" where
  "keeps f = (case Option.bind f private_data of None \<Rightarrow> [] | Some (a, t) \<Rightarrow> [a])"

definition holds :: "conc \<Rightarrow> nat \<Rightarrow> addr list" where
  "holds c i = held (threads c i) @ keeps (sessions c i)"

definition mem_inv :: "conc \<Rightarrow> bool" where
  "mem_inv c \<longleftrightarrow> (\<forall>i. distinct (holds c i) \<and> set (holds c i) \<subseteq> foreign (settled c)) \<and>
     (\<forall>i j. i \<noteq> j \<longrightarrow> set (holds c i) \<inter> set (holds c j) = {})"

text \<open>A file that is open for reading has its timestamp, and its position is not behind the last block.\<close>

definition descriptor_ok :: "session \<Rightarrow> bool" where
  "descriptor_ok f \<longleftrightarrow> (private_data f \<noteq> None \<longleftrightarrow> readable f) \<and> unat (f_pos f) \<le> 4096000"

definition session_inv :: "conc \<Rightarrow> bool" where
  "session_inv c \<longleftrightarrow> (\<forall>i f. sessions c i = Some f \<longrightarrow> descriptor_ok f)"

definition put_args_ok :: "put_env \<Rightarrow> bytes \<Rightarrow> conc \<Rightarrow> bool" where
  "put_args_ok env source c \<longleftrightarrow> length source \<le> DEFAULT_BLOCK_SIZE - METADATA_SIZE \<and>
     put_env_error env = None \<and> (\<forall>i < md_array_size (drv c). bread env (i + NUM_METADATA_BLKS))"

fun wrote :: "thread \<Rightarrow> (put_env \<times> bytes \<times> nat) option" where
  "wrote (PutWrote env source b e m t) = Some (env, source, t)"
| "wrote _ = None"

text \<open>The lock is held exactly while one thread has a block written and not yet published.\<close>

definition lock_inv :: "conc \<Rightarrow> bool" where
  "lock_inv c \<longleftrightarrow>
     (case undo c of
        None \<Rightarrow> \<not> rcu_write_lock (drv c) \<and> (\<forall>i. wrote (threads c i) = None)
      | Some (t, old) \<Rightarrow> rcu_write_lock (drv c) \<and> find_target (settled c) = Inr (Some t) \<and>
          (\<exists>i env source. wrote (threads c i) = Some (env, source, t) \<and>
             disk (drv c) (t + NUM_METADATA_BLKS) = put_buffer env source \<and>
             (\<forall>j. j \<noteq> i \<longrightarrow> wrote (threads c j) = None)))"

definition ptr_inv :: "conc \<Rightarrow> bool" where
  "ptr_inv c \<longleftrightarrow> chain (nxt c) None (map el_addr (valid_blk_list (drv c))) \<and>
     (\<forall>el \<in> set (valid_blk_list (drv c)). heap c (el_addr el) = el)"

fun removed :: "thread \<Rightarrow> (rcu_elem \<times> nat set) option" where
  "removed (Removed el S) = Some (el, S)"
| "removed (Syncs el S W) = Some (el, S)"
| "removed _ = None"

text \<open>The nodes the reader \<open>i\<close> can stand on.\<close>

definition visible :: "conc \<Rightarrow> nat \<Rightarrow> addr set" where
  "visible c i = listed c \<union> {a. \<exists>j el S. removed (threads c j) = Some (el, S) \<and> i \<in> S \<and> a = el_addr el}"

definition elem_ok :: "rcu_elem \<Rightarrow> bool" where
  "elem_ok el \<longleftrightarrow> unat (el_valid_bytes el) \<le> DEFAULT_BLOCK_SIZE - METADATA_SIZE \<and> unat (ndx el) < 1000"

text \<open>A reading stays inside one block, and its position inside the device.\<close>

definition reading_ok :: "reading \<Rightarrow> bool" where
  "reading_ok rd \<longleftrightarrow> 10 \<le> unat (rd_offset rd) \<and> unat (rd_offset rd) + unat (rd_len rd) \<le> 4096 \<and>
     unat (rd_off rd) \<le> 4096 * 999 + unat (rd_offset rd) \<and> (\<forall>n \<le> 4086. to_user (rd_env rd) n \<le> n)"

definition reads_file :: "conc \<Rightarrow> nat \<Rightarrow> bool" where
  "reads_file c i \<longleftrightarrow> (\<exists>f. sessions c i = Some f \<and> readable f)"

definition grace_inv :: "conc \<Rightarrow> bool" where
  "grace_inv c \<longleftrightarrow>
     (\<forall>j el S. removed (threads c j) = Some (el, S) \<longrightarrow> S \<subseteq> readers c \<and> heap c (el_addr el) = el \<and> elem_ok el \<and>
        (\<forall>i \<in> S. \<forall>a. nxt c (Some (el_addr el)) = Some a \<longrightarrow> a \<in> visible c i)) \<and>
     (\<forall>j el S W. threads c j = Syncs el S W \<longrightarrow> S \<subseteq> W \<and> W \<subseteq> readers c)"

lemma grace_removed:
  assumes "grace_inv c" "removed (threads c j) = Some (el, S)"
  shows "S \<subseteq> readers c" "heap c (el_addr el) = el" "elem_ok el"
    "\<And>i a. i \<in> S \<Longrightarrow> nxt c (Some (el_addr el)) = Some a \<Longrightarrow> a \<in> visible c i"
  using assms by (auto simp: grace_inv_def)

lemma grace_sync: "grace_inv c \<Longrightarrow> threads c j = Syncs el S W \<Longrightarrow> S \<subseteq> W \<and> W \<subseteq> readers c"
  by (simp add: grace_inv_def)

lemma visible_cong:
  "(\<And>j. removed (threads c' j) = removed (threads c j)) \<Longrightarrow> listed c' = listed c \<Longrightarrow> visible c' = visible c"
  by (simp add: visible_def fun_eq_iff)

lemma mem_inv_cong:
  "(\<And>j. holds c' j = holds c j) \<Longrightarrow> foreign (settled c') = foreign (settled c) \<Longrightarrow> mem_inv c' = mem_inv c"
  by (simp add: mem_inv_def)

lemma mem_inv_update:
  assumes c: "mem_inv c" and h: "holds c' = (holds c)(i := hs)" and hs: "distinct hs" "set hs \<subseteq> foreign (settled c')"
    and others: "\<And>j. j \<noteq> i \<Longrightarrow> set (holds c j) \<subseteq> foreign (settled c')" "\<And>j. j \<noteq> i \<Longrightarrow> set hs \<inter> set (holds c j) = {}"
  shows "mem_inv c'"
  using c hs others unfolding mem_inv_def h by (simp add: Int_commute)

fun thread_ok :: "conc \<Rightarrow> nat \<Rightarrow> thread \<Rightarrow> bool" where
  "thread_ok c i (PutWaits env source b e m) = put_args_ok env source c"
| "thread_ok c i (PutWrote env source b e m t) = put_args_ok env source c"
| "thread_ok c i (Walks env offset sz p M) =
     ((p = None \<or> p \<in> Some ` visible c i) \<and> M \<subseteq> listed c \<and>
      (\<forall>a \<in> M. ndx (heap c a) = offset \<longrightarrow> ahead (nxt c) p a) \<and>
      unat (scast offset :: u64) < md_array_size (drv c) \<and> call_ok (Get env offset sz) (drv c))"
| "thread_ok c i (Reads env offset sz el) =
     (elem_ok el \<and> ndx el = offset \<and> unat (scast offset :: u64) < md_array_size (drv c) \<and>
      call_ok (Get env offset sz) (drv c))"
| "thread_ok c i (InvWaits br offset) = (unat (scast offset :: u64) < md_array_size (drv c))"
| "thread_ok c i (RWalks rd p) = ((p = None \<or> p \<in> Some ` visible c i) \<and> reading_ok rd \<and> reads_file c i)"
| "thread_ok c i (RFound rd el) =
     (el_addr el \<in> visible c i \<and> heap c (el_addr el) = el \<and> reading_ok rd \<and> reads_file c i)"
| "thread_ok c i (RNext rd ret out el) =
     (el_addr el \<in> visible c i \<and> heap c (el_addr el) = el \<and> reading_ok rd \<and> reads_file c i)"
| "thread_ok c i _ = True"

definition cinv :: "conc \<Rightarrow> bool" where
  "cinv c \<longleftrightarrow> driver_ok (settled c) \<and> mem_inv c \<and> lock_inv c \<and> ptr_inv c \<and> grace_inv c \<and>
     session_inv c \<and> (\<forall>i. thread_ok c i (threads c i))"

section \<open>Consequences\<close>

lemma settled_fields [simp]:
  "live (settled c) = live (drv c)" "valid_blk_list (settled c) = valid_blk_list (drv c)"
  "metadata_array (settled c) = metadata_array (drv c)" "md_array_size (settled c) = md_array_size (drv c)"
  "md_objs (settled c) = md_objs (drv c)" "owned (settled c) = owned (drv c)"
  "last_written_block (settled c) = last_written_block (drv c)"
  "bldms_mounted (settled c) = bldms_mounted (drv c)" "the_dev_superblock (settled c) = the_dev_superblock (drv c)"
  by (simp_all add: settled_def md_objs_def owned_def)

lemma foreign_settled: "foreign (settled c) = live (drv c) - set (owned (drv c))"
  by (simp add: foreign_def)

lemma cinv_shape:
  assumes "cinv c"
  shows "bldms_mounted (drv c)" "the_dev_superblock (drv c)" "rcu_readers (drv c) = 0" "md_array_size (drv c) \<le> NBLOCKS"
  using assms by (simp_all add: cinv_def driver_ok_def shape_ok_def settled_def)

lemma cinv_list:
  assumes "cinv c"
  shows "distinct (map el_addr (valid_blk_list (drv c)))" "listed c \<subseteq> set (owned (drv c))"
    "listed c \<subseteq> live (drv c)" "index_ok (valid_blk_list (drv c))"
  using assms
  by (auto simp: cinv_def driver_ok_def mem_ok_def listed_def owned_def index_inv_def)

lemma cinv_elem_ok:
  assumes "cinv c" "el \<in> set (valid_blk_list (drv c))"
  shows "elem_ok el"
proof -
  let ?s = "settled c"
  have ok: "driver_ok ?s" and inv: "index_inv ?s" "shape_ok ?s" "disk_inv ?s"
    using assms(1) by (simp_all add: cinv_def driver_ok_def)
  define i where "i = unat (ndx el)"
  have i: "i < length (md_objs ?s)" using assms(2) inv(1) by (auto simp: index_inv_def i_def)
  have "list_lookup (valid_blk_list ?s) (word_of_nat i) = Some el"
    using assms(2) inv(1) vl.elems_lookup [of "valid_blk_list ?s" el] by (simp add: i_def index_inv_def)
  from listed_entry [OF inv(1,2) i] this have "is_valid (md_at ?s i) = BLK_VALID"
    "unat (el_valid_bytes el) = unat (valid_bytes (md_at ?s i))" by simp_all
  moreover have "length (md_objs ?s) \<le> 1000" using inv(2) by (simp add: shape_ok_def layout_consts)
  ultimately show ?thesis using inv(3) i by (simp add: disk_inv_def block_ok_def elem_ok_def i_def)
qed

lemma keeps_distinct [simp]: "distinct (keeps f)"
  by (simp add: keeps_def split: option.split)

lemma holds_facts:
  assumes "cinv c"
  shows "distinct (holds c i)" "set (holds c i) \<subseteq> live (drv c) - set (owned (drv c))"
    "\<And>j. j \<noteq> i \<Longrightarrow> set (holds c i) \<inter> set (holds c j) = {}"
  using assms by (auto simp: cinv_def mem_inv_def foreign_settled)

lemma holds_live: "cinv c \<Longrightarrow> set (holds c i) \<subseteq> live (drv c)"
  using holds_facts(2) by blast

lemma held_facts:
  assumes "cinv c"
  shows "distinct (held (threads c i))" "set (held (threads c i)) \<subseteq> live (drv c) - set (owned (drv c))"
    "\<And>j. j \<noteq> i \<Longrightarrow> set (held (threads c i)) \<inter> set (held (threads c j)) = {}"
    "\<And>j. j \<noteq> i \<Longrightarrow> set (held (threads c i)) \<inter> set (holds c j) = {}"
    "set (held (threads c i)) \<inter> set (keeps (sessions c i)) = {}"
    "distinct (held (threads c i) @ keeps (sessions c i))"
proof -
  have d: "set (held (threads c i)) \<inter> set (holds c j) = {}" if "j \<noteq> i" for j
    using holds_facts(3) [OF assms that] by (auto simp: holds_def)
  then show "\<And>j. j \<noteq> i \<Longrightarrow> set (held (threads c i)) \<inter> set (holds c j) = {}"
    "\<And>j. j \<noteq> i \<Longrightarrow> set (held (threads c i)) \<inter> set (held (threads c j)) = {}" by (auto simp: holds_def)
qed (use holds_facts(1,2) [OF assms, of i] in \<open>auto simp: holds_def\<close>)

lemma keeps_facts:
  assumes "cinv c"
  shows "set (keeps (sessions c i)) \<subseteq> live (drv c) - set (owned (drv c))"
    "\<And>j. j \<noteq> i \<Longrightarrow> set (keeps (sessions c i)) \<inter> set (holds c j) = {}"
proof -
  show "\<And>j. j \<noteq> i \<Longrightarrow> set (keeps (sessions c i)) \<inter> set (holds c j) = {}"
    using holds_facts(3) [OF assms] by (fastforce simp: holds_def)
qed (use holds_facts(2) [OF assms, of i] in \<open>auto simp: holds_def\<close>)

lemma removed_held: "removed th = Some (el, S) \<Longrightarrow> set (held th) = {el_addr el}"
  by (cases th) auto

lemma removed_foreign:
  "mem_inv c \<Longrightarrow> removed (threads c j) = Some (el, S) \<Longrightarrow> el_addr el \<in> foreign (settled c)"
  using removed_held by (fastforce simp: mem_inv_def holds_def)

lemma visible_live: "cinv c \<Longrightarrow> a \<in> visible c i \<Longrightarrow> a \<in> live (drv c)"
  using cinv_list(3) [of c] removed_foreign [of c]
  by (fastforce simp: visible_def cinv_def foreign_settled)

lemma chain_next: "chain n p xs \<Longrightarrow> q = p \<or> q \<in> Some ` set xs \<Longrightarrow> n q = Some y \<Longrightarrow> y \<in> set xs"
  by (induction xs arbitrary: p) auto

text \<open>The links do not lead a reader out of what is visible to it.\<close>

lemma visible_closed:
  assumes c: "cinv c" and q: "q = None \<or> q \<in> Some ` visible c i" and y: "nxt c q = Some y"
  shows "y \<in> visible c i"
proof -
  have ch: "chain (nxt c) None (map el_addr (valid_blk_list (drv c)))" using c by (simp add: cinv_def ptr_inv_def)
  have g: "grace_inv c" using c by (simp add: cinv_def)
  show ?thesis
  proof (cases "q = None \<or> q \<in> Some ` listed c")
    case True
    then have "y \<in> listed c" using chain_next [OF ch _ y] by (auto simp: listed_def)
    then show ?thesis by (simp add: visible_def)
  next
    case False
    with q obtain j el S where "removed (threads c j) = Some (el, S)" "i \<in> S" "q = Some (el_addr el)"
      by (auto simp: visible_def)
    with g y show ?thesis by (auto simp: grace_inv_def)
  qed
qed

lemma visible_elem_ok:
  assumes c: "cinv c" and a: "a \<in> visible c i"
  shows "elem_ok (heap c a)" "el_addr (heap c a) = a"
proof -
  have "elem_ok (heap c a) \<and> el_addr (heap c a) = a"
    using a c cinv_elem_ok [OF c] by (auto simp: visible_def listed_def cinv_def ptr_inv_def grace_inv_def)
  then show "elem_ok (heap c a)" "el_addr (heap c a) = a" by simp_all
qed

lemma live_update_fields [simp]:
  "md_objs ((s :: bldms)\<lparr>live := L\<rparr>) = md_objs s" "owned (s\<lparr>live := L\<rparr>) = owned s" "md_at (s\<lparr>live := L\<rparr>) = md_at s"
  by (simp_all add: md_objs_def owned_def md_at_def fun_eq_iff)

lemma driver_ok_live: "driver_ok s \<Longrightarrow> set (owned s) \<subseteq> L \<Longrightarrow> driver_ok (s\<lparr>live := L\<rparr>)"
  unfolding driver_ok_def shape_ok_def mem_ok_def index_inv_def disk_inv_def live_update_fields
  by (elim conjE, intro conjI) (simp_all del: atLeastLessThan_iff)

lemma find_target_live:
  assumes "driver_ok s" "set (owned s) \<subseteq> L"
  shows "find_target (s\<lparr>live := L\<rparr>) = find_target s"
  using find_target_rotate [OF assms(1)] find_target_rotate [OF driver_ok_live [OF assms]] by simp

section \<open>Moves of one thread\<close>

lemma move_fields [simp]:
  "drv (move i th c) = drv c" "nxt (move i th c) = nxt c" "heap (move i th c) = heap c" "undo (move i th c) = undo c"
  "threads (move i th c) = (threads c)(i := th)" "sessions (move i th c) = sessions c" "settled (move i th c) = settled c" "listed (move i th c) = listed c"
  by (simp_all add: move_def settled_def listed_def split: option.split)

lemma visible_move:
  assumes "removed th = removed (threads c i) \<or> removed th = None \<and> (\<exists>el. removed (threads c i) = Some (el, {}))"
  shows "visible (move i th c) = visible c"
proof (rule ext)
  fix k
  have "(\<exists>el S. removed (threads (move i th c) j) = Some (el, S) \<and> k \<in> S \<and> a = el_addr el) \<longleftrightarrow>
      (\<exists>el S. removed (threads c j) = Some (el, S) \<and> k \<in> S \<and> a = el_addr el)" for a j
    using assms by (cases "j = i") (elim disjE, simp, auto)
  then show "visible (move i th c) k = visible c k" unfolding visible_def by simp
qed

lemma thread_ok_cong:
  assumes "visible c' i = visible c i" "listed c' = listed c" "heap c' = heap c" "nxt c' = nxt c"
    "md_array_size (drv c') = md_array_size (drv c)" "sessions c' i = sessions c i"
  shows "thread_ok c' i th = thread_ok c i th"
  using assms by (cases th) (simp_all add: put_args_ok_def reads_file_def)

lemma cinv_move:
  assumes c: "cinv c"
    and mem: "distinct (held th @ keeps (sessions c i))" "set (held th) \<subseteq> foreign (settled c)"
      "\<And>j. j \<noteq> i \<Longrightarrow> set (held th) \<inter> set (holds c j) = {}"
    and wr: "wrote th = wrote (threads c i)"
    and rem: "removed th = removed (threads c i) \<or> removed th = None \<and> (\<exists>el. removed (threads c i) = Some (el, {}))"
    and sec: "in_section (threads c i) \<Longrightarrow> in_section th"
    and ok: "thread_ok c i th" "\<And>el S W. th = Syncs el S W \<Longrightarrow> S \<subseteq> W \<and> W \<subseteq> readers c"
  shows "cinv (move i th c)"
proof -
  let ?c = "move i th c"
  note v = visible_move [OF rem]
  have h: "holds ?c = (holds c)(i := held th @ keeps (sessions c i))" by (auto simp: holds_def)
  have o: "set (keeps (sessions c i)) \<subseteq> set (holds c i)" by (simp add: holds_def)
  have "mem_inv ?c"
  proof (rule mem_inv_update [OF _ h mem(1)])
    show m: "mem_inv c" using c by (simp add: cinv_def)
    then show "set (held th @ keeps (sessions c i)) \<subseteq> foreign (settled ?c)" "\<And>j. set (holds c j) \<subseteq> foreign (settled ?c)"
      using mem(2) o by (auto simp: mem_inv_def)
    show "set (held th @ keeps (sessions c i)) \<inter> set (holds c j) = {}" if "j \<noteq> i" for j
      using m mem(3) [OF that] o that by (fastforce simp: mem_inv_def)
  qed
  moreover have "session_inv ?c" using c by (simp add: cinv_def session_inv_def)
  moreover have "lock_inv ?c"
    using c wr unfolding cinv_def lock_inv_def by (auto split: option.splits) metis+
  moreover have "ptr_inv ?c" using c by (simp add: cinv_def ptr_inv_def)
  moreover have "grace_inv ?c"
  proof -
    have r: "readers c \<subseteq> readers ?c" using sec by (auto simp: readers_def)
    have g: "grace_inv c" using c by (simp add: cinv_def)
    have "S \<subseteq> readers ?c \<and> heap c (el_addr el) = el \<and> elem_ok el \<and>
        (\<forall>i \<in> S. \<forall>a. nxt c (Some (el_addr el)) = Some a \<longrightarrow> a \<in> visible c i)"
      if "removed (threads ?c j) = Some (el, S)" for j el S
    proof -
      have "\<exists>j. removed (threads c j) = Some (el, S)" using that rem by (cases "j = i") auto
      with g r show ?thesis by (fastforce simp: grace_inv_def)
    qed
    moreover have "S \<subseteq> W \<and> W \<subseteq> readers ?c" if "threads ?c j = Syncs el S W" for j el S W
    proof -
      have "S \<subseteq> W \<and> W \<subseteq> readers c" using that g ok(2) by (cases "j = i") (simp_all add: grace_inv_def)
      with r show ?thesis by blast
    qed
    ultimately show ?thesis by (simp add: grace_inv_def v)
  qed
  moreover have "thread_ok ?c j (threads ?c j)" for j
    using c ok(1) thread_ok_cong [of ?c j c] v by (simp add: cinv_def)
  ultimately show ?thesis using c by (simp add: cinv_def)
qed

text \<open>Allocated memory that nobody refers to can come and go.\<close>

lemma cinv_live:
  assumes c: "cinv c" and L: "set (owned (drv c)) \<subseteq> L" "\<And>i. set (holds c i) \<subseteq> L"
  shows "cinv (c\<lparr>drv := (drv c)\<lparr>live := L\<rparr>\<rparr>)"
proof -
  let ?c = "c\<lparr>drv := (drv c)\<lparr>live := L\<rparr>\<rparr>"
  have s: "settled ?c = (settled c)\<lparr>live := L\<rparr>" by (simp add: settled_def split: option.split)
  have ok: "driver_ok (settled c)" "set (owned (settled c)) \<subseteq> L" using c L by (simp_all add: cinv_def)
  have v: "visible ?c = visible c" "listed ?c = listed c" "readers ?c = readers c"
    by (simp_all add: visible_def listed_def readers_def fun_eq_iff)
  have "holds ?c = holds c" by (simp add: holds_def fun_eq_iff)
  then have "mem_inv ?c"
    using c L by (auto simp: cinv_def mem_inv_def foreign_def s)
  moreover have "session_inv ?c" using c by (simp add: cinv_def session_inv_def)
  moreover have "lock_inv ?c"
    using c find_target_live [OF ok] by (auto simp: cinv_def lock_inv_def s split: option.splits)
  moreover have "ptr_inv ?c" "grace_inv ?c" using c by (simp_all add: cinv_def ptr_inv_def grace_inv_def v)
  moreover have "thread_ok ?c j (threads ?c j)" for j
    using c thread_ok_cong [of ?c j c] v by (simp add: cinv_def)
  ultimately show ?thesis using driver_ok_live [OF ok] by (simp add: cinv_def s)
qed

text \<open>A reader leaves its section.\<close>

lemma forget_fields [simp]:
  "held (forget i th) = held th" "wrote (forget i th) = wrote th" "in_section (forget i th) = in_section th"
  "removed (forget i th) = map_option (apsnd (\<lambda>S. S - {i})) (removed th)"
  by (cases th; simp)+

lemma leave_fields [simp]:
  "drv (leave i th c) = drv c" "nxt (leave i th c) = nxt c" "heap (leave i th c) = heap c" "undo (leave i th c) = undo c"
  "threads (leave i th c) = (\<lambda>j. forget i (threads c j))(i := th)" "sessions (leave i th c) = sessions c"
  "settled (leave i th c) = settled c" "listed (leave i th c) = listed c"
  by (auto simp: leave_def settled_def listed_def split: option.split)

fun finished :: "thread \<Rightarrow> bool" where
  "finished (Done r) = True"
| "finished (FileDone r) = True"
| "finished _ = False"

lemma finished_fields:
  "finished th \<Longrightarrow> held th = [] \<and> wrote th = None \<and> removed th = None \<and> \<not> in_section th \<and> thread_ok c i th"
  by (cases th) auto

lemma readers_leave: "finished th \<Longrightarrow> readers (leave i th c) = readers c - {i}"
  using finished_fields [of th] by (auto simp: readers_def)

lemma section_fields: "in_section th \<Longrightarrow> held th = [] \<and> wrote th = None \<and> removed th = None"
  by (cases th) auto

lemma visible_leave:
  assumes "in_section (threads c i)" "finished th" "j \<noteq> i"
  shows "visible (leave i th c) j = visible c j"
proof -
  have "(\<exists>el S. removed (threads (leave i th c) k) = Some (el, S) \<and> j \<in> S \<and> a = el_addr el) \<longleftrightarrow>
      (\<exists>el S. removed (threads c k) = Some (el, S) \<and> j \<in> S \<and> a = el_addr el)" for a k
    using assms section_fields [OF assms(1)] finished_fields [OF assms(2)] by (cases "removed (threads c k)"; cases "k = i") auto
  then show ?thesis unfolding visible_def by simp
qed

lemma cinv_leave:
  assumes c: "cinv c" and sec: "in_section (threads c i)" and th: "finished th"
  shows "cinv (leave i th c)"
proof -
  let ?c = "leave i th c"
  note f = section_fields [OF sec] and ft = finished_fields [OF th]
  have g: "grace_inv c" using c by (simp add: cinv_def)
  have "holds ?c = holds c" using f ft by (auto simp: holds_def)
  then have "mem_inv ?c" using c by (simp add: cinv_def mem_inv_def)
  moreover have "session_inv ?c" using c by (simp add: cinv_def session_inv_def)
  moreover have "lock_inv ?c"
    using c f ft unfolding cinv_def lock_inv_def by (auto split: option.splits) (metis option.distinct(1))+
  moreover have "ptr_inv ?c" using c by (simp add: cinv_def ptr_inv_def)
  moreover have "grace_inv ?c"
  proof -
    have "S \<subseteq> readers ?c \<and> heap c (el_addr el) = el \<and> elem_ok el \<and>
        (\<forall>i \<in> S. \<forall>a. nxt c (Some (el_addr el)) = Some a \<longrightarrow> a \<in> visible ?c i)"
      if rem: "removed (threads ?c j) = Some (el, S)" for j el S
    proof -
      obtain S' where S': "removed (threads c j) = Some (el, S')" "S = S' - {i}"
        using rem f ft by (cases "removed (threads c j)"; cases "j = i") auto
      then have *: "S' \<subseteq> readers c" "heap c (el_addr el) = el" "elem_ok el"
        "\<And>k a. k \<in> S' \<Longrightarrow> nxt c (Some (el_addr el)) = Some a \<Longrightarrow> a \<in> visible c k"
        using g by (auto simp: grace_inv_def)
      moreover have "visible ?c k = visible c k" if "k \<in> S" for k
        using visible_leave [OF sec th] that S' by simp
      ultimately show ?thesis using S'(2) by (auto simp: readers_leave [OF th])
    qed
    moreover have "S \<subseteq> W \<and> W \<subseteq> readers ?c" if "threads ?c j = Syncs el S W" for j el S W
    proof -
      have "forget i (threads c j) = Syncs el S W" using that th by (auto split: if_splits)
      then obtain S' W' where "threads c j = Syncs el S' W'" "S = S' - {i}" "W = W' - {i}"
        by (cases "threads c j") auto
      with grace_sync [OF g this(1)] show ?thesis by (auto simp: readers_leave [OF th])
    qed
    ultimately show ?thesis by (simp add: grace_inv_def)
  qed
  moreover have "thread_ok ?c j (threads ?c j)" for j
  proof (cases "j = i")
    case False
    then have "thread_ok ?c j (threads ?c j) = thread_ok c j (forget i (threads c j))"
      using thread_ok_cong [of ?c j c] visible_leave [OF sec th] by simp
    moreover have "thread_ok c j (threads c j)" using c by (simp add: cinv_def)
    ultimately show ?thesis by (cases "threads c j") simp_all
  qed (use ft [of ?c i] in simp)
  ultimately show ?thesis using c by (simp add: cinv_def)
qed

section \<open>Steps of put\_data\<close>

lemma put_enter_cases:
  assumes "bldms_mounted s" "the_dev_superblock s" "put_env_ok env s"
  obtains (fail) err where "put_enter env source s = Inr (Inl err, s)"
    | (ready) b e m where "put_ready env source s b e m"
      "put_enter env source s = Inr (Inr (b, e, m), s\<lparr>live := insert m (insert e (insert b (live s)))\<rparr>)"
proof -
  have "(\<exists>err. put_enter env source s = Inr (Inl err, s)) \<or>
    (\<exists>b e m. put_ready env source s b e m \<and>
      put_enter env source s = Inr (Inr (b, e, m), s\<lparr>live := insert m (insert e (insert b (live s)))\<rparr>))"
  proof (cases "length source > DEFAULT_BLOCK_SIZE - METADATA_SIZE \<or> buffer_alloc env = None")
    case False
    then obtain b where b: "buffer_alloc env = Some b" "length source \<le> DEFAULT_BLOCK_SIZE - METADATA_SIZE" by auto
    show ?thesis
      using assms b
      by (cases "elem_alloc env"; cases "md_alloc env")
        (auto simp: put_enter_def put_env_ok_def allocs_def put_ready_def kzalloc_def Let_def insert_Diff_if)
  qed (use assms in \<open>auto simp: put_enter_def\<close>)
  then show thesis using fail ready by blast
qed

lemma owned_live: "cinv c \<Longrightarrow> set (owned (drv c)) \<subseteq> live (drv c)"
  by (simp add: cinv_def driver_ok_def mem_ok_def)

lemma cinv_ready:
  assumes c: "cinv c" and th: "threads c i = Idle" and env: "call_ok (Put env source) (drv c)"
    and r: "put_ready env source (drv c) b e m"
  shows "cinv (move i (PutWaits env source b e m) (c\<lparr>drv := (drv c)\<lparr>live := insert m (insert e (insert b (live (drv c))))\<rparr>\<rparr>))"
proof -
  let ?L = "insert m (insert e (insert b (live (drv c))))"
  let ?c = "c\<lparr>drv := (drv c)\<lparr>live := ?L\<rparr>\<rparr>"
  have fresh: "distinct [b, e, m]" "{b, e, m} \<inter> live (drv c) = {}" using r by (simp_all add: put_ready_def)
  have "cinv ?c" using c owned_live [OF c] holds_live [OF c] by (intro cinv_live) auto
  moreover have "set (keeps (sessions c i)) \<inter> {b, e, m} = {}" "set (holds ?c j) \<inter> {b, e, m} = {}" for j
    using holds_live [OF c, of i] holds_live [OF c, of j] fresh(2) by (auto simp: holds_def)
  ultimately show ?thesis
    using th fresh owned_live [OF c] env r
    by (intro cinv_move) (auto 0 3 simp: foreign_settled put_args_ok_def put_ready_def put_env_error_def)
qed

lemma put_call_ok:
  assumes c: "cinv c" and th: "threads c i = Idle" and env: "call_ok (Put env source) (drv c)"
  shows "\<exists>c'. put_call i env source c = Inr c' \<and> cinv c'"
proof -
  have pe: "put_env_ok env (drv c)" using env by simp
  show ?thesis
  proof (rule put_enter_cases [OF cinv_shape(1,2) [OF c] pe, of source])
    fix err assume "put_enter env source (drv c) = Inr (Inl err, drv c)"
    moreover have "cinv (move i (Done (Stored (Inl err))) c)" using c th by (intro cinv_move) simp_all
    ultimately show ?thesis by (simp add: put_call_def)
  next
    fix b e m assume r: "put_ready env source (drv c) b e m"
      "put_enter env source (drv c) = Inr (Inr (b, e, m), (drv c)\<lparr>live := insert m (insert e (insert b (live (drv c))))\<rparr>)"
    have "cinv (move i (PutWaits env source b e m) (c\<lparr>drv := (drv c)\<lparr>live := insert m (insert e (insert b (live (drv c))))\<rparr>\<rparr>))"
      by (rule cinv_ready [OF c th env r(1)])
    then show ?thesis by (simp add: put_call_def r)
  qed
qed

lemma move_drv: "move i th (c\<lparr>drv := s\<rparr>) = (move i th c)\<lparr>drv := s\<rparr>"
  by (simp add: move_def)

lemma unlocked:
  assumes "cinv c" "\<not> rcu_write_lock (drv c)"
  shows "undo c = None" "settled c = drv c" "\<And>i. wrote (threads c i) = None" "driver_ok (drv c)"
proof -
  show u: "undo c = None" and w: "\<And>i. wrote (threads c i) = None"
    using assms by (auto simp: cinv_def lock_inv_def split: option.splits)
  show "settled c = drv c" using u assms(2) by (auto simp: settled_def intro!: bldms.equality)
  then show "driver_ok (drv c)" using assms(1) by (simp add: cinv_def)
qed

lemma find_target_lock [simp]:
  "find_target (s\<lparr>rcu_write_lock := l\<rparr>) = find_target s"
  by (simp add: find_target_def md_objs_def)

lemma put_lock_cases:
  assumes c: "cinv c" and th: "threads c i = PutWaits env source b e m" and free: "\<not> rcu_write_lock (drv c)"
  obtains (full) "find_target (drv c) = Inr None"
      "put_lock i env source b e m c =
         Inr ((move i (Done (Stored (Inl ENOMEM))) c)\<lparr>drv := (drv c)\<lparr>live := live (drv c) - {e, b, m}\<rparr>\<rparr>)"
    | (wrote) t where "find_target (drv c) = Inr (Some t)"
      "put_lock i env source b e m c = Inr (move i (PutWrote env source b e m t)
         (c\<lparr>drv := (drv c)\<lparr>rcu_write_lock := True, disk := (disk (drv c))(t + NUM_METADATA_BLKS := put_buffer env source)\<rparr>,
            undo := Some (t, disk (drv c) (t + NUM_METADATA_BLKS))\<rparr>))"
proof -
  note u = unlocked [OF c free]
  let ?s = "(drv c)\<lparr>rcu_write_lock := True\<rparr>"
  have args: "put_args_ok env source c" using c th by (fastforce simp: cinv_def dest: spec [of _ i])
  have mem: "distinct [e, b, m]" "set [e, b, m] \<subseteq> live (drv c)"
    using th held_facts(1,2) [OF c, of i] by auto
  obtain arr where arr: "metadata_array (drv c) = Some arr" using u(4) by (auto simp: driver_ok_def shape_ok_def)
  obtain target where t: "find_target (drv c) = Inr target" using find_target_rotate [OF u(4)] by simp
  show thesis
  proof (cases target)
    case None
    have ul: "spin_unlock ?s = drv c" using free by (auto simp: spin_unlock_def intro!: bldms.equality)
    show thesis
      using free t None kfree_all_live [OF mem]
      by (intro full) (simp_all add: put_lock_def put_write_def ul move_drv del: kfree_all.simps)
  next
    case (Some t')
    have "t' < md_array_size (drv c)" using find_target_Some(1) [OF u(4)] t Some by simp
    then show thesis
      using free t Some args arr by (intro wrote) (simp_all add: put_lock_def put_write_def put_args_ok_def)
  qed
qed

text \<open>A \<open>put_data\<close> that is at the lock gives up and frees what it has allocated.\<close>

lemma cinv_discard:
  assumes c: "cinv c" and th: "threads c i = PutWaits env source b e m"
  shows "cinv ((move i (Done r) c)\<lparr>drv := (drv c)\<lparr>live := live (drv c) - {e, b, m}\<rparr>\<rparr>)"
proof -
  let ?m = "move i (Done r) c" and ?L = "live (drv c) - {e, b, m}"
  have mem: "{b, e, m} \<inter> set (owned (drv c)) = {}" using held_facts(2) [OF c, of i] th by auto
  have free: "{b, e, m} \<inter> set (holds ?m j) = {}" for j
    using held_facts(4) [OF c, of j i] held_facts(5) [OF c, of i] th by (cases "j = i") (auto simp: holds_def)
  have "cinv ?m" using c th by (intro cinv_move) simp_all
  then have "cinv (?m\<lparr>drv := (drv ?m)\<lparr>live := ?L\<rparr>\<rparr>)"
  proof (rule cinv_live)
    show "set (owned (drv ?m)) \<subseteq> ?L" using owned_live [OF c] mem by auto
    show "set (holds ?m j) \<subseteq> ?L" for j using holds_live [OF \<open>cinv ?m\<close>, of j] free [of j] by auto
  qed
  then show ?thesis by simp
qed

lemma put_lock_ok:
  assumes c: "cinv c" and th: "threads c i = PutWaits env source b e m" and free: "\<not> rcu_write_lock (drv c)"
  shows "\<exists>c'. put_lock i env source b e m c = Inr c' \<and> cinv c'"
  using c th free
proof (cases rule: put_lock_cases)
  case full
  then show ?thesis using cinv_discard [OF c th] by simp
next
  case (wrote t)
  note u = unlocked [OF c free]
  have args: "put_args_ok env source c" using c th by (fastforce simp: cinv_def dest: spec [of _ i])
  define c' where "c' = move i (PutWrote env source b e m t)
    (c\<lparr>drv := (drv c)\<lparr>rcu_write_lock := True, disk := (disk (drv c))(t + NUM_METADATA_BLKS := put_buffer env source)\<rparr>,
       undo := Some (t, disk (drv c) (t + NUM_METADATA_BLKS))\<rparr>)"
  have f: "nxt c' = nxt c" "heap c' = heap c" "listed c' = listed c" "md_array_size (drv c') = md_array_size (drv c)"
    "valid_blk_list (drv c') = valid_blk_list (drv c)" "rcu_write_lock (drv c')"
    "undo c' = Some (t, disk (drv c) (t + NUM_METADATA_BLKS))"
    "threads c' = (threads c)(i := PutWrote env source b e m t)"
    "disk (drv c') (t + NUM_METADATA_BLKS) = put_buffer env source" "sessions c' = sessions c"
    by (simp_all add: c'_def listed_def)
  have s: "settled c' = drv c" using free by (auto simp: c'_def settled_def intro!: bldms.equality)
  have v: "visible c' = visible c" using f th by (intro visible_cong) simp_all
  have rd: "readers c' = readers c" using th by (auto simp: readers_def f)
  have "holds c' j = holds c j" for j using th by (simp add: holds_def f)
  then have "mem_inv c'" using c mem_inv_cong [of c' c] by (simp add: cinv_def s u(2))
  moreover have "session_inv c'" using c by (simp add: cinv_def session_inv_def f)
  moreover have "lock_inv c'" using wrote(1) u(3) by (auto simp: lock_inv_def s f)
  moreover have "ptr_inv c'" using c by (simp add: cinv_def ptr_inv_def f)
  moreover have "grace_inv c'" using c th by (auto simp: cinv_def grace_inv_def v rd f)
  moreover have "thread_ok c' j (threads c' j)" for j
    using c args thread_ok_cong [of c' j c] v f by (simp add: cinv_def put_args_ok_def)
  ultimately have "cinv c'" using u(4) by (simp add: cinv_def s)
  with wrote(2) show ?thesis by (simp add: c'_def)
qed

lemma wrote_facts:
  assumes c: "cinv c" and th: "threads c i = PutWrote env source b e m t"
  obtains old where "undo c = Some (t, old)" "find_target (settled c) = Inr (Some t)"
    "disk (drv c) (t + NUM_METADATA_BLKS) = put_buffer env source" "\<And>j. j \<noteq> i \<Longrightarrow> wrote (threads c j) = None"
    "put_args_ok env source c"
proof -
  have w: "wrote (threads c i) = Some (env, source, t)" using th by simp
  have l: "lock_inv c" using c by (simp add: cinv_def)
  obtain t' old i' env' source' where *: "undo c = Some (t', old)" "find_target (settled c) = Inr (Some t')"
    "wrote (threads c i') = Some (env', source', t')" "disk (drv c) (t' + NUM_METADATA_BLKS) = put_buffer env' source'"
    "\<And>j. j \<noteq> i' \<Longrightarrow> wrote (threads c j) = None"
    using l w by (auto simp: lock_inv_def split: option.splits)
  have "i' = i" using *(5) [of i] w by auto
  moreover have "thread_ok c i (threads c i)" using c by (simp add: cinv_def)
  ultimately show thesis using * w th by (intro that [of old]) simp_all
qed

lemma held_invisible:
  assumes c: "cinv c" and a: "a \<in> set (held (threads c i))" "removed (threads c i) = None"
  shows "a \<notin> visible c k"
proof
  assume "a \<in> visible c k"
  then consider "a \<in> listed c" | j el S where "removed (threads c j) = Some (el, S)" "a = el_addr el"
    by (auto simp: visible_def)
  then show False
  proof cases
    case 1
    then show ?thesis using cinv_list(2) [OF c] held_facts(2) [OF c, of i] a by auto
  next
    case 2
    then have "a \<in> set (held (threads c j))" "j \<noteq> i" using removed_held [OF 2(1)] a by auto
    then show ?thesis using held_facts(3) [OF c, of j i] a by auto
  qed
qed

lemma put_publish_result:
  assumes c: "cinv c" and th: "threads c i = PutWrote env source b e m t"
  shows "put_publish b e (put_obj env source m) t (drv c) =
     Inr (put_result t e (put_obj env source m) (put_buffer env source) ((settled c)\<lparr>live := live (drv c) - {b, e, m}\<rparr>))"
proof -
  obtain old where w: "undo c = Some (t, old)" "find_target (settled c) = Inr (Some t)"
    "disk (drv c) (t + NUM_METADATA_BLKS) = put_buffer env source"
    by (rule wrote_facts [OF c th])
  have ok: "driver_ok (settled c)" using c by (simp add: cinv_def)
  obtain arr where arr: "metadata_array (drv c) = Some arr" using ok by (auto simp: driver_ok_def shape_ok_def)
  have objs: "md_objs (drv c) = arr_elems arr" by (simp add: md_objs_def arr)
  have "t < length (arr_elems arr)"
    using ok find_target_Some(1) [OF ok w(2)] by (simp add: driver_ok_def shape_ok_def objs)
  then have old: "md_addr (arr_elems arr ! t) \<in> set (owned (drv c))" by (simp add: owned_def arr)
  have mem: "distinct [b, e, m]" "{b, e, m} \<subseteq> live (drv c)" "{b, e, m} \<inter> set (owned (drv c)) = {}"
    using held_facts(1,2) [OF c, of i] th by auto
  have free: "kfree_all [b, md_addr (arr_elems arr ! t)] x =
      Inr (x\<lparr>live := live x - {b, md_addr (arr_elems arr ! t)}\<rparr>)"
    if "live x = live (drv c)" for x :: bldms
    using mem old that owned_live [OF c] by (subst kfree_all_live) auto
  have d: "(disk (drv c))(t + NUM_METADATA_BLKS := put_buffer env source) = disk (drv c)"
    using w(3) by (auto simp: fun_eq_iff)
  let ?s = "(settled c)\<lparr>live := live (drv c) - {b, e, m}\<rparr>"
  have o: "md_objs ?s ! t = arr_elems arr ! t" by (simp add: objs)
  have L: "insert e (insert m (live (drv c) - {b, e, m})) - {md_addr (arr_elems arr ! t)} =
      live (drv c) - {b, md_addr (arr_elems arr ! t)}"
    using mem old by auto
  show ?thesis
    unfolding put_result_def o put_obj_fields
    by (simp add: put_publish_def arr Let_def free spin_unlock_def add_valid_block_in_order_secure_def
        L del: kfree_all.simps)
      (auto intro!: bldms.equality simp: settled_def w(1) d)
qed

lemma published_ok:
  assumes c: "cinv c" and th: "threads c i = PutWrote env source b e m t"
  defines "s \<equiv> put_result t e (put_obj env source m) (put_buffer env source) ((settled c)\<lparr>live := live (drv c) - {b, e, m}\<rparr>)"
  shows "driver_ok s" "foreign s = live (drv c) - {b, e, m} - set (owned (drv c))"
    "valid_blk_list s = insert_in_order (put_elem e t (put_obj env source m)) (valid_blk_list (drv c))"
    "md_array_size s = md_array_size (drv c)"
proof -
  let ?s = "(settled c)\<lparr>live := live (drv c) - {b, e, m}\<rparr>"
  obtain old where w: "find_target (settled c) = Inr (Some t)" "put_args_ok env source c"
    by (rule wrote_facts [OF c th])
  have mem: "distinct [b, e, m]" "{b, e, m} \<inter> set (owned (drv c)) = {}"
    using held_facts(1,2) [OF c, of i] th by auto
  have o: "set (owned (settled c)) \<subseteq> live (drv c) - {b, e, m}" using mem owned_live [OF c] by auto
  have ok: "driver_ok (settled c)" using c by (simp add: cinv_def)
  have ok': "driver_ok ?s" "find_target ?s = Inr (Some t)"
    using driver_ok_live [OF ok o] find_target_live [OF ok o] w by simp_all
  show "driver_ok s"
    unfolding s_def using mem w(2)
    by (intro put_result_ok [OF ok']) (auto simp: put_buffer_def new_block_ok put_args_ok_def)
  have "t < length (md_objs ?s)" using ok' find_target_Some(1) [OF ok'] by (simp add: driver_ok_def shape_ok_def)
  then show "foreign s = live (drv c) - {b, e, m} - set (owned (drv c))"
    unfolding s_def using put_result_foreign [OF ok'(1), of t e "put_obj env source m"] by (simp add: foreign_def)
  show "valid_blk_list s = insert_in_order (put_elem e t (put_obj env source m)) (valid_blk_list (drv c))"
    "md_array_size s = md_array_size (drv c)"
    by (simp_all add: s_def put_result_def put_elem_def)
qed

lemma put_elem_fields [simp]: "el_addr (put_elem e t new) = e"
  by (simp add: put_elem_def)

text \<open>The state after the publication by the thread \<open>i\<close> of the block it has written.\<close>

definition published :: "nat \<Rightarrow> put_env \<Rightarrow> bytes \<Rightarrow> addr \<Rightarrow> addr \<Rightarrow> addr \<Rightarrow> nat \<Rightarrow> conc \<Rightarrow> conc" where
  "published i env source b e m t c =
     (let el = put_elem e t (put_obj env source m) in
      move i (Done (Stored (Inr t))) (c\<lparr>
        drv := put_result t e (put_obj env source m) (put_buffer env source) ((settled c)\<lparr>live := live (drv c) - {b, e, m}\<rparr>),
        undo := None, heap := (heap c)(e := el),
        nxt := list_add_rcu e (insert_prev el (valid_blk_list (drv c))) (nxt c)\<rparr>))"

lemma published_fields:
  "drv (published i env source b e m t c) =
     put_result t e (put_obj env source m) (put_buffer env source) ((settled c)\<lparr>live := live (drv c) - {b, e, m}\<rparr>)"
  "undo (published i env source b e m t c) = None" "sessions (published i env source b e m t c) = sessions c"
  "heap (published i env source b e m t c) = (heap c)(e := put_elem e t (put_obj env source m))"
  "threads (published i env source b e m t c) = (threads c)(i := Done (Stored (Inr t)))"
  "nxt (published i env source b e m t c) =
     list_add_rcu e (insert_prev (put_elem e t (put_obj env source m)) (valid_blk_list (drv c))) (nxt c)"
  by (simp_all add: published_def Let_def)

lemma published_unlocked:
  assumes "cinv c" "threads c i = PutWrote env source b e m t"
  shows "\<not> rcu_write_lock (drv (published i env source b e m t c))"
    "settled (published i env source b e m t c) = drv (published i env source b e m t c)"
proof -
  show "\<not> rcu_write_lock (drv (published i env source b e m t c))"
    using published_ok(1) [OF assms] by (simp add: driver_ok_def shape_ok_def published_fields)
  then show "settled (published i env source b e m t c) = drv (published i env source b e m t c)"
    by (auto simp: settled_def published_fields(2) intro!: bldms.equality)
qed

text \<open>The new element was seen by nobody, and is now seen by all.\<close>

lemma published_element:
  assumes c: "cinv c" and th: "threads c i = PutWrote env source b e m t"
  shows "e \<notin> visible c k" "e \<notin> listed c" "visible (published i env source b e m t c) k = insert e (visible c k)"
    "listed (published i env source b e m t c) = insert e (listed c)"
    "readers (published i env source b e m t c) = readers c"
proof -
  let ?c = "published i env source b e m t c"
  show "e \<notin> visible c k" using held_invisible [OF c, of e i] th by simp
  then show "e \<notin> listed c" by (simp add: visible_def)
  show l: "listed ?c = insert e (listed c)" by (simp add: listed_def published_fields published_ok(3) [OF c th])
  have "removed (threads ?c j) = removed (threads c j)" for j using th by (simp add: published_fields)
  then show "visible ?c k = insert e (visible c k)" by (simp add: visible_def l)
  show "readers ?c = readers c" using th by (auto simp: readers_def published_fields)
qed

lemma published_chain:
  assumes c: "cinv c" and th: "threads c i = PutWrote env source b e m t"
  defines "el \<equiv> put_elem e t (put_obj env source m)"
  shows "ptr_inv (published i env source b e m t c)"
    "insert_prev el (valid_blk_list (drv c)) = None \<or> insert_prev el (valid_blk_list (drv c)) \<in> Some ` listed c"
proof -
  have el: "el_addr el = e" by (simp add: el_def)
  note add = chain_insert_in_order [of "nxt c" "valid_blk_list (drv c)" el, unfolded el]
  have "ptr_inv c" "e \<notin> listed c" using c published_element(2) [OF c th] by (simp_all add: cinv_def)
  note f = this cinv_list(1) [OF c]
  show "ptr_inv (published i env source b e m t c)"
    using add(1) f by (auto simp: ptr_inv_def published_fields published_ok(3) [OF c th] listed_def el_def)
  show "insert_prev el (valid_blk_list (drv c)) = None \<or> insert_prev el (valid_blk_list (drv c)) \<in> Some ` listed c"
    using add(2) f by (auto simp: ptr_inv_def listed_def)
qed

lemma published_mem:
  assumes c: "cinv c" and th: "threads c i = PutWrote env source b e m t"
  shows "mem_inv (published i env source b e m t c)"
proof -
  let ?c = "published i env source b e m t c"
  have f: "foreign (settled ?c) = live (drv c) - {b, e, m} - set (owned (drv c))"
    unfolding published_unlocked(2) [OF c th] unfolding published_fields by (rule published_ok(2) [OF c th])
  have h: "holds ?c = (holds c)(i := keeps (sessions c i))" by (simp add: holds_def fun_eq_iff published_fields)
  show ?thesis
  proof (rule mem_inv_update [OF _ h keeps_distinct])
    show "mem_inv c" using c by (simp add: cinv_def)
    show "set (keeps (sessions c i)) \<subseteq> foreign (settled ?c)"
      unfolding f using held_facts(5) [OF c, of i] keeps_facts(1) [OF c, of i] th by auto
    show "set (holds c j) \<subseteq> foreign (settled ?c)" if "j \<noteq> i" for j
      unfolding f using held_facts(4) [OF c that] holds_facts(2) [OF c, of j] th by auto
  qed (rule keeps_facts(2) [OF c])
qed

lemma published_grace:
  assumes c: "cinv c" and th: "threads c i = PutWrote env source b e m t"
  shows "grace_inv (published i env source b e m t c)"
proof -
  let ?c = "published i env source b e m t c"
  have g: "grace_inv c" and e: "e \<in> set (held (threads c i))" using c th by (simp_all add: cinv_def)
  note el = published_element [OF c th]
  have "S \<subseteq> readers c \<and> heap ?c (el_addr x) = x \<and> elem_ok x \<and>
      (\<forall>k \<in> S. \<forall>a. nxt ?c (Some (el_addr x)) = Some a \<longrightarrow> a \<in> visible ?c k)"
    if x: "removed (threads ?c j) = Some (x, S)" for j x S
  proof -
    have j: "removed (threads c j) = Some (x, S)" "j \<noteq> i" using x by (auto simp: published_fields split: if_splits)
    have a: "el_addr x \<in> set (held (threads c j))" using removed_held [OF j(1)] by simp
    then have "el_addr x \<noteq> e" "el_addr x \<notin> listed c"
      using held_facts(3) [OF c j(2)] held_facts(2) [OF c, of j] cinv_list(2) [OF c] e by auto
    then have "heap ?c (el_addr x) = heap c (el_addr x)" "nxt ?c (Some (el_addr x)) = nxt c (Some (el_addr x))"
      using published_chain(2) [OF c th] by (auto simp: published_fields links_apply)
    with grace_removed [OF g j(1)] show ?thesis by (simp add: el(3))
  qed
  moreover have "S \<subseteq> W \<and> W \<subseteq> readers c" if "threads ?c j = Syncs x S W" for j x S W
    using that grace_sync [OF g, of j] by (simp add: published_fields split: if_splits)
  ultimately show ?thesis by (simp add: grace_inv_def el(5))
qed

lemma published_thread:
  assumes c: "cinv c" and th: "threads c i = PutWrote env source b e m t"
  shows "thread_ok (published i env source b e m t c) j (threads (published i env source b e m t c) j)"
proof -
  let ?c = "published i env source b e m t c"
  note el = published_element [OF c th] and f = published_fields [of i env source b e m t c]
  have "ahead (nxt ?c) p a" if "ahead (nxt c) p a" "p = None \<or> p \<in> Some ` visible c j" for p a
    unfolding f using that el(1) visible_closed [OF c] by (intro ahead_add [where V = "visible c j"]) blast+
  moreover have "reads_file ?c j = reads_file c j" by (simp add: reads_file_def f)
  moreover have "thread_ok c j (threads c j)" using c by (simp add: cinv_def)
  ultimately show ?thesis
    using th el(2) el(1) [of j]
    by (cases "threads c j") (auto simp: f(1,4,5) put_args_ok_def published_ok(4) [OF c th] el(3,4))
qed

lemma put_unlock_ok:
  assumes c: "cinv c" and th: "threads c i = PutWrote env source b e m t"
  shows "\<exists>c'. put_unlock i env source b e m t c = Inr c' \<and> cinv c'"
proof -
  let ?c = "published i env source b e m t c"
  have "wrote (threads c j) = None" if "j \<noteq> i" for j
    by (rule wrote_facts [OF c th]) (use that in blast)
  then have "lock_inv ?c" using published_unlocked(1) [OF c th] by (simp add: lock_inv_def published_fields(2,5))
  moreover have "driver_ok (settled ?c)"
    unfolding published_unlocked(2) [OF c th] unfolding published_fields by (rule published_ok(1) [OF c th])
  moreover have "session_inv ?c" using c by (simp add: cinv_def session_inv_def published_fields)
  ultimately have "cinv ?c"
    using published_mem [OF c th] published_chain(1) [OF c th] published_grace [OF c th] published_thread [OF c th]
    by (simp add: cinv_def)
  moreover have "put_unlock i env source b e m t c = Inr ?c"
    using put_publish_result [OF c th] by (simp add: put_unlock_def published_def Let_def)
  ultimately show ?thesis by blast
qed

section \<open>Steps of get\_data\<close>

lemma thread_okD: "cinv c \<Longrightarrow> threads c i = th \<Longrightarrow> thread_ok c i th"
  by (auto simp: cinv_def)

lemma get_call_ok:
  assumes c: "cinv c" and th: "threads c i = Idle" and env: "call_ok (Get env offset sz) (drv c)"
  shows "\<exists>c'. get_call i env offset sz c = Inr c' \<and> cinv c'"
proof (cases "get_enter offset (drv c)")
  case (Inl err)
  have "cinv (move i (Done (Fetched (Inl err))) c)" using c th by (intro cinv_move) simp_all
  with Inl show ?thesis by (simp add: get_call_def)
next
  case (Inr x)
  have "ahead (nxt c) None a" if "a \<in> listed c" for a
    using c that by (intro chain_ahead [of _ _ "map el_addr (valid_blk_list (drv c))"]) (auto simp: cinv_def ptr_inv_def listed_def)
  then have "cinv (move i (Walks env offset sz None (listed c)) c)"
    using c th env Inr by (intro cinv_move) (auto simp: get_enter_def split: if_splits)
  with Inr show ?thesis by (simp add: get_call_def)
qed

lemma get_walk_ok:
  assumes c: "cinv c" and th: "threads c i = Walks env offset sz p M"
  shows "\<exists>c'. get_walk i env offset sz p M c = Inr c' \<and> cinv c'"
proof -
  have t: "p = None \<or> p \<in> Some ` visible c i" "M \<subseteq> listed c"
    "\<And>a. a \<in> M \<Longrightarrow> ndx (heap c a) = offset \<Longrightarrow> ahead (nxt c) p a"
    "unat (scast offset :: u64) < md_array_size (drv c)" "call_ok (Get env offset sz) (drv c)"
    using thread_okD [OF c th] by simp_all
  have p: "(case p of Some a \<Rightarrow> if a \<notin> live (drv c) then Inl (UseAfterFree a) else Inr () | None \<Rightarrow> Inr ()) = Inr ()"
    using t(1) visible_live [OF c] by auto
  show ?thesis
  proof (cases "nxt c p")
    case None
    then show ?thesis using cinv_leave [OF c, of i] th by (simp add: get_walk_def p)
  next
    case (Some a)
    have a: "a \<in> visible c i" by (rule visible_closed [OF c t(1) Some])
    note av = visible_live [OF c a] visible_elem_ok [OF c a]
    have "cinv (move i (Reads env offset sz (heap c a)) c)" if "ndx (heap c a) = offset"
      using c th t av that by (intro cinv_move) simp_all
    moreover have "cinv (move i (Walks env offset sz (Some a) M) c)" if no: "ndx (heap c a) \<noteq> offset"
    proof (rule cinv_move [OF c])
      have "ahead (nxt c) (Some a) x" if "x \<in> M" "ndx (heap c x) = offset" for x
        using ahead_step [OF t(3) [OF that] Some] that no by auto
      then show "thread_ok c i (Walks env offset sz (Some a) M)" using t a by simp
    qed (use th in simp_all)
    ultimately show ?thesis using av by (auto simp: get_walk_def p Some)
  qed
qed

lemma get_copy_total: "elem_ok el \<Longrightarrow> \<exists>r. get_copy env offset sz el s = Inr r"
proof -
  assume "elem_ok el"
  then have "METADATA_SIZE + unat (scast (bytes_to_copy (el_valid_bytes el) sz) :: u64) \<le> DEFAULT_BLOCK_SIZE"
    using unat_bytes_to_copy [of "el_valid_bytes el" sz] unat_scast_nonneg [of "bytes_to_copy (el_valid_bytes el) sz"]
    by (auto simp: elem_ok_def layout_consts)
  then show ?thesis by (simp add: get_copy_def Let_def)
qed

lemma get_read_ok:
  assumes c: "cinv c" and th: "threads c i = Reads env offset sz el"
  shows "\<exists>c'. get_read i env offset sz el c = Inr c' \<and> cinv c'"
proof -
  have "elem_ok el" using thread_okD [OF c th] by simp
  then have "\<exists>r. get_copy env offset sz el (drv c) = Inr r" by (rule get_copy_total)
  then show ?thesis using cinv_leave [OF c, of i] th by (auto simp: get_read_def)
qed

section \<open>Steps of invalidate\_data\<close>

lemma inv_call_ok:
  assumes c: "cinv c" and th: "threads c i = Idle"
  shows "\<exists>c'. inv_call i br offset c = Inr c' \<and> cinv c'"
  using c th
  by (auto simp: inv_call_def inv_enter_def intro!: cinv_move split: sum.split if_splits)

lemma invalidate_critical_result:
  assumes ok: "driver_ok s" and i: "i < md_array_size s"
    and el: "list_lookup (valid_blk_list s) (word_of_nat i) = Some el" and br: "br (i + NUM_METADATA_BLKS)"
  shows "invalidate_critical br (word_of_nat i) (s\<lparr>rcu_write_lock := True\<rparr>) =
     Inr (Inr el, (inval_result i el s)\<lparr>live := live s\<rparr>)"
proof -
  note range = offset_in_range [OF ok i]
  from ok obtain arr where arr: "metadata_array s = Some arr" by (auto simp: driver_ok_def shape_ok_def)
  then have objs: "md_objs s = arr_elems arr" by (simp add: md_objs_def)
  have len: "i < length (arr_elems arr)" using ok i by (simp add: driver_ok_def shape_ok_def objs)
  have live: "md_addr (arr_elems arr ! i) \<in> live s"
    using ok len by (auto simp: driver_ok_def mem_ok_def owned_def arr)
  have n: "unat (ndx el) = i" using list_lookup_Some [OF el] range by simp
  have sh: "\<not> rcu_write_lock s" "the_dev_superblock s"
    using ok by (simp_all add: driver_ok_def shape_ok_def)
  show ?thesis
    using range sh live len br
    by (simp add: invalidate_critical_def el n arr word_add2_small Let_def
        spin_unlock_def inval_result_def objs list_delete_def)
qed

lemma invalidate_critical_fail:
  assumes ok: "driver_ok s" and i: "i < md_array_size s"
    and no: "list_lookup (valid_blk_list s) (word_of_nat i) = None \<or> \<not> br (i + NUM_METADATA_BLKS)"
  shows "invalidate_critical br (word_of_nat i) (s\<lparr>rcu_write_lock := True\<rparr>) =
     Inr (Inl (if list_lookup (valid_blk_list s) (word_of_nat i) = None then ENODATA else EPERM), s)"
proof -
  have ul: "s\<lparr>rcu_write_lock := False\<rparr> = s" "the_dev_superblock s"
    using ok by (auto simp: driver_ok_def shape_ok_def intro!: bldms.equality)
  show ?thesis
    using no offset_in_range(1) [OF ok i]
    by (auto simp: invalidate_critical_def word_add2_small Let_def spin_unlock_def ul split: option.split)
qed

lemma removal_ok:
  assumes c: "cinv c" "\<not> rcu_write_lock (drv c)" and k: "k < md_array_size (drv c)"
    and el: "list_lookup (valid_blk_list (drv c)) (word_of_nat k) = Some el"
  defines "s \<equiv> (inval_result k el (drv c))\<lparr>live := live (drv c)\<rparr>"
  shows "driver_ok s" "foreign s = insert (el_addr el) (foreign (drv c))"
    "valid_blk_list s = remove1 el (valid_blk_list (drv c))" "md_array_size s = md_array_size (drv c)"
    "live s = live (drv c)"
proof -
  note ok = unlocked(4) [OF c]
  let ?r = "inval_result k el (drv c)"
  have r: "driver_ok ?r" by (rule inval_result_ok [OF ok k el])
  have len: "k < length (md_objs (drv c))" using ok k by (simp add: driver_ok_def shape_ok_def)
  have live: "live ?r = live (drv c) - {el_addr el}" by (simp add: inval_result_def Let_def)
  have o: "set (owned ?r) \<subseteq> live (drv c) - {el_addr el}" using r live by (simp add: driver_ok_def mem_ok_def)
  show "driver_ok s" unfolding s_def using o by (intro driver_ok_live [OF r]) auto
  have "el_addr el \<in> live (drv c)"
    using owned_live [OF c(1)] list_lookup_Some [OF el] by (auto simp: owned_def)
  then have "live (drv c) - set (owned ?r) = insert (el_addr el) (foreign ?r)"
    using o by (auto simp: foreign_def live)
  then show "foreign s = insert (el_addr el) (foreign (drv c))"
    using inval_result_foreign [OF ok len el] by (simp add: s_def foreign_def)
  show "valid_blk_list s = remove1 el (valid_blk_list (drv c))" "md_array_size s = md_array_size (drv c)"
    "live s = live (drv c)"
    using el by (simp_all add: s_def inval_result_def Let_def list_delete_def)
qed

lemma unlist_fields [simp]:
  "held (unlist a th) = held th" "wrote (unlist a th) = wrote th" "in_section (unlist a th) = in_section th"
  "removed (unlist a th) = removed th" "unlist a th = Syncs el S W \<longleftrightarrow> th = Syncs el S W"
  by (cases th; simp)+

text \<open>The state after the removal of the element of block \<open>k\<close> by the thread \<open>i\<close>, which holds the lock alone.\<close>

definition unlinked :: "nat \<Rightarrow> nat \<Rightarrow> rcu_elem \<Rightarrow> conc \<Rightarrow> conc" where
  "unlinked i k el c = move i (Removed el (readers c))
     (c\<lparr>drv := (inval_result k el (drv c))\<lparr>live := live (drv c)\<rparr>,
        nxt := list_del_rcu (el_addr el) (prev_in None (el_addr el) (map el_addr (valid_blk_list (drv c)))) (nxt c),
        threads := (\<lambda>j. unlist (el_addr el) (threads c j))\<rparr>)"

definition removable :: "nat \<Rightarrow> nat \<Rightarrow> rcu_elem \<Rightarrow> conc \<Rightarrow> bool" where
  "removable i k el c \<longleftrightarrow> cinv c \<and> (\<exists>br offset. threads c i = InvWaits br offset) \<and> \<not> rcu_write_lock (drv c) \<and>
     k < md_array_size (drv c) \<and> list_lookup (valid_blk_list (drv c)) (word_of_nat k) = Some el"

lemma unlinked_fields:
  "drv (unlinked i k el c) = (inval_result k el (drv c))\<lparr>live := live (drv c)\<rparr>" "heap (unlinked i k el c) = heap c"
  "undo (unlinked i k el c) = undo c" "sessions (unlinked i k el c) = sessions c"
  "threads (unlinked i k el c) = (\<lambda>j. unlist (el_addr el) (threads c j))(i := Removed el (readers c))"
  "nxt (unlinked i k el c) =
     list_del_rcu (el_addr el) (prev_in None (el_addr el) (map el_addr (valid_blk_list (drv c)))) (nxt c)"
  by (simp_all add: unlinked_def)

lemma removable_facts:
  assumes "removable i k el c"
  shows "cinv c" "\<not> in_section (threads c i)" "removed (threads c i) = None" "ptr_inv c" "grace_inv c"
    "el \<in> set (valid_blk_list (drv c))" "el_addr el \<in> listed c" "el_addr el \<in> set (owned (drv c))" "el_addr el \<notin> set (holds c j)"
proof -
  have c: "cinv c" and el: "el \<in> set (valid_blk_list (drv c))"
    using assms list_lookup_Some by (auto simp: removable_def)
  then have a: "el_addr el \<in> listed c" by (simp add: listed_def)
  then show o: "el_addr el \<in> set (owned (drv c))" using cinv_list(2) [OF c] by auto
  show "el_addr el \<notin> set (holds c j)" using holds_facts(2) [OF c, of j] o by auto
qed (use assms list_lookup_Some in \<open>auto simp: removable_def cinv_def listed_def\<close>)

lemma unlinked_driver:
  assumes "removable i k el c"
  shows "driver_ok (drv (unlinked i k el c))" "settled (unlinked i k el c) = drv (unlinked i k el c)"
    "foreign (drv (unlinked i k el c)) = insert (el_addr el) (foreign (drv c))"
    "valid_blk_list (drv (unlinked i k el c)) = remove1 el (valid_blk_list (drv c))"
    "md_array_size (drv (unlinked i k el c)) = md_array_size (drv c)" "undo (unlinked i k el c) = None"
    "wrote (threads c j) = None"
proof -
  have r: "cinv c" "\<not> rcu_write_lock (drv c)" "k < md_array_size (drv c)"
    "list_lookup (valid_blk_list (drv c)) (word_of_nat k) = Some el" using assms by (simp_all add: removable_def)
  note p = removal_ok [OF r] and u = unlocked [OF r(1,2)]
  show "driver_ok (drv (unlinked i k el c))" "foreign (drv (unlinked i k el c)) = insert (el_addr el) (foreign (drv c))"
    "valid_blk_list (drv (unlinked i k el c)) = remove1 el (valid_blk_list (drv c))"
    "md_array_size (drv (unlinked i k el c)) = md_array_size (drv c)" "undo (unlinked i k el c) = None" "wrote (threads c j) = None"
    by (simp_all add: unlinked_fields p u)
  then show "settled (unlinked i k el c) = drv (unlinked i k el c)"
    by (auto simp: settled_def driver_ok_def shape_ok_def intro!: bldms.equality)
qed

text \<open>The links pass the element by, and its own link stays.\<close>

lemma unlink_chain:
  assumes c: "cinv c" and el: "el \<in> set (valid_blk_list (drv c))"
  defines "prev \<equiv> prev_in None (el_addr el) (map el_addr (valid_blk_list (drv c)))"
  shows "chain (list_del_rcu (el_addr el) prev (nxt c)) None (map el_addr (remove1 el (valid_blk_list (drv c))))"
    "nxt c prev = Some (el_addr el)" "prev \<noteq> Some (el_addr el)" "prev = None \<or> prev \<in> Some ` listed c"
proof -
  let ?l = "map el_addr (valid_blk_list (drv c))" and ?a = "el_addr el"
  have "map el_addr (remove1 el (valid_blk_list (drv c))) = remove1 ?a ?l"
    using cinv_list(1) [OF c] el by (intro map_remove1_inj) (auto simp: distinct_map)
  moreover have "chain (nxt c) None ?l" using c by (simp add: cinv_def ptr_inv_def)
  note del = chain_del [OF this cinv_list(1) [OF c], of ?a]
  ultimately show "chain (list_del_rcu ?a prev (nxt c)) None (map el_addr (remove1 el (valid_blk_list (drv c))))"
    "nxt c prev = Some ?a" "prev \<noteq> Some ?a" using del el by (simp_all add: prev_def)
  have "set (remove1 ?a ?l) \<subseteq> listed c" using set_remove1_subset [of ?a ?l] by (auto simp: listed_def)
  then show "prev = None \<or> prev \<in> Some ` listed c" using del el by (auto simp: prev_def)
qed

lemma unlinked_listed: "removable i k el c \<Longrightarrow> listed (unlinked i k el c) = listed c - {el_addr el}"
  using cinv_list(1) [of c] removable_facts(1,6) [of i k el c]
  by (auto simp: listed_def unlinked_driver distinct_map dest: inj_onD)

lemma unlinked_readers: "removable i k el c \<Longrightarrow> readers (unlinked i k el c) = readers c"
  using removable_facts(2) [of i k el c] by (auto simp: readers_def unlinked_fields)

lemma unlinked_visible:
  assumes r: "removable i k el c" and j: "j \<in> readers c"
  shows "visible (unlinked i k el c) j = visible c j"
proof -
  have eq: "(\<exists>x S. removed (threads (unlinked i k el c) n) = Some (x, S) \<and> j \<in> S \<and> y = el_addr x) \<longleftrightarrow>
      (\<exists>x S. removed (threads c n) = Some (x, S) \<and> j \<in> S \<and> y = el_addr x) \<or> n = i \<and> y = el_addr el" for n y
    using j removable_facts(3) [OF r] by (auto simp: unlinked_fields)
  show ?thesis unfolding visible_def unlinked_listed [OF r] eq using removable_facts(7) [OF r] by blast
qed

lemma unlinked_mem:
  assumes r: "removable i k el c"
  shows "mem_inv (unlinked i k el c)"
proof -
  let ?c = "unlinked i k el c" and ?hs = "el_addr el # keeps (sessions c i)"
  have c: "cinv c" and no: "el_addr el \<notin> set (holds c j)" for j using removable_facts(1,9) [OF r] by simp_all
  have f: "foreign (settled ?c) = insert (el_addr el) (foreign (drv c))" by (simp add: unlinked_driver [OF r])
  have "holds ?c = (holds c)(i := ?hs)" by (simp add: holds_def fun_eq_iff unlinked_fields)
  then show ?thesis
  proof (rule mem_inv_update [rotated])
    show "mem_inv c" using c by (simp add: cinv_def)
    show "distinct ?hs" using no [of i] by (simp add: holds_def)
    show "set ?hs \<subseteq> foreign (settled ?c)" unfolding f using keeps_facts(1) [OF c, of i] by (auto simp: foreign_def)
    show "set (holds c j) \<subseteq> foreign (settled ?c)" for j
      unfolding f using holds_facts(2) [OF c, of j] by (auto simp: foreign_def)
    show "set ?hs \<inter> set (holds c j) = {}" if "j \<noteq> i" for j using keeps_facts(2) [OF c that] no [of j] by auto
  qed
qed

lemma unlinked_grace:
  assumes r: "removable i k el c"
  shows "grace_inv (unlinked i k el c)"
proof -
  let ?c = "unlinked i k el c"
  note c = removable_facts [OF r] and v' = unlinked_visible [OF r] and del = unlink_chain [OF removable_facts(1,6) [OF r]]
  have "S \<subseteq> readers c \<and> heap c (el_addr x) = x \<and> elem_ok x \<and>
      (\<forall>n \<in> S. \<forall>y. nxt ?c (Some (el_addr x)) = Some y \<longrightarrow> y \<in> visible ?c n)"
    if x: "removed (threads ?c j) = Some (x, S)" for j x S
  proof (cases "j = i")
    case True
    then have xS: "x = el" "S = readers c" using x by (simp_all add: unlinked_fields)
    have "nxt ?c (Some (el_addr el)) = nxt c (Some (el_addr el))" using del(3) by (simp add: unlinked_fields links_apply)
    moreover have "y \<in> visible c n" if "nxt c (Some (el_addr el)) = Some y" for n y
      using visible_closed [OF c(1) _ that] c(7) by (auto simp: visible_def)
    ultimately show ?thesis using xS v' c(4,6) cinv_elem_ok [OF c(1,6)] by (auto simp: ptr_inv_def)
  next
    case False
    then have j: "removed (threads c j) = Some (x, S)" using x by (simp add: unlinked_fields)
    have "el_addr x \<notin> listed c"
      using removed_held [OF j] held_facts(2) [OF c(1), of j] cinv_list(2) [OF c(1)] by auto
    then have "nxt ?c (Some (el_addr x)) = nxt c (Some (el_addr x))" using del(4) by (auto simp: unlinked_fields links_apply)
    with grace_removed [OF c(5) j] v' show ?thesis by auto
  qed
  moreover have "S \<subseteq> W \<and> W \<subseteq> readers c" if "threads ?c j = Syncs x S W" for j x S W
    using that grace_sync [OF c(5), of j] by (simp add: unlinked_fields split: if_splits)
  ultimately show ?thesis by (simp add: grace_inv_def unlinked_readers [OF r] unlinked_fields(2))
qed

lemma unlinked_thread:
  assumes r: "removable i k el c"
  shows "thread_ok (unlinked i k el c) j (threads (unlinked i k el c) j)"
proof -
  let ?c = "unlinked i k el c"
  note c = removable_facts [OF r] and f = unlinked_fields(1,2,5) [of i k el c]
  have t: "thread_ok c j (threads c j)" using c(1) by (simp add: cinv_def)
  note n = unlinked_driver(5) [OF r, unfolded unlinked_fields]
  show ?thesis
  proof (cases "j \<in> readers c")
    case True
    then have "j \<noteq> i" "visible ?c j = visible c j" using c(2) unlinked_visible [OF r] by (auto simp: readers_def)
    moreover have "ahead (nxt ?c) q x" if "ahead (nxt c) q x" "x \<noteq> el_addr el" for q x
      unfolding unlinked_fields using that unlink_chain [OF c(1,6)] by (intro ahead_del) auto
    moreover have "reads_file ?c j = reads_file c j" by (simp add: reads_file_def unlinked_fields)
    ultimately show ?thesis
      using t by (cases "threads c j") (auto simp: f unlinked_listed [OF r] n put_args_ok_def)
  next
    case False
    then show ?thesis using t by (cases "threads c j") (auto simp: readers_def f n put_args_ok_def)
  qed
qed

lemma remove_ok:
  assumes "cinv c" "threads c i = InvWaits br offset" "\<not> rcu_write_lock (drv c)"
    and "k < md_array_size (drv c)" "list_lookup (valid_blk_list (drv c)) (word_of_nat k) = Some el"
  shows "cinv (unlinked i k el c)"
proof -
  let ?c = "unlinked i k el c"
  have r: "removable i k el c" using assms by (auto simp: removable_def)
  note c = removable_facts [OF r] and d = unlinked_driver [OF r]
  have "\<not> rcu_write_lock (drv ?c)" using d(1) by (simp add: driver_ok_def shape_ok_def)
  then have "lock_inv ?c" using d(6,7) by (simp add: lock_inv_def unlinked_fields)
  moreover have "ptr_inv ?c"
    using unlink_chain(1) [OF c(1,6)] c(4) by (auto simp: ptr_inv_def d(4) unlinked_fields(2,6) dest: in_set_remove1D)
  moreover have "session_inv ?c" using c(1) by (simp add: cinv_def session_inv_def unlinked_fields)
  ultimately show ?thesis
    using d(1,2) unlinked_mem [OF r] unlinked_grace [OF r] unlinked_thread [OF r] by (simp add: cinv_def)
qed

lemma inv_lock_cases:
  assumes c: "cinv c" and th: "threads c i = InvWaits br offset" and free: "\<not> rcu_write_lock (drv c)"
  obtains (fail) k where "k < md_array_size (drv c)" "offset = word_of_nat k"
      "list_lookup (valid_blk_list (drv c)) offset = None \<or> \<not> br (k + NUM_METADATA_BLKS)"
      "inv_lock i br offset c = Inr (move i (Done (Invalidated (Inl
         (if list_lookup (valid_blk_list (drv c)) offset = None then ENODATA else EPERM)))) c)"
    | (gone) k el where "k < md_array_size (drv c)" "offset = word_of_nat k" "br (k + NUM_METADATA_BLKS)"
      "list_lookup (valid_blk_list (drv c)) (word_of_nat k) = Some el"
      "inv_lock i br offset c = Inr (move i (Removed el (readers c))
         (c\<lparr>drv := (inval_result k el (drv c))\<lparr>live := live (drv c)\<rparr>,
            nxt := list_del_rcu (el_addr el) (prev_in None (el_addr el) (map el_addr (valid_blk_list (drv c)))) (nxt c),
            threads := (\<lambda>j. unlist (el_addr el) (threads c j))\<rparr>))"
proof -
  note ok = unlocked(4) [OF c free]
  have "unat (scast offset :: u64) < md_array_size (drv c)" using thread_okD [OF c th] by simp
  then obtain k where k: "k < md_array_size (drv c)" "offset = word_of_nat k"
    using offset_cases [OF ok, of offset] by (metis not_le)
  show thesis
  proof (cases "list_lookup (valid_blk_list (drv c)) (word_of_nat k) = None \<or> \<not> br (k + NUM_METADATA_BLKS)")
    case True
    then show thesis
      using invalidate_critical_fail [where br = br, OF ok k(1) True] free k
      by (intro fail [of k]) (simp_all add: inv_lock_def)
  next
    case False
    then obtain el where el: "list_lookup (valid_blk_list (drv c)) (word_of_nat k) = Some el" by auto
    show thesis
      using invalidate_critical_result [OF ok k(1) el, of br] False free k el
      by (intro gone [of k el]) (simp_all add: inv_lock_def Let_def)
  qed
qed

lemma inv_lock_ok:
  assumes c: "cinv c" and th: "threads c i = InvWaits br offset" and free: "\<not> rcu_write_lock (drv c)"
  shows "\<exists>c'. inv_lock i br offset c = Inr c' \<and> cinv c'"
  using c th free
proof (cases rule: inv_lock_cases)
  case fail
  have "cinv (move i (Done (Invalidated (Inl err))) c)" for err using c th by (intro cinv_move) simp_all
  with fail show ?thesis by blast
next
  case gone
  then show ?thesis using remove_ok [OF c th free gone(1,4)] by (simp add: unlinked_def)
qed

lemma inv_wait_ok:
  assumes c: "cinv c" and th: "threads c i = Removed el S"
  shows "\<exists>c'. inv_wait i el S c = Inr c' \<and> cinv c'"
proof -
  have "S \<subseteq> readers c" using c th by (intro grace_removed(1) [of c i el]) (simp_all add: cinv_def)
  then have "cinv (move i (Syncs el S (readers c)) c)"
    using c th held_facts(2,6) [OF c, of i] held_facts(4) [OF c, of _ i]
    by (intro cinv_move) (auto simp: foreign_settled)
  then show ?thesis by (simp add: inv_wait_def)
qed

lemma inv_free_ok:
  assumes c: "cinv c" and th: "threads c i = Syncs el S {}"
  shows "\<exists>c'. inv_free i el c = Inr c' \<and> cinv c'"
proof -
  let ?m = "move i (Done (Invalidated (Inr ()))) c" and ?L = "live (drv c) - {el_addr el}"
  note h = held_facts [OF c, of i]
  have "S = {}" using grace_sync [of c i el S "{}"] c th by (simp add: cinv_def)
  then have m: "cinv ?m" using c th by (intro cinv_move) simp_all
  have "el_addr el \<notin> set (holds ?m j)" for j
    using held_facts(4) [OF c, of j i] h(5) th by (cases "j = i") (auto simp: holds_def)
  then have "cinv (?m\<lparr>drv := (drv ?m)\<lparr>live := ?L\<rparr>\<rparr>)"
    using m h(2) th owned_live [OF m] holds_live [OF m] by (intro cinv_live) (auto simp del: move_fields(5))
  moreover have "el_addr el \<in> live (drv c)" using h(2) th by simp
  ultimately show ?thesis by (simp add: inv_free_def move_drv)
qed

end
