(* ===== verification/Concurrency_Read.thy ===== *)
theory Concurrency_Read
  imports Concurrency_Inv
begin

text \<open>
  The steps of the file operations keep the invariant of the concurrent system. A read that runs
  next to writers never leaves its block and never follows a pointer to freed memory; the
  timestamp of its session is its own.
\<close>

section \<open>Sessions\<close>

lemma set_session_fields [simp]:
  "drv (set_session i f c) = drv c" "nxt (set_session i f c) = nxt c" "heap (set_session i f c) = heap c"
  "undo (set_session i f c) = undo c" "threads (set_session i f c) = threads c"
  "sessions (set_session i f c) = (sessions c)(i := f)" "settled (set_session i f c) = settled c"
  "listed (set_session i f c) = listed c" "readers (set_session i f c) = readers c" "visible (set_session i f c) = visible c"
  by (simp_all add: set_session_def settled_def listed_def readers_def visible_def fun_eq_iff split: option.split)

lemma cinv_session:
  assumes c: "cinv c" and f: "\<And>g. f = Some g \<Longrightarrow> descriptor_ok g"
    and mem: "set (keeps f) \<subseteq> live (drv c) - set (owned (drv c))" "set (keeps f) \<inter> set (held (threads c i)) = {}"
      "\<And>j. j \<noteq> i \<Longrightarrow> set (keeps f) \<inter> set (holds c j) = {}"
    and sec: "in_section (threads c i) \<Longrightarrow> \<exists>g. f = Some g \<and> readable g"
  shows "cinv (set_session i f c)"
proof -
  let ?c = "set_session i f c"
  have inv: "mem_inv c" "lock_inv c" "ptr_inv c" "grace_inv c" "session_inv c" using c by (simp_all add: cinv_def)
  have h: "holds ?c = (holds c)(i := held (threads c i) @ keeps f)" by (simp add: holds_def fun_eq_iff)
  have "mem_inv ?c"
  proof (rule mem_inv_update [OF inv(1) h])
    show "distinct (held (threads c i) @ keeps f)" using held_facts(1) [OF c] mem(2) by auto
    show "set (held (threads c i) @ keeps f) \<subseteq> foreign (settled ?c)"
      using held_facts(2) [OF c, of i] mem(1) by (simp add: foreign_settled)
    show "set (holds c j) \<subseteq> foreign (settled ?c)" for j
      using holds_facts(2) [OF c, of j] by (simp add: foreign_settled)
    show "set (held (threads c i) @ keeps f) \<inter> set (holds c j) = {}" if "j \<noteq> i" for j
      using held_facts(4) [OF c that] mem(3) [OF that] by auto
  qed
  moreover have "lock_inv ?c" using inv(2) unfolding lock_inv_def set_session_fields .
  moreover have "ptr_inv ?c" using inv(3) by (simp add: ptr_inv_def)
  moreover have "grace_inv ?c" using inv(4) by (simp add: grace_inv_def)
  moreover have "session_inv ?c" using inv(5) f by (auto simp: session_inv_def)
  moreover have "thread_ok ?c j (threads ?c j)" for j
  proof (cases "j = i")
    case True
    then show ?thesis
      using thread_okD [OF c refl, of j] sec
      by (cases "threads c i") (auto simp: put_args_ok_def reads_file_def)
  next
    case False
    then show ?thesis using thread_okD [OF c refl, of j] thread_ok_cong [of ?c j c] by simp
  qed
  ultimately show ?thesis using c by (simp add: cinv_def)
qed

text \<open>Memory that a thread gives back.\<close>

lemma cinv_give_back:
  assumes c: "cinv c" and a: "a \<notin> set (owned (drv c))" "\<And>j. a \<notin> set (holds c j)"
  shows "cinv (c\<lparr>drv := (drv c)\<lparr>live := live (drv c) - {a}\<rparr>\<rparr>)"
  using a owned_live [OF c] holds_live [OF c] by (intro cinv_live [OF c]) auto

lemma cinv_take:
  assumes c: "cinv c"
  shows "cinv (c\<lparr>drv := (drv c)\<lparr>live := insert a (live (drv c))\<rparr>\<rparr>)"
  using owned_live [OF c] holds_live [OF c] by (intro cinv_live [OF c]) auto

lemma keeps_Some [simp]: "private_data f = Some (a, t) \<Longrightarrow> keeps (Some f) = [a]" "private_data f = None \<Longrightarrow> keeps (Some f) = []"
  "keeps None = []"
  by (simp_all add: keeps_def)

lemma set_session_drv: "set_session i f (c\<lparr>drv := s\<rparr>) = (set_session i f c)\<lparr>drv := s\<rparr>"
  by (simp add: set_session_def)

lemma session_memory:
  assumes c: "cinv c" and f: "sessions c i = Some f" "private_data f = Some (a, t)"
  shows "a \<in> live (drv c)" "a \<notin> set (owned (drv c))" "a \<notin> set (held (threads c i))" "\<And>j. j \<noteq> i \<Longrightarrow> a \<notin> set (holds c j)"
  using keeps_facts(1) [OF c, of i] keeps_facts(2) [OF c, where i = i] held_facts(5) [OF c, of i] f by auto

text \<open>The timestamp of a session is replaced: the new one is allocated and the old one is freed.\<close>

lemma cinv_swap:
  assumes c: "cinv c" and f: "sessions c i = Some f" "private_data f = Some (a, t)" and b: "b \<notin> live (drv c)"
    and g: "descriptor_ok g" "private_data g = Some (b, t')"
  shows "cinv (set_session i (Some g) (c\<lparr>drv := (drv c)\<lparr>live := insert b (live (drv c)) - {a}\<rparr>\<rparr>))"
proof -
  note m = session_memory [OF c f]
  let ?c1 = "c\<lparr>drv := (drv c)\<lparr>live := insert b (live (drv c))\<rparr>\<rparr>"
  have h1: "holds ?c1 j = holds c j" for j by (simp add: holds_def)
  have no: "b \<notin> set (holds c j)" for j using holds_live [OF c, of j] b by auto
  have c2: "cinv (set_session i (Some g) ?c1)"
  proof (rule cinv_session [OF cinv_take [OF c]])
    show "set (keeps (Some g)) \<subseteq> live (drv ?c1) - set (owned (drv ?c1))" using g(2) b owned_live [OF c] by auto
    show "set (keeps (Some g)) \<inter> set (held (threads ?c1 i)) = {}" using g(2) no [of i] by (simp add: holds_def)
    show "set (keeps (Some g)) \<inter> set (holds ?c1 j) = {}" for j using g(2) no h1 by simp
    show "\<exists>x. Some g = Some x \<and> readable x" using g by (auto simp: descriptor_ok_def)
  qed (use g in auto)
  have "cinv ((set_session i (Some g) ?c1)\<lparr>drv := (drv ?c1)\<lparr>live := live (drv ?c1) - {a}\<rparr>\<rparr>)"
  proof (rule cinv_give_back [OF c2, unfolded set_session_fields])
    show "a \<notin> set (owned (drv ?c1))" using m(2) by simp
    show "a \<notin> set (holds (set_session i (Some g) ?c1) j)" for j
      using m g(2) b by (cases "j = i") (auto simp: holds_def)
  qed
  then show ?thesis by (simp add: set_session_drv)
qed

lemma cinv_answer: "cinv c \<Longrightarrow> threads c i = Idle \<Longrightarrow> cinv (move i (FileDone r) c)"
  by (intro cinv_move) simp_all

lemma descriptor_okD: "cinv c \<Longrightarrow> sessions c i = Some f \<Longrightarrow> descriptor_ok f"
  by (auto simp: cinv_def session_inv_def)

lemma session_same: "sessions c i = f \<Longrightarrow> set_session i f c = c"
  by (auto simp: set_session_def intro!: conc.equality)

section \<open>open, llseek and release\<close>

lemma open_call_ok:
  assumes c: "cinv c" and th: "threads c i = Idle" and s: "sessions c i = None" and al: "unused alloc (drv c)"
  shows "\<exists>c'. open_call i alloc m c = Inr c' \<and> cinv c'"
proof -
  let ?f = "\<lparr>f_mode = m, f_pos = 0, private_data = None\<rparr>"
  have mnt: "bldms_mounted (drv c)" by (rule cinv_shape(1) [OF c])
  consider (fail) "readable ?f" "alloc = None" | (new) a where "readable ?f" "alloc = Some a" | (plain) "\<not> readable ?f" by auto
  then show ?thesis
  proof cases
    case fail
    then show ?thesis
      using mnt cinv_answer [OF c th] s by (simp add: open_call_def bldms_open_def session_same)
  next
    case new
    let ?g = "?f\<lparr>private_data := Some (a, Ktime 0)\<rparr>" and ?c = "c\<lparr>drv := kzalloc a (drv c)\<rparr>"
    have a: "a \<notin> live (drv c)" using al new by (simp add: unused_def fresh_def)
    have "descriptor_ok ?g" using new(1) by (simp add: descriptor_ok_def readable_def)
    then have "cinv (set_session i (Some ?g) ?c)"
      using cinv_take [OF c, of a] a owned_live [OF c] holds_live [OF c] th
      by (intro cinv_session) (auto simp: kzalloc_def holds_def)
    then show ?thesis
      using new mnt cinv_answer [of "set_session i (Some ?g) ?c" i] th by (simp add: open_call_def bldms_open_def Let_def)
  next
    case plain
    then have "descriptor_ok ?f" by (simp add: descriptor_ok_def)
    then have "cinv (set_session i (Some ?f) c)" using th by (intro cinv_session [OF c]) auto
    then show ?thesis
      using plain mnt cinv_answer [of "set_session i (Some ?f) c" i] th by (simp add: open_call_def bldms_open_def Let_def)
  qed
qed

lemma seek_call_ok:
  assumes c: "cinv c" and th: "threads c i = Idle" and s: "sessions c i = Some f" and al: "unused alloc (drv c)"
  shows "\<exists>c'. seek_call i alloc off wh f c = Inr c' \<and> cinv c'"
proof -
  have mnt: "bldms_mounted (drv c)" by (rule cinv_shape(1) [OF c])
  show ?thesis
  proof (cases "wh = SEEK_SET \<and> off = 0 \<and> private_data f \<noteq> None \<and> alloc \<noteq> None")
    case True
    then obtain a t b where f: "private_data f = Some (a, t)" "alloc = Some b" by auto
    let ?g = "f\<lparr>private_data := Some (b, Ktime 0), f_pos := 0\<rparr>"
    have b: "b \<notin> live (drv c)" using al f by (simp add: unused_def fresh_def)
    have "descriptor_ok ?g" using descriptor_okD [OF c s] f by (simp add: descriptor_ok_def readable_def)
    from cinv_swap [OF c s f(1) b this] session_memory(1) [OF c s f(1)] cinv_answer th True mnt f
    show ?thesis by (auto simp: seek_call_def bldms_llseek_def free_private_def kzalloc_def)
  next
    case False
    then show ?thesis
      using mnt cinv_answer [OF c th] s
      by (auto simp: seek_call_def bldms_llseek_def session_same split: option.split)
  qed
qed

lemma close_call_ok:
  assumes c: "cinv c" and th: "threads c i = Idle" and s: "sessions c i = Some f"
  shows "\<exists>c'. close_call i f c = Inr c' \<and> cinv c'"
proof -
  have mnt: "bldms_mounted (drv c)" by (rule cinv_shape(1) [OF c])
  have c1: "cinv (set_session i None c)" using th by (intro cinv_session [OF c]) auto
  show ?thesis
  proof (cases "private_data f")
    case None
    then show ?thesis
      using mnt c1 th cinv_answer [OF c1, of i] by (auto simp: close_call_def bldms_release_def free_private_def)
  next
    case (Some p)
    obtain a t where f: "private_data f = Some (a, t)" using Some by (cases p) auto
    note m = session_memory [OF c s f]
    have r: "readable f" using descriptor_okD [OF c s] f by (simp add: descriptor_ok_def)
    have "a \<notin> set (holds (set_session i None c) j)" for j using m by (cases "j = i") (auto simp: holds_def)
    with m(2) have "cinv ((set_session i None c)\<lparr>drv := (drv c)\<lparr>live := live (drv c) - {a}\<rparr>\<rparr>)"
      using cinv_give_back [OF c1, of a] by simp
    from cinv_answer [OF this, of i] show ?thesis
      using m(1) r mnt f th by (simp add: close_call_def bldms_release_def free_private_def set_session_drv)
  qed
qed

section \<open>The arithmetic of a read\<close>

lemma word_nat: obtains x where "unat (w :: u64) = x" "w = word_of_nat x"
  by (metis of_nat_unat ucast_id)

lemma read_clamp_span:
  assumes "read_clamp (word_of_nat (n * 4096)) pos len = Some (off, offset, len')"
    and "n \<le> 1000" "unat pos \<le> 4096000" "unat len < 2 ^ 63"
  shows "10 \<le> unat offset" "unat offset + unat len' \<le> 4096" "unat off \<le> 4096 * 999 + unat offset"
proof -
  obtain x where x: "unat pos = x" "pos = word_of_nat x" by (rule word_nat)
  obtain l where l: "unat len = l" "len = word_of_nat l" by (rule word_nat)
  define q where "q = x mod 4096"
  define m where "m = max q 10"
  have "\<not> word_of_nat (n * 4096) \<le> pos + 8192" using assms(1) by (simp add: read_clamp_def split: if_splits)
  then have b: "x + 8192 < n * 4096"
    unfolding x(2) u64_numerals u64_arith using assms(2,3) x(1) by (subst (asm) u64_order) simp_all
  have bounds: "x < 2 ^ 62" "n * 4096 < 2 ^ 62" "l < 2 ^ 63" "n * 4096 mod 4096 = 0" using assms x l by simp_all
  have r: "off = word_of_nat (x + (m - q))" "offset = word_of_nat m" "len' = word_of_nat (min l (4096 - m))"
    using assms(1) unfolding x(2) l(2) read_clamp_nat [OF bounds(1-3) b bounds(4) q_def [symmetric] m_def] by simp_all
  have q: "q < 4096" "q \<le> m" "10 \<le> m" "m < 4096" by (auto simp: q_def m_def)
  have "x = x div 4096 * 4096 + q" by (simp add: q_def)
  moreover have "x div 4096 < 998" using b assms(2) by (simp add: less_mult_imp_div_less)
  ultimately have "x + (m - q) \<le> 4096 * 999 + m" using q by linarith
  moreover have "unat off = x + (m - q)" "unat offset = m" "unat len' = min l (4096 - m)"
    unfolding r using bounds q assms(3) x(1) by (subst unat_u64; simp)+
  ultimately show "10 \<le> unat offset" "unat offset + unat len' \<le> 4096" "unat off \<le> 4096 * 999 + unat offset"
    using q by simp_all
qed

lemma block_start: "unat k < 1000 \<Longrightarrow> unat (ucast (k * 4096 :: u32) + 10 :: u64) = unat k * 4096 + 10"
  using pos_of_block [of "unat k"] by (simp add: file_pos_def del: of_nat_add of_nat_mult)

lemma read_find_one:
  assumes rd: "reading_ok rd" and el: "elem_ok el" and ts: "a \<in> lv"
  shows "\<exists>els blk off offset len.
     read_find lv (Some (a, t)) (rd_blk rd) (rd_off rd) (rd_offset rd) (rd_len rd) [el] = Inr (els, blk, off, offset, len) \<and>
     reading_ok (rd\<lparr>rd_blk := blk, rd_off := off, rd_offset := offset, rd_len := len\<rparr>)"
proof -
  consider (here) "ndx el = rd_blk rd" | (later) "ndx el \<noteq> rd_blk rd" "t < el_nsec el" | (on) "ndx el \<noteq> rd_blk rd" "\<not> t < el_nsec el"
    by blast
  then show ?thesis
  proof cases
    case later
    have "unat (if el_valid_bytes el < rd_len rd then el_valid_bytes el else rd_len rd) \<le> 4086"
      using rd el by (auto simp: reading_ok_def elem_ok_def layout_consts)
    then show ?thesis
      using later rd el ts block_start [of "ndx el"] by (simp add: reading_ok_def elem_ok_def)
  qed (use rd ts in \<open>simp_all add: reading_ok_def\<close>)
qed

lemma scast_small: "r \<le> 4096 \<Longrightarrow> scast (word_of_nat r :: u32) = (word_of_nat r :: u64)"
  using unat_scast_nonneg [of "word_of_nat r"] by (intro unat_eqD) (simp add: unat_of_nat)

lemma read_block_result:
  assumes rd: "reading_ok rd" and el: "elem_ok el"
  shows "\<exists>r. read_block (rd_env rd) el (rd_blk rd) (rd_off rd) (rd_offset rd) (rd_len rd) d = Inr r \<and>
     (\<forall>x off. r = Inl (x, off) \<longrightarrow> unat off \<le> 4096000)"
proof -
  obtain v where v: "unat (el_valid_bytes el) = v" "el_valid_bytes el = word_of_nat v" by (rule word_nat)
  obtain p where p: "unat (rd_off rd) = p" "rd_off rd = word_of_nat p" by (rule word_nat)
  obtain q where q: "unat (rd_offset rd) = q" "rd_offset rd = word_of_nat q" by (rule word_nat)
  obtain l where l: "unat (rd_len rd) = l" "rd_len rd = word_of_nat l" by (rule word_nat)
  have b: "10 \<le> q" "q + l \<le> 4096" "p \<le> 4096 * 999 + q" "v \<le> 4086"
    using rd el by (simp_all add: reading_ok_def elem_ok_def layout_consts v(1) q(1) l(1) p(1))
  have c1: "el_valid_bytes el < rd_offset rd - 10 \<longleftrightarrow> v < q - 10"
    unfolding v(2) q(2) u64_numerals u64_arith(2) [OF b(1)] using b by (subst u64_order) simp_all
  define k where "k = (if v < l + q - 10 then v - (q - 10) else l)"
  have "rd_len rd + rd_offset rd - 10 = word_of_nat (l + q - 10)"
    unfolding l(2) q(2) u64_numerals u64_arith(1) using b by (intro u64_arith) simp
  moreover have "(word_of_nat v :: u64) < word_of_nat (l + q - 10) \<longleftrightarrow> v < l + q - 10"
    using b by (subst u64_order) simp_all
  ultimately have c2: "el_valid_bytes el < rd_len rd + rd_offset rd - 10 \<longleftrightarrow> v < l + q - 10"
    by (simp only: v(2))
  show ?thesis
  proof (cases "v < q - 10")
    case False
    have "el_valid_bytes el - (rd_offset rd - 10) = word_of_nat (v - (q - 10))"
      unfolding v(2) q(2) u64_numerals u64_arith(2) [OF b(1)] using False by (intro u64_arith) simp
    then have len: "(if el_valid_bytes el < rd_len rd + rd_offset rd - 10 then el_valid_bytes el - (rd_offset rd - 10)
        else rd_len rd) = word_of_nat k"
      unfolding c2 by (simp add: k_def l(2))
    have k: "q + k \<le> 4096" "k \<le> 4086" using b False by (auto simp: k_def)
    define r where "r = to_user (rd_env rd) k"
    have r: "r \<le> k" using rd k(2) by (simp add: reading_ok_def r_def)
    have sr: "scast (word_of_nat r :: u32) = (word_of_nat r :: u64)" using r k by (intro scast_small) simp
    have "word_of_nat k - (word_of_nat r :: u64) = word_of_nat (k - r)" using r by (rule u64_arith)
    then have "rd_off rd + (word_of_nat k - word_of_nat r) = word_of_nat (p + (k - r))" unfolding p(2) by (simp only: u64_arith)
    then have "unat (rd_off rd + (word_of_nat k - word_of_nat r)) = p + (k - r)"
      using b k by (simp only:) (subst unat_u64; simp)
    then have off: "unat (rd_off rd + (word_of_nat k - word_of_nat r)) \<le> 4096000" using b k r by simp
    have "unat (word_of_nat k :: u64) = k" "p \<le> 4096000" using b k by simp_all
    then show ?thesis
      using False k off p(1) by (simp add: read_block_def c1 len Let_def q(1) layout_consts r_def [symmetric] sr)
  qed (simp add: read_block_def c1)
qed

section \<open>Steps of bldms\_read\<close>

lemma file_bytes_bound: "cinv c \<Longrightarrow> unat (file_bytes (drv c)) \<le> 4096000"
  using cinv_shape(4) [of c] by (simp add: file_bytes_def layout_consts del: of_nat_mult)

lemma reads_session:
  assumes c: "cinv c" and s: "sessions c i = Some f" and r: "reads_file c i"
  obtains a t where "private_data f = Some (a, t)" "a \<in> live (drv c)" "readable f" "descriptor_ok f"
proof -
  have f: "descriptor_ok f" "readable f" using descriptor_okD [OF c s] r s by (simp_all add: reads_file_def)
  then obtain a t where "private_data f = Some (a, t)" by (auto simp: descriptor_ok_def)
  with session_memory(1) [OF c s this] f show thesis by (intro that [of a t]) simp_all
qed

text \<open>The position is all that changes in the session, and the call ends.\<close>

lemma read_reply_ok:
  assumes c: "cinv c" and sec: "in_section (threads c i)" and s: "sessions c i = Some f" and f: "readable f"
    and off: "\<And>n. fst r = Inr n \<Longrightarrow> unat off \<le> 4096000"
  shows "cinv (read_reply i r off f c)"
proof -
  have "cinv (set_session i (Some (f\<lparr>f_pos := pos\<rparr>)) c)" if "unat pos \<le> 4096000" for pos
  proof (rule cinv_session [OF c])
    have k: "keeps (Some (f\<lparr>f_pos := pos\<rparr>)) = keeps (sessions c i)" by (simp add: s keeps_def)
    show "set (keeps (Some (f\<lparr>f_pos := pos\<rparr>))) \<subseteq> live (drv c) - set (owned (drv c))"
      unfolding k by (rule keeps_facts(1) [OF c])
    show "set (keeps (Some (f\<lparr>f_pos := pos\<rparr>))) \<inter> set (held (threads c i)) = {}"
      unfolding k using held_facts(5) [OF c, of i] by auto
    show "set (keeps (Some (f\<lparr>f_pos := pos\<rparr>))) \<inter> set (holds c j) = {}" if "j \<noteq> i" for j
      unfolding k by (rule keeps_facts(2) [OF c that])
  qed (use descriptor_okD [OF c s] f that in \<open>auto simp: descriptor_ok_def readable_def\<close>)
  then show ?thesis
    using off cinv_leave [OF c sec] cinv_leave [where i = i] sec
    by (auto simp: read_reply_def session_same [OF s] split: sum.split)
qed

lemma read_call_ok:
  assumes c: "cinv c" and th: "threads c i = Idle" and s: "sessions c i = Some f" and env: "read_ok env len f"
  shows "\<exists>c'. read_call i env len f c = Inr c' \<and> cinv c'"
proof (cases "read_clamp (file_bytes (drv c)) (f_pos f) len")
  case None
  then show ?thesis using cinv_answer [OF c th] by (simp add: read_call_def)
next
  case (Some x)
  obtain off offset l where x: "read_clamp (word_of_nat (md_array_size (drv c) * 4096)) (f_pos f) len = Some (off, offset, l)"
    using Some by (cases x) (simp add: file_bytes_def)
  have "md_array_size (drv c) \<le> 1000" "unat (f_pos f) \<le> 4096000" "unat len < 2 ^ 63"
    using cinv_shape(4) [OF c] descriptor_okD [OF c s] env by (simp_all add: descriptor_ok_def read_ok_def layout_consts)
  note span = read_clamp_span [OF x this]
  let ?rd = "\<lparr>rd_env = env, rd_blk = word_of_int (sint off sdiv 4096), rd_off = off, rd_offset = offset, rd_len = l\<rparr>"
  have "reading_ok ?rd" using span env by (simp add: reading_ok_def read_ok_def)
  then have "cinv (move i (RWalks ?rd None) c)"
    using c th s env by (intro cinv_move) (auto simp: reads_file_def read_ok_def)
  then show ?thesis using x by (simp add: read_call_def file_bytes_def)
qed

lemma read_walk_ok:
  assumes c: "cinv c" and th: "threads c i = RWalks rd p" and s: "sessions c i = Some f"
  shows "\<exists>c'. read_walk i rd p f c = Inr c' \<and> cinv c'"
proof -
  have t: "p = None \<or> p \<in> Some ` visible c i" "reading_ok rd" "reads_file c i"
    using thread_okD [OF c th] by simp_all
  obtain b ts where f: "private_data f = Some (b, ts)" "b \<in> live (drv c)" "readable f"
    by (rule reads_session [OF c s t(3)])
  have p: "(case p of Some a \<Rightarrow> if a \<notin> live (drv c) then Inl (UseAfterFree a) else Inr () | None \<Rightarrow> Inr ()) = Inr ()"
    using t(1) visible_live [OF c] by auto
  show ?thesis
  proof (cases "nxt c p")
    case None
    then show ?thesis
      using read_reply_ok [OF c _ s f(3), of "(Inr 0, [])" "file_bytes (drv c)"] th file_bytes_bound [OF c]
      by (simp add: read_walk_def p)
  next
    case (Some a)
    have a: "a \<in> visible c i" by (rule visible_closed [OF c t(1) Some])
    note av = visible_live [OF c a] visible_elem_ok [OF c a]
    obtain els blk off offset len where
      r: "read_find (live (drv c)) (Some (b, ts)) (rd_blk rd) (rd_off rd) (rd_offset rd) (rd_len rd) [heap c a] =
        Inr (els, blk, off, offset, len)"
      and ok: "reading_ok (rd\<lparr>rd_blk := blk, rd_off := off, rd_offset := offset, rd_len := len\<rparr>)"
      using read_find_one [OF t(2) av(2) f(2)] by blast
    have "cinv (move i (RWalks rd (Some a)) c)" using c th t a by (intro cinv_move) simp_all
    moreover have "cinv (move i (RFound (rd\<lparr>rd_blk := blk, rd_off := off, rd_offset := offset, rd_len := len\<rparr>) (heap c a)) c)"
      using c th t a av ok by (intro cinv_move) simp_all
    ultimately show ?thesis using av(1) r by (simp add: read_walk_def p Some f(1))
  qed
qed

lemma read_copy_ok:
  assumes c: "cinv c" and th: "threads c i = RFound rd el" and s: "sessions c i = Some f"
  shows "\<exists>c'. read_copy i rd el f c = Inr c' \<and> cinv c'"
proof -
  have t: "el_addr el \<in> visible c i" "heap c (el_addr el) = el" "reading_ok rd" "reads_file c i"
    using thread_okD [OF c th] by simp_all
  have el: "elem_ok el" using visible_elem_ok(1) [OF c t(1)] t(2) by simp
  have f: "readable f" using t(4) s by (simp add: reads_file_def)
  obtain r where r: "read_block (rd_env rd) el (rd_blk rd) (rd_off rd) (rd_offset rd) (rd_len rd) (disk (drv c)) = Inr r"
    and off: "\<And>x off. r = Inl (x, off) \<Longrightarrow> unat off \<le> 4096000"
    using read_block_result [OF t(3) el] by blast
  have "cinv (move i (RNext rd ret out el) c)" for ret out using c th t by (intro cinv_move) simp_all
  moreover have "cinv (read_reply i x off f c)" if "r = Inl (x, off)" for x off
    using read_reply_ok [OF c _ s f] th off [OF that] by simp
  ultimately show ?thesis by (cases r) (auto simp: read_copy_def r)
qed

lemma read_advance_ok:
  assumes c: "cinv c" and th: "threads c i = RNext rd ret out el" and s: "sessions c i = Some f" and al: "unused alloc (drv c)"
  shows "\<exists>c'. read_advance i alloc rd ret out el f c = Inr c' \<and> cinv c'"
proof -
  have t: "el_addr el \<in> visible c i" "reads_file c i" using thread_okD [OF c th] by simp_all
  obtain a ts where f: "private_data f = Some (a, ts)" "a \<in> live (drv c)" "readable f" "descriptor_ok f"
    by (rule reads_session [OF c s t(2)])
  have live: "el_addr el \<in> live (drv c)" by (rule visible_live [OF c t(1)])
  show ?thesis
  proof (cases "nxt c (Some (el_addr el))")
    case None
    then show ?thesis
      using live read_reply_ok [OF c _ s f(3), of _ "file_bytes (drv c)"] th file_bytes_bound [OF c]
      by (simp add: read_advance_def set_next_blk_def)
  next
    case (Some x)
    then have x: "x \<in> visible c i" using visible_closed [OF c, of "Some (el_addr el)" i] t(1) by simp
    note xv = visible_live [OF c x] visible_elem_ok(1) [OF c x]
    show ?thesis
    proof (cases alloc)
      case None
      then show ?thesis
        using live xv read_reply_ok [OF c _ s f(3), of "(Inl ENOMEM, out)"] th Some
        by (simp add: read_advance_def set_next_blk_def)
    next
      case (Some b)
      have b: "b \<notin> live (drv c)" using al Some by (simp add: unused_def fresh_def)
      let ?g = "f\<lparr>private_data := Some (b, el_nsec (heap c x))\<rparr>" and ?off = "ucast (ndx (heap c x) * 4096) + 10 :: u64"
      let ?s = "(drv c)\<lparr>live := insert b (live (drv c)) - {a}\<rparr>"
      have off: "unat ?off \<le> 4096000" using block_start [of "ndx (heap c x)"] xv(2) by (simp add: elem_ok_def)
      have g: "descriptor_ok ?g" "readable ?g" using f by (simp_all add: descriptor_ok_def readable_def)
      have c1: "cinv (set_session i (Some ?g) (c\<lparr>drv := ?s\<rparr>))" using cinv_swap [OF c s f(1) b g(1)] by simp
      have "read_advance i alloc rd ret out el f c =
          Inr (read_reply i (Inr (scast ret), out) ?off ?g (c\<lparr>drv := ?s\<rparr>))"
        using live xv(1) \<open>nxt c (Some (el_addr el)) = Some x\<close> f Some
        by (simp add: read_advance_def set_next_blk_def free_private_def kzalloc_def rcu_read_lock_def rcu_read_unlock_def)
      moreover have "read_reply i (Inr (scast ret), out) ?off ?g (c\<lparr>drv := ?s\<rparr>) =
          read_reply i (Inr (scast ret), out) ?off ?g (set_session i (Some ?g) (c\<lparr>drv := ?s\<rparr>))"
        by (simp add: read_reply_def set_session_def)
      ultimately show ?thesis
        using read_reply_ok [OF c1 _ _ g(2), of i "(Inr (scast ret), out)" ?off] th off by simp
    qed
  qed
qed

section \<open>All steps\<close>

theorem cstep_ok: "cstep c i r \<Longrightarrow> cinv c \<Longrightarrow> \<exists>c'. r = Inr c' \<and> cinv c'"
proof (induction rule: cstep.induct)
  case (step_return r)
  then have "cinv (move i Idle c)" by (intro cinv_move) simp_all
  then show ?case by blast
next
  case (step_file_return r)
  then have "cinv (move i Idle c)" by (intro cinv_move) simp_all
  then show ?case by blast
qed (auto intro: open_call_ok seek_call_ok close_call_ok read_call_ok read_walk_ok read_copy_ok read_advance_ok put_call_ok put_lock_ok put_unlock_ok get_call_ok get_walk_ok get_read_ok inv_call_ok inv_lock_ok inv_wait_ok
    inv_free_ok simp del: call_ok.simps)

end
