(* ===== verification/Concurrency_Spec.thy ===== *)
theory Concurrency_Spec
  imports Concurrency_Read
begin

text \<open>
  What the invariant gives: the reachable states of the concurrent system, the specification
  steps that its steps implement, what a walk along the list is sure to find, and that no
  thread is stuck for good.
\<close>

section \<open>Reachable states\<close>

inductive reachable :: "('s \<Rightarrow> bool) \<Rightarrow> ('s \<Rightarrow> fault + 's \<Rightarrow> bool) \<Rightarrow> 's \<Rightarrow> bool" for start step where
  reach_start: "start s \<Longrightarrow> reachable start step s"
| reach_step: "reachable start step s \<Longrightarrow> step s (Inr s') \<Longrightarrow> reachable start step s'"

locale safe_system =
  fixes start :: "'s \<Rightarrow> bool"
    and step :: "'s \<Rightarrow> fault + 's \<Rightarrow> bool"
    and inv :: "'s \<Rightarrow> bool"
  assumes start_inv: "start s \<Longrightarrow> inv s"
    and step_inv: "inv s \<Longrightarrow> step s r \<Longrightarrow> \<exists>s'. r = Inr s' \<and> inv s'"
begin

lemma reachable_inv: "reachable start step s \<Longrightarrow> inv s"
  by (induction rule: reachable.induct) (auto dest: start_inv step_inv)

lemma never_faults: "reachable start step s \<Longrightarrow> \<not> step s (Inl f)"
  using reachable_inv step_inv by blast

end

text \<open>The links and the contents of the elements of a list of valid blocks.\<close>

fun links_from :: "addr option \<Rightarrow> addr list \<Rightarrow> links" where
  "links_from p [] = (\<lambda>_. None)"
| "links_from p (x # xs) = (links_from (Some x) xs)(p := Some x)"

definition heap_of :: "rcu_elem list \<Rightarrow> addr \<Rightarrow> rcu_elem" where
  "heap_of xs a = (case find (\<lambda>el. el_addr el = a) xs of Some el \<Rightarrow> el | None \<Rightarrow> rcu_fill a 0 0 (Ktime 0))"

definition conc_of :: "bldms \<Rightarrow> conc" where
  "conc_of s = \<lparr>drv = s, nxt = links_from None (map el_addr (valid_blk_list s)), heap = heap_of (valid_blk_list s),
     undo = None, threads = (\<lambda>_. Idle), sessions = (\<lambda>_. None)\<rparr>"

definition conc_start :: "conc \<Rightarrow> bool" where
  "conc_start c \<longleftrightarrow> (\<exists>s. driver_ok s \<and> c = conc_of s)"

lemma chain_links_from: "distinct xs \<Longrightarrow> p \<notin> Some ` set xs \<Longrightarrow> chain (links_from p xs) p xs"
proof (induction xs arbitrary: p)
  case (Cons x xs)
  then have "chain (links_from (Some x) xs) (Some x) xs" by auto
  moreover have "chain ((links_from (Some x) xs)(p := Some x)) (Some x) xs = chain (links_from (Some x) xs) (Some x) xs"
    using Cons.prems by (intro chain_cong) auto
  ultimately show ?case unfolding links_from.simps chain.simps by (simp only: fun_upd_same)
qed simp

lemma heap_of_mem: "distinct (map el_addr xs) \<Longrightarrow> el \<in> set xs \<Longrightarrow> heap_of xs (el_addr el) = el"
proof (induction xs)
  case (Cons x xs)
  then show ?case by (cases "el = x") (auto simp: heap_of_def)
qed simp

lemma start_cinv: "conc_start c \<Longrightarrow> cinv c"
proof -
  assume "conc_start c"
  then obtain s where s: "driver_ok s" "c = conc_of s" by (auto simp: conc_start_def)
  have f: "drv c = s" "undo c = None" "threads c = (\<lambda>_. Idle)" "sessions c = (\<lambda>_. None)"
    by (simp_all add: s conc_of_def)
  have ul: "\<not> rcu_write_lock s" using s by (simp add: driver_ok_def shape_ok_def)
  then have st: "settled c = s" by (auto simp: settled_def f intro!: bldms.equality)
  have "distinct (map el_addr (valid_blk_list s))" using s by (simp add: driver_ok_def mem_ok_def owned_def)
  then have "ptr_inv c"
    using heap_of_mem [of "valid_blk_list s"] chain_links_from [of "map el_addr (valid_blk_list s)" None]
    by (simp add: ptr_inv_def f) (simp add: s conc_of_def)
  then show ?thesis
    using s(1) ul by (simp add: cinv_def st mem_inv_def lock_inv_def grace_inv_def session_inv_def holds_def f)
qed

interpretation conc: safe_system conc_start conc_step cinv
  using start_cinv cstep_ok by unfold_locales (auto simp: conc_step_def)

section \<open>Quiet steps\<close>

text \<open>
  A file operation changes the allocated memory, the session and the state of the thread that
  makes it; at the end of its section it is forgotten by the grace periods.
\<close>

definition quiet :: "nat \<Rightarrow> conc \<Rightarrow> conc \<Rightarrow> bool" where
  "quiet i c c' \<longleftrightarrow> (\<exists>L th. drv c' = (drv c)\<lparr>live := L\<rparr> \<and> nxt c' = nxt c \<and> heap c' = heap c \<and> undo c' = undo c \<and>
     (\<forall>j. j \<noteq> i \<longrightarrow> sessions c' j = sessions c j) \<and> removed th = None \<and>
     (threads c' = (threads c)(i := th) \<or> threads c' = (\<lambda>j. forget i (threads c j))(i := th)))"

fun reads_step :: "thread \<Rightarrow> bool" where
  "reads_step (RWalks rd p) = True"
| "reads_step (RFound rd el) = True"
| "reads_step (RNext rd ret out el) = True"
| "reads_step (FileDone r) = True"
| "reads_step th = False"

lemma quietI:
  assumes "drv c' = (drv c)\<lparr>live := L\<rparr>" "nxt c' = nxt c" "heap c' = heap c" "undo c' = undo c"
    "\<And>j. j \<noteq> i \<Longrightarrow> sessions c' j = sessions c j" "removed th = None"
    "threads c' = (threads c)(i := th) \<or> threads c' = (\<lambda>j. forget i (threads c j))(i := th)"
  shows "quiet i c c'"
  using assms unfolding quiet_def by blast

lemma quiet_move: "removed th = None \<Longrightarrow> quiet i c (move i th c)"
  by (rule quietI [where L = "live (drv c)" and th = th]) simp_all

lemma quiet_answer: "quiet i c (move i (FileDone r) (set_session i f (c\<lparr>drv := (drv c)\<lparr>live := L\<rparr>\<rparr>)))"
  by (rule quietI [where L = L and th = "FileDone r"]) simp_all

lemma quiet_reply: "quiet i c (read_reply i r off f (c\<lparr>drv := (drv c)\<lparr>live := L\<rparr>\<rparr>))"
proof (cases "fst r")
  case (Inl e)
  then show ?thesis
    by (intro quietI [where L = L and th = "FileDone (Delivered (Inl e))"]) (simp_all add: read_reply_def)
next
  case (Inr n)
  then show ?thesis
    by (intro quietI [where L = L and th = "FileDone (Delivered (Inr (n, snd r)))"]) (simp_all add: read_reply_def)
qed

lemma live_self [simp]: "c\<lparr>drv := (drv c)\<lparr>live := live (drv c)\<rparr>\<rparr> = c"
  by simp

lemma free_private_live: "free_private f s = Inr s' \<Longrightarrow> \<exists>L. s' = s\<lparr>live := L\<rparr>"
  by (auto simp: free_private_def kfree_def split: option.splits if_splits) (metis kmem.surjective kmem.update_convs(1))

lemma set_next_blk_live:
  assumes "set_next_blk env file_sz ret out rest off f (rcu_read_lock s) = Inr (r, off', f', s')"
  shows "\<exists>L. s' = s\<lparr>live := L\<rparr>"
  using assms
  by (auto simp: set_next_blk_def andThen_eq_Inr kzalloc_def rcu_read_lock_def rcu_read_unlock_def
      dest!: free_private_live intro: exI [of _ "live s'"] split: list.splits option.splits)

lemma file_steps_quiet:
  "open_call i alloc m c = Inr c' \<Longrightarrow> quiet i c c'"
  "seek_call i alloc pos wh f c = Inr c' \<Longrightarrow> quiet i c c'"
  "close_call i f c = Inr c' \<Longrightarrow> quiet i c c'"
  "read_call i env len f c = Inr c' \<Longrightarrow> quiet i c c'"
  "read_walk i rd p f c = Inr c' \<Longrightarrow> quiet i c c'"
  "read_copy i rd el f c = Inr c' \<Longrightarrow> quiet i c c'"
  "read_advance i alloc rd ret out el f c = Inr c' \<Longrightarrow> quiet i c c'"
proof -
  note answer = quiet_answer [of i c] quiet_answer [of i c _ _ "live (drv c)", unfolded live_self]
  show "open_call i alloc m c = Inr c' \<Longrightarrow> quiet i c c'"
    by (auto simp: open_call_def bldms_open_def kzalloc_def Let_def intro: answer split: if_splits option.splits)
  show "seek_call i alloc pos wh f c = Inr c' \<Longrightarrow> quiet i c c'"
    by (auto simp: seek_call_def bldms_llseek_def kzalloc_def andThen_eq_Inr dest!: free_private_live
        intro: answer split: if_splits option.splits)
  show "close_call i f c = Inr c' \<Longrightarrow> quiet i c c'"
    by (auto simp: close_call_def bldms_release_def andThen_eq_Inr dest!: free_private_live
        intro: answer split: if_splits)
  note reply = quiet_reply [of i c] quiet_reply [of i c _ _ _ "live (drv c)", unfolded live_self]
  show "read_call i env len f c = Inr c' \<Longrightarrow> quiet i c c'"
    by (auto simp: read_call_def intro: quiet_move split: option.splits)
  show "read_walk i rd p f c = Inr c' \<Longrightarrow> quiet i c c'"
    by (auto simp: read_walk_def andThen_eq_Inr intro: quiet_move reply split: option.splits if_splits)
  show "read_copy i rd el f c = Inr c' \<Longrightarrow> quiet i c c'"
    by (cases "read_block (rd_env rd) el (rd_blk rd) (rd_off rd) (rd_offset rd) (rd_len rd) (disk (drv c))")
      (auto simp: read_copy_def intro: quiet_move reply split: sum.split_asm prod.split_asm)
  show "read_advance i alloc rd ret out el f c = Inr c' \<Longrightarrow> quiet i c c'"
    by (auto simp: read_advance_def andThen_eq_Inr dest!: set_next_blk_live intro: reply split: if_splits)
qed

section \<open>Specification steps\<close>

text \<open>
  The step at which a writing call takes effect, or fails with nothing done, and the answer it
  will give: the publication for \<open>put_data\<close>, the removal from the list for \<open>invalidate_data\<close>.
\<close>

fun effect :: "thread \<Rightarrow> thread \<Rightarrow> (call \<times> reply) option" where
  "effect (PutWaits env source b e m) (Done r) = Some (Put env source, r)"
| "effect (PutWrote env source b e m t) (Done r) = Some (Put env source, r)"
| "effect (InvWaits br offset) (Removed el S) = Some (Invalidate br offset, Invalidated (Inr ()))"
| "effect (InvWaits br offset) (Done r) = Some (Invalidate br offset, r)"
| "effect _ _ = None"

abbreviation shared :: "conc \<Rightarrow> store" where
  "shared c \<equiv> store_of (settled c)"

lemma effect_same [simp]: "effect th th = None"
  by (cases th) auto

lemma effect_forget [simp]: "effect th (forget i th) = None"
  by (cases th) auto

lemma effect_unlist [simp]: "effect th (unlist a th) = None"
  by (cases th) auto

lemma store_of_live [simp]: "store_of (s\<lparr>live := L\<rparr>) = store_of s"
  by (auto simp: store_of_def messages_def md_objs_def md_at_def fun_eq_iff)

definition implements :: "conc \<Rightarrow> conc \<Rightarrow> bool" where
  "implements c c' \<longleftrightarrow>
     (\<forall>i call r. effect (threads c i) (threads c' i) = Some (call, r) \<longrightarrow> spec_call call (shared c) = (r, shared c')) \<and>
     ((\<forall>i. effect (threads c i) (threads c' i) = None) \<longrightarrow> shared c' = shared c)"

lemma implements_quiet:
  "(\<And>i. effect (threads c i) (threads c' i) = None) \<Longrightarrow> shared c' = shared c \<Longrightarrow> implements c c'"
  by (simp add: implements_def)

lemma implements_one:
  assumes "effect (threads c i) (threads c' i) = Some (call, r)" "\<And>j. j \<noteq> i \<Longrightarrow> effect (threads c j) (threads c' j) = None"
    and "spec_call call (shared c) = (r, shared c')"
  shows "implements c c'"
  unfolding implements_def
proof (intro conjI allI impI)
  fix j call' r' assume *: "effect (threads c j) (threads c' j) = Some (call', r')"
  show "spec_call call' (shared c) = (r', shared c')" using * assms by (cases "j = i") simp_all
next
  assume "\<forall>i. effect (threads c i) (threads c' i) = None"
  then show "shared c' = shared c" using assms(1) by simp
qed

lemma move_effect: "effect (threads c i) th = None \<Longrightarrow> implements c (move i th c)"
  by (intro implements_quiet) simp_all

lemma leave_effect: "in_section (threads c i) \<Longrightarrow> implements c (leave i th c)"
  by (intro implements_quiet) (cases "threads c i"; simp)+

lemma settled_live: "settled (c\<lparr>drv := (drv c)\<lparr>live := L\<rparr>\<rparr>) = (settled c)\<lparr>live := L\<rparr>"
  by (simp add: settled_def split: option.split)

lemma quiet_frame: "quiet j c c' \<Longrightarrow> i \<noteq> j \<Longrightarrow> threads c' i = threads c i \<or> threads c' i = forget j (threads c i)"
  by (auto simp: quiet_def)

lemma quiet_settled: "quiet i c c' \<Longrightarrow> \<exists>L. settled c' = (settled c)\<lparr>live := L\<rparr>"
proof -
  assume "quiet i c c'"
  then obtain L where "drv c' = (drv c)\<lparr>live := L\<rparr>" "undo c' = undo c" by (auto simp: quiet_def)
  then have "settled c' = (settled c)\<lparr>live := L\<rparr>" by (simp add: settled_def split: option.split)
  then show ?thesis by blast
qed

lemma quiet_effect:
  assumes q: "quiet i c c'" and th: "threads c i = Idle \<or> reads_step (threads c i)"
  shows "implements c c'"
proof (rule implements_quiet)
  show "effect (threads c j) (threads c' j) = None" for j
    using quiet_frame [OF q, of j] th by (cases "j = i") (cases "threads c i", auto)
  show "shared c' = shared c" using quiet_settled [OF q] by auto
qed

lemma put_call_effect:
  assumes c: "cinv c" and th: "threads c i = Idle" and env: "call_ok (Put env source) (drv c)"
    and r: "put_call i env source c = Inr c'"
  shows "implements c c'"
proof -
  have pe: "put_env_ok env (drv c)" using env by simp
  show ?thesis
  proof (rule put_enter_cases [OF cinv_shape(1,2) [OF c] pe, of source])
    fix err assume "put_enter env source (drv c) = Inr (Inl err, drv c)"
    then show ?thesis using r th by (auto simp: put_call_def intro!: move_effect)
  next
    fix b e m
    assume "put_enter env source (drv c) = Inr (Inr (b, e, m), (drv c)\<lparr>live := insert m (insert e (insert b (live (drv c))))\<rparr>)"
    then have "c' = move i (PutWaits env source b e m) (c\<lparr>drv := (drv c)\<lparr>live := insert m (insert e (insert b (live (drv c))))\<rparr>\<rparr>)"
      using r by (simp add: put_call_def)
    then show ?thesis using th by (intro implements_quiet) (simp_all add: settled_live)
  qed
qed

lemma put_lock_effect:
  assumes c: "cinv c" and th: "threads c i = PutWaits env source b e m" and free: "\<not> rcu_write_lock (drv c)"
    and r: "put_lock i env source b e m c = Inr c'"
  shows "implements c c'"
  using c th free
proof (cases rule: put_lock_cases)
  case full
  then have c': "c' = (move i (Done (Stored (Inl ENOMEM))) c)\<lparr>drv := (drv (move i (Done (Stored (Inl ENOMEM))) c))\<lparr>live := live (drv c) - {e, b, m}\<rparr>\<rparr>"
    using r by simp
  have "first_free (shared c) = None"
    using full(1) first_free_target [of "settled c"] c unlocked(2) [OF c free] by (simp add: cinv_def)
  then have "spec_put env source (shared c) = (Inl ENOMEM, shared c)"
    using thread_okD [OF c th] by (simp add: spec_put_def put_args_ok_def layout_consts)
  moreover have "shared c' = shared c" unfolding c' settled_live by simp
  ultimately show ?thesis
    using th by (intro implements_one [of _ i _ "Put env source" "Stored (Inl ENOMEM)"]) (simp_all add: c')
next
  case (wrote t)
  then have c': "c' = move i (PutWrote env source b e m t)
    (c\<lparr>drv := (drv c)\<lparr>rcu_write_lock := True, disk := (disk (drv c))(t + NUM_METADATA_BLKS := put_buffer env source)\<rparr>,
       undo := Some (t, disk (drv c) (t + NUM_METADATA_BLKS))\<rparr>)" using r by simp
  have "settled c' = drv c" unfolding c' using free by (auto simp: settled_def intro!: bldms.equality)
  then have "shared c' = shared c" using unlocked(2) [OF c free] by simp
  then show ?thesis using th by (intro implements_quiet) (auto simp: c')
qed

lemma put_unlock_effect:
  assumes c: "cinv c" and th: "threads c i = PutWrote env source b e m t"
    and r: "put_unlock i env source b e m t c = Inr c'"
  shows "implements c c'"
proof -
  let ?s = "(settled c)\<lparr>live := live (drv c) - {b, e, m}\<rparr>"
  define s where "s = put_result t e (put_obj env source m) (put_buffer env source) ?s"
  have s: "driver_ok s" using published_ok(1) [OF c th] by (simp add: s_def)
  have c': "threads c' = (threads c)(i := Done (Stored (Inr t)))" "drv c' = s" "undo c' = None"
    using r put_publish_result [OF c th] by (auto simp: put_unlock_def Let_def s_def)
  have "settled c' = s" using s by (auto simp: settled_def c' driver_ok_def shape_ok_def intro!: bldms.equality)
  obtain old where t: "find_target (settled c) = Inr (Some t)" and args: "put_args_ok env source c"
    by (rule wrote_facts [OF c th])
  have mem: "{b, e, m} \<inter> set (owned (drv c)) = {}" using held_facts(2) [OF c, of i] th by auto
  have o: "set (owned (settled c)) \<subseteq> live (drv c) - {b, e, m}" using mem owned_live [OF c] by auto
  have ok: "driver_ok (settled c)" using c by (simp add: cinv_def)
  have "shared c' = (shared c)\<lparr>cursor := t, content := (messages (settled c))(t \<mapsto> (now env, source))\<rparr>"
    using put_result_store [OF driver_ok_live [OF ok o], of t source e env m] t find_target_live [OF ok o] args
    by (simp add: \<open>settled c' = s\<close> s_def put_args_ok_def) (simp add: store_of_def messages_def md_objs_def md_at_def fun_eq_iff)
  moreover have "first_free (shared c) = Some t" using first_free_target [OF ok] t by simp
  ultimately have "spec_put env source (shared c) = (Inr t, shared c')"
    using args by (simp add: spec_put_def put_args_ok_def layout_consts)
  then show ?thesis
    using th by (intro implements_one [of _ i _ "Put env source" "Stored (Inr t)"]) (simp_all add: c')
qed

lemma spec_invalidate_inside:
  assumes ok: "driver_ok s" and k: "k < md_array_size s"
  shows "spec_invalidate br (word_of_nat k) (store_of s) =
     (case messages s k of
        None \<Rightarrow> (Inl ENODATA, store_of s)
      | Some m \<Rightarrow>
          if \<not> br (k + NUM_METADATA_BLKS) then (Inl EPERM, store_of s)
          else (Inr (), (store_of s)\<lparr>content := (messages s)(k := None)\<rparr>))"
proof (rule offset_cases [OF ok, of "word_of_nat k"])
  assume "md_array_size s \<le> unat (scast (word_of_nat k :: u32) :: u64)"
  then show ?thesis using offset_in_range(2) [OF ok k] by simp
next
  fix i assume "\<not> (sint (word_of_nat k :: u32) < 0 \<or> int (md_array_size s) \<le> sint (word_of_nat k :: u32))"
  then show ?thesis
    using offset_in_range(1) [OF ok k] by (simp add: spec_invalidate_def layout_consts split: option.split)
qed

lemma inv_lock_effect:
  assumes c: "cinv c" and th: "threads c i = InvWaits br offset" and free: "\<not> rcu_write_lock (drv c)"
    and r: "inv_lock i br offset c = Inr c'"
  shows "implements c c'"
proof -
  note u = unlocked [OF c free]
  have inv: "index_inv (drv c)" "shape_ok (drv c)" using u(4) by (simp_all add: driver_ok_def)
  have len: "length (md_objs (drv c)) = md_array_size (drv c)" using inv by (simp add: shape_ok_def)
  show ?thesis
    using c th free
  proof (cases rule: inv_lock_cases)
    case (fail k)
    have "spec_invalidate br offset (shared c) =
        (Inl (if list_lookup (valid_blk_list (drv c)) offset = None then ENODATA else EPERM), shared c)"
      using spec_invalidate_inside [OF u(4) fail(1), of br] messages_dom [OF inv, of k] fail(1-3)
      by (auto simp: u(2) len split: option.splits)
    then show ?thesis
      using fail(4) r th by (intro implements_one [of _ i _ "Invalidate br offset"]) auto
  next
    case (gone k el)
    have "shared c' = (store_of (drv c))\<lparr>content := (messages (drv c))(k := None)\<rparr>"
    proof -
      let ?s = "(inval_result k el (drv c))\<lparr>live := live (drv c)\<rparr>"
      have "driver_ok ?s" by (rule removal_ok(1) [OF c free gone(1,4)])
      then have "settled c' = ?s"
        using gone(5) r u(1) by (auto simp: settled_def driver_ok_def shape_ok_def intro!: bldms.equality)
      moreover have "store_of (inval_result k el (drv c)) = (store_of (drv c))\<lparr>content := (messages (drv c))(k := None)\<rparr>"
        using inval_result_messages [of k "drv c" el] gone(1) len
        by (simp add: store_of_def) (simp add: inval_result_def Let_def)
      ultimately show ?thesis by simp
    qed
    moreover have "messages (drv c) k \<noteq> None" using messages_dom [OF inv, of k] gone len by simp
    ultimately have "spec_invalidate br offset (shared c) = (Inr (), shared c')"
      using spec_invalidate_inside [OF u(4) gone(1), of br] gone(2,3) by (auto simp: u(2))
    moreover have "threads c' = (\<lambda>j. unlist (el_addr el) (threads c j))(i := Removed el (readers c))"
      using gone(5) r by auto
    ultimately show ?thesis
      using th by (intro implements_one [of _ i _ "Invalidate br offset" "Invalidated (Inr ())"]) simp_all
  qed
qed

theorem cstep_implements: "cstep c i r \<Longrightarrow> r = Inr c' \<Longrightarrow> cinv c \<Longrightarrow> implements c c'"
proof (induction rule: cstep.induct)
  case (step_walk env offset sz p M)
  then have "c' = leave i (Done (Fetched (Inl ENODATA))) c \<or> (\<exists>th. c' = move i th c)"
    by (auto simp: get_walk_def andThen_eq_Inr split: option.splits if_splits)
  with step_walk(1) show ?case by (auto intro: move_effect leave_effect)
next
  case (step_read env offset sz el)
  then show ?case by (auto simp: get_read_def andThen_eq_Inr intro: leave_effect)
next
  case (step_inv_free el S)
  then have "c' = move i (Done (Invalidated (Inr ()))) (c\<lparr>drv := (drv c)\<lparr>live := live (drv c) - {el_addr el}\<rparr>\<rparr>)"
    by (auto simp: inv_free_def andThen_eq_Inr kfree_def split: if_splits)
  with step_inv_free(1) show ?case by (intro implements_quiet) (simp_all add: settled_live)
qed (auto simp: get_call_def inv_call_def inv_wait_def simp del: call_ok.simps
    intro: put_call_effect put_lock_effect put_unlock_effect inv_lock_effect move_effect
    quiet_effect file_steps_quiet split: sum.splits)

text \<open>The steps of file operations, among all steps.\<close>

definition file_step :: "conc \<Rightarrow> nat \<Rightarrow> conc \<Rightarrow> bool" where
  "file_step c i c' \<longleftrightarrow> quiet i c c' \<and> (threads c i = Idle \<or> reads_step (threads c i))"

lemma file_stepI: "quiet i c c' \<Longrightarrow> threads c i = th \<Longrightarrow> th = Idle \<or> reads_step th \<Longrightarrow> file_step c i c'"
  by (simp add: file_step_def)

text \<open>
  A step is one of a file operation, or one of the calls. The second group of cases names the
  thread and the result of the step.
\<close>

lemma cstep_cases:
  assumes "cstep c i (Inr c')"
  obtains (fileop) "file_step c i c'"
    | (put) env source where "threads c i = Idle" "call_ok (Put env source) (drv c)" "put_call i env source c = Inr c'"
    | (put_lock) env source b e m where "threads c i = PutWaits env source b e m" "\<not> rcu_write_lock (drv c)"
      "put_lock i env source b e m c = Inr c'"
    | (put_unlock) env source b e m t where "threads c i = PutWrote env source b e m t"
      "put_unlock i env source b e m t c = Inr c'"
    | (get) env offset sz where "threads c i = Idle" "call_ok (Get env offset sz) (drv c)" "get_call i env offset sz c = Inr c'"
    | (walk) env offset sz p M where "threads c i = Walks env offset sz p M" "get_walk i env offset sz p M c = Inr c'"
    | (read) env offset sz el where "threads c i = Reads env offset sz el" "get_read i env offset sz el c = Inr c'"
    | (inv) br offset where "threads c i = Idle" "inv_call i br offset c = Inr c'"
    | (inv_lock) br offset where "threads c i = InvWaits br offset" "\<not> rcu_write_lock (drv c)" "inv_lock i br offset c = Inr c'"
    | (inv_wait) el S where "threads c i = Removed el S" "inv_wait i el S c = Inr c'"
    | (inv_free) el S where "threads c i = Syncs el S {}" "inv_free i el c = Inr c'"
    | (replied) r where "threads c i = Done r" "c' = move i Idle c"
  using assms
proof (cases rule: cstep.cases)
  case step_open
  then show ?thesis by (intro fileop file_stepI [OF file_steps_quiet(1)]) auto
next
  case step_seek
  then show ?thesis by (intro fileop file_stepI [OF file_steps_quiet(2)]) auto
next
  case step_close
  then show ?thesis by (intro fileop file_stepI [OF file_steps_quiet(3)]) auto
next
  case step_read_call
  then show ?thesis by (intro fileop file_stepI [OF file_steps_quiet(4)]) auto
next
  case step_read_walk
  then show ?thesis by (intro fileop file_stepI [OF file_steps_quiet(5)]) auto
next
  case step_read_copy
  then show ?thesis by (intro fileop file_stepI [OF file_steps_quiet(6)]) auto
next
  case step_read_next
  then show ?thesis by (intro fileop file_stepI [OF file_steps_quiet(7)]) auto
next
  case step_file_return
  then show ?thesis using quiet_move [of Idle i c] by (intro fileop) (simp add: file_step_def)
qed (use that in \<open>metis sum.inject(2)\<close>)+

section \<open>What a walk finds\<close>

text \<open>A run from \<open>c\<close> to another state on which \<open>P\<close> holds throughout.\<close>

inductive during :: "(conc \<Rightarrow> bool) \<Rightarrow> conc \<Rightarrow> conc \<Rightarrow> bool" for P c where
  during_start: "P c \<Longrightarrow> during P c c"
| during_step: "during P c c' \<Longrightarrow> conc_step c' (Inr c'') \<Longrightarrow> P c'' \<Longrightarrow> during P c c''"

fun kept :: "thread \<Rightarrow> addr set" where
  "kept (Walks env offset sz p M) = M"
| "kept _ = {}"

fun walking :: "thread \<Rightarrow> bool" where
  "walking (Walks env offset sz p M) = True"
| "walking _ = False"

lemma kept_forget [simp]: "kept (forget j th) = kept th"
  by (cases th) auto

lemma Inr_eq_andThen: "Inr y = andThen r f \<longleftrightarrow> (\<exists>x. r = Inr x \<and> f x = Inr y)"
  by (cases r) auto

lemma put_others:
  "put_call j env source c = Inr c' \<Longrightarrow> i \<noteq> j \<Longrightarrow> threads c' i = threads c i"
  "put_lock j env source b e m c = Inr c' \<Longrightarrow> i \<noteq> j \<Longrightarrow> threads c' i = threads c i"
  by (auto simp: put_call_def put_lock_def andThen_eq_Inr) (auto split: sum.split)

lemma walk_frame:
  "get_walk j env offset sz p M c = Inr c' \<Longrightarrow> i \<noteq> j \<Longrightarrow> threads c' i = threads c i \<or> threads c' i = forget j (threads c i)"
  by (auto simp: get_walk_def andThen_eq_Inr split: option.splits if_splits)

lemma removal_unlists:
  assumes c: "cinv c" "\<not> rcu_write_lock (drv c)" and k: "k < md_array_size (drv c)"
    and x: "list_lookup (valid_blk_list (drv c)) (word_of_nat k) = Some x"
    and c': "drv c' = (inval_result k x (drv c))\<lparr>live := live (drv c)\<rparr>"
  shows "valid_blk_list (drv c') = remove1 x (valid_blk_list (drv c))" "x \<in> set (valid_blk_list (drv c))"
    "el_addr x \<notin> listed c'"
proof -
  show l: "valid_blk_list (drv c') = remove1 x (valid_blk_list (drv c))" "x \<in> set (valid_blk_list (drv c))"
    using removal_ok(3) [OF c k x] list_lookup_Some [OF x] by (simp_all add: c')
  show "el_addr x \<notin> listed c'"
    using cinv_list(1) [OF c(1)] l by (auto simp: listed_def distinct_map dest: inj_onD)
qed

text \<open>What a step of the thread \<open>j\<close> does to another thread.\<close>

lemma step_frame:
  assumes c: "cinv c" and step: "cstep c j (Inr c')" and i: "i \<noteq> j"
  shows "threads c' i = threads c i \<or> threads c' i = forget j (threads c i) \<or>
     (\<exists>a. a \<notin> listed c' \<and> threads c' i = unlist a (threads c i))"
  using step
proof (cases rule: cstep_cases)
  case (inv_lock br offset)
  show ?thesis
    using c inv_lock(1,2)
  proof (cases rule: inv_lock_cases)
    case (gone k el)
    then have "el_addr el \<notin> listed c'" using inv_lock by (intro removal_unlists(3) [OF c inv_lock(2) gone(1,4)]) auto
    moreover have "threads c' i = unlist (el_addr el) (threads c i)" using gone(5) inv_lock(3) i by auto
    ultimately show ?thesis by blast
  qed (use i inv_lock in auto)
next
  case (put env source)
  then show ?thesis using i put_others(1) by blast
next
  case (put_lock env source b e m)
  then show ?thesis using i put_others(2) by blast
next
  case (walk env offset sz p M)
  then show ?thesis using i walk_frame by blast
next
  case fileop
  then show ?thesis using quiet_frame [of j c c' i] i by (auto simp: file_step_def)
qed (use i in \<open>auto simp: put_unlock_def get_call_def get_read_def inv_call_def inv_wait_def inv_free_def
    andThen_eq_Inr Let_def split: sum.splits\<close>)

lemma section_frame:
  assumes c: "cinv c" and step: "cstep c j (Inr c')" and i: "i \<noteq> j" "in_section (threads c i)"
  shows "threads c' i = threads c i \<or> (\<exists>a. a \<notin> listed c' \<and> threads c' i = unlist a (threads c i))"
proof -
  have "forget j (threads c i) = threads c i" using i by (cases "threads c i") simp_all
  then show ?thesis using step_frame [OF c step i(1)] by auto
qed

lemma kept_step:
  assumes c: "cinv c" and step: "cstep c j (Inr c')" and i: "walking (threads c i)" "walking (threads c' i)"
    and el: "el \<in> set (valid_blk_list (drv c'))" "el_addr el \<in> kept (threads c i)"
  shows "el_addr el \<in> kept (threads c' i)"
proof (cases "i = j")
  case True
  obtain env offset sz p M where w: "threads c j = Walks env offset sz p M"
    using i(1) True by (cases "threads c j") auto
  with step have "get_walk j env offset sz p M c = Inr c'" by (auto elim: cstep.cases)
  then show ?thesis
    using i(2) el(2) w True by (auto simp: get_walk_def andThen_eq_Inr split: option.splits if_splits)
next
  case False
  have "in_section (threads c i)" using i(1) by (cases "threads c i") auto
  then have "threads c' i = threads c i \<or> (\<exists>a. a \<noteq> el_addr el \<and> threads c' i = unlist a (threads c i))"
    using section_frame [OF c step False] el(1) by (auto simp: listed_def)
  then show ?thesis using i(1) el(2) by (cases "threads c i") auto
qed

text \<open>A step takes effect for the thread that makes it and for no other.\<close>

lemma cstep_effect:
  assumes c: "cinv c" and step: "cstep c i (Inr c')"
  shows "case effect (threads c i) (threads c' i) of
      Some (call, r) \<Rightarrow> spec_call call (shared c) = (r, shared c')
    | None \<Rightarrow> shared c' = shared c"
proof (cases "effect (threads c i) (threads c' i)")
  case None
  have "effect (threads c j) (threads c' j) = None" for j
    using step_frame [OF c step, of j] None by (cases "j = i") auto
  then show ?thesis using cstep_implements [OF step refl c] None by (simp add: implements_def)
qed (use cstep_implements [OF step refl c] in \<open>auto simp: implements_def\<close>)

lemma spec_call_capacity: "capacity (snd (spec_call c st)) = capacity st"
  by (cases c) (auto simp: spec_put_def spec_invalidate_def split: option.splits)

lemma cstep_size:
  assumes "cinv c" "cstep c i (Inr c')"
  shows "md_array_size (drv c') = md_array_size (drv c)"
proof (cases "effect (threads c i) (threads c' i)")
  case None
  then have "shared c' = shared c" using cstep_effect [OF assms] by simp
  from arg_cong [OF this, of capacity] show ?thesis by simp
next
  case (Some e)
  then have "spec_call (fst e) (shared c) = (snd e, shared c')" using cstep_effect [OF assms] by (simp split: prod.splits)
  then have "capacity (shared c') = capacity (shared c)" using spec_call_capacity [of "fst e" "shared c"] by simp
  then show ?thesis by simp
qed

text \<open>A step makes no node visible to a reader but by publishing it.\<close>

definition shrinks :: "conc \<Rightarrow> conc \<Rightarrow> bool" where
  "shrinks c c' \<longleftrightarrow> heap c' = heap c \<and> listed c' \<subseteq> listed c \<and>
     (\<forall>k el S. removed (threads c' k) = Some (el, S) \<longrightarrow>
        (\<exists>S'. removed (threads c k) = Some (el, S') \<and> S \<subseteq> S') \<or> el_addr el \<in> listed c)"

lemma visible_shrinks:
  assumes "shrinks c c'" "a \<in> visible c' i"
  shows "a \<in> visible c i \<and> heap c' a = heap c a"
proof -
  consider "a \<in> listed c'" | k el S where "removed (threads c' k) = Some (el, S)" "i \<in> S" "a = el_addr el"
    using assms(2) by (auto simp: visible_def)
  then have "a \<in> visible c i"
  proof cases
    case 2
    with assms(1) have "(\<exists>S'. removed (threads c k) = Some (el, S') \<and> S \<subseteq> S') \<or> a \<in> listed c" by (auto simp: shrinks_def)
    with 2 show ?thesis by (auto simp: visible_def)
  qed (use assms(1) in \<open>auto simp: shrinks_def visible_def\<close>)
  then show ?thesis using assms(1) by (simp add: shrinks_def)
qed

lemma shrinks_move:
  assumes "heap c' = heap c" "listed c' = listed c" "threads c' = (threads c)(j := th)"
    and "removed th = None \<or> removed th = removed (threads c j)"
  shows "shrinks c c'"
  using assms by (auto simp: shrinks_def)

lemma shrinks_leave: "removed th = None \<Longrightarrow> shrinks c (leave j th c)"
proof -
  assume "removed th = None"
  have "\<exists>S'. removed th = Some (el, S') \<and> S \<subseteq> S'" if "removed (forget j th) = Some (el, S)" for th el S
    using that by (cases th) auto
  with \<open>removed th = None\<close> show ?thesis by (auto simp: shrinks_def listed_def leave_def)
qed

lemma quiet_shrinks:
  assumes "quiet j c c'"
  shows "shrinks c c'"
proof -
  obtain th where q: "heap c' = heap c" "listed c' = listed c" "removed th = None"
    "threads c' = (threads c)(j := th) \<or> threads c' = (\<lambda>k. forget j (threads c k))(j := th)"
    using assms by (auto simp: quiet_def listed_def)
  have "\<exists>S'. removed th = Some (el, S') \<and> S \<subseteq> S'" if "removed (forget j th) = Some (el, S)" for th el S
    using that by (cases th) auto
  with q show ?thesis by (auto simp: shrinks_def split: if_splits)
qed

lemma listed_drv: "valid_blk_list (drv c') = valid_blk_list (drv c) \<Longrightarrow> listed c' = listed c"
  by (simp add: listed_def)

lemma visible_step:
  assumes c: "cinv c" and step: "cstep c j (Inr c')" and a: "a \<in> visible c' i"
  shows "a \<in> visible c i \<and> heap c' a = heap c a \<or> a \<in> listed c'"
proof (cases "\<exists>env source b e m t. threads c j = PutWrote env source b e m t")
  case True
  then obtain env source b e m t where th: "threads c j = PutWrote env source b e m t" by blast
  with step have "put_unlock j env source b e m t c = Inr c'" by (auto elim: cstep.cases)
  then have f: "threads c' = (threads c)(j := Done (Stored (Inr t)))" "heap c' = (heap c)(e := put_elem e t (put_obj env source m))"
    by (auto simp: put_unlock_def andThen_eq_Inr Let_def)
  have "e \<notin> visible c i" using held_invisible [OF c, of e j] th by simp
  moreover have "a \<in> listed c' \<or> a \<in> visible c i"
    using a th by (auto simp: visible_def f split: if_splits)
  ultimately show ?thesis by (auto simp: f)
next
  case False
  have "shrinks c c'"
    using step
  proof (cases rule: cstep_cases)
    case fileop
    then show ?thesis by (auto simp: file_step_def intro: quiet_shrinks)
  next
    case (put env source)
    have pe: "put_env_ok env (drv c)" using put by simp
    show ?thesis
      by (rule put_enter_cases [OF cinv_shape(1,2) [OF c] pe, of source])
        (use put(3) in \<open>auto simp: put_call_def intro!: shrinks_move listed_drv\<close>)
  next
    case (put_lock env source b e m)
    show ?thesis
      using c put_lock(1,2)
      by (cases rule: put_lock_cases) (use put_lock(3) in \<open>auto intro!: shrinks_move listed_drv\<close>)
  next
    case (inv_lock br offset)
    show ?thesis
      using c inv_lock(1,2)
    proof (cases rule: inv_lock_cases)
      case (gone k x)
      have d: "drv c' = (inval_result k x (drv c))\<lparr>live := live (drv c)\<rparr>" using gone(5) inv_lock(3) by auto
      from removal_unlists(1,2) [OF c inv_lock(2) gone(1,4) d] have "listed c' \<subseteq> listed c" "el_addr x \<in> listed c" by (auto simp: listed_def dest: in_set_remove1D)
      then show ?thesis using gone(5) inv_lock(3) by (auto simp: shrinks_def split: if_splits)
    qed (use inv_lock(3) in \<open>auto intro!: shrinks_move listed_drv\<close>)
  next
    case (walk env offset sz p M)
    then show ?thesis
      by (auto simp: get_walk_def andThen_eq_Inr intro!: shrinks_leave shrinks_move listed_drv split: option.splits if_splits)
  next
    case (inv_free el S)
    then show ?thesis
      by (auto simp: inv_free_def andThen_eq_Inr kfree_def intro!: shrinks_move listed_drv split: if_splits)
  qed (use False in \<open>auto simp: get_call_def get_read_def inv_call_def inv_wait_def andThen_eq_Inr
      intro!: shrinks_leave shrinks_move listed_drv split: sum.splits\<close>)
  from visible_shrinks [OF this a] show ?thesis by blast
qed

section \<open>What a reader copies\<close>

lemma get_copy_cong:
  "disk s (unat (offset + word_of_nat NUM_METADATA_BLKS)) = disk s' (unat (offset + word_of_nat NUM_METADATA_BLKS)) \<Longrightarrow>
     get_copy env offset sz el s = get_copy env offset sz el s'"
  by (simp add: get_copy_def Let_def)

lemma reads_inside:
  assumes c: "cinv c" and th: "threads c i = Reads env offset sz el"
  obtains k where "k < md_array_size (drv c)" "offset = word_of_nat k"
    "unat (offset + word_of_nat NUM_METADATA_BLKS) = k + NUM_METADATA_BLKS" "k < 1000"
proof -
  have ok: "driver_ok (settled c)" using c by (simp add: cinv_def)
  have "unat (scast offset :: u64) < md_array_size (settled c)" using thread_okD [OF c th] by simp
  then obtain k where k: "k < md_array_size (settled c)" "offset = word_of_nat k"
    using offset_cases [OF ok, of offset] by (metis not_le)
  then show thesis using offset_in_range(1) [OF ok k(1)] by (intro that [of k]) (simp_all add: word_add2_small)
qed

text \<open>The block that is being written is not that of an element in the list.\<close>

lemma listed_disk:
  assumes c: "cinv c" and k: "k < md_array_size (drv c)" "list_lookup (valid_blk_list (drv c)) (word_of_nat k) \<noteq> None"
  shows "disk (drv c) (k + NUM_METADATA_BLKS) = disk (settled c) (k + NUM_METADATA_BLKS)"
proof (cases "undo c")
  case (Some u)
  let ?s = "settled c"
  have ok: "driver_ok ?s" using c by (simp add: cinv_def)
  obtain u1 old where u: "undo c = Some (u1, old)" by (cases u) (simp add: Some)
  then have f: "find_target ?s = Inr (Some u1)" using c by (simp add: cinv_def lock_inv_def)
  have len: "k < length (md_objs ?s)" using ok k(1) by (simp add: driver_ok_def shape_ok_def)
  have "is_valid (md_at ?s k) = BLK_VALID"
    using valid_iff_listed [of ?s k] ok len k(2) by (simp add: driver_ok_def)
  then have "u1 \<noteq> k" using find_target_Some(2) [OF ok f] by auto
  then show ?thesis by (simp add: settled_def u)
qed (simp add: settled_def)

text \<open>A copy made while the element is still in the list is the message of the specification.\<close>

lemma listed_copy:
  assumes c: "cinv c" and th: "threads c i = Reads env offset sz el" and el: "el \<in> set (valid_blk_list (drv c))"
  shows "get_copy env offset sz el (drv c) = Inr (spec_get env offset sz (shared c))"
proof -
  let ?s = "settled c"
  have ok: "driver_ok ?s" using c by (simp add: cinv_def)
  have t: "ndx el = offset" "unat (scast offset :: u64) < md_array_size (drv c)" "call_ok (Get env offset sz) ?s"
    using thread_okD [OF c th] by simp_all
  have look: "list_lookup (valid_blk_list ?s) offset = Some el"
    using vl.elems_lookup [of "valid_blk_list (drv c)" el] cinv_list(4) [OF c] el t(1) by simp
  obtain k where k: "k < md_array_size (drv c)" "offset = word_of_nat k"
    "unat (offset + word_of_nat NUM_METADATA_BLKS) = k + NUM_METADATA_BLKS"
    by (rule reads_inside [OF c th])
  have "get_enter offset ?s = Inr ()" using t(2) cinv_shape(1,2) [OF c] by (simp add: get_enter_def)
  with get_sim [OF ok t(3)] look have "get_copy env offset sz el ?s = Inr (spec_get env offset sz (shared c))"
    by (auto simp: get_data_steps andThen_eq_Inr)
  moreover have "disk (drv c) (k + NUM_METADATA_BLKS) = disk ?s (k + NUM_METADATA_BLKS)"
    using look k(2) by (intro listed_disk [OF c k(1)]) simp
  ultimately show ?thesis using get_copy_cong [of ?s offset "drv c"] k(3) by simp
qed

text \<open>
  A copy made after the block was written again, and before the new message is published, is a
  piece of the new message, cut at the length of the old one.
\<close>

lemma overwritten_copy:
  assumes c: "cinv c" and th: "threads c i = Reads env (word_of_nat t) sz el"
    and wr: "threads c j = PutWrote env' source b e m t"
    and env: "get_bread env (t + NUM_METADATA_BLKS)" "\<forall>n. uncopied env n = 0"
  shows "get_copy env (word_of_nat t) sz el (drv c) =
     Inr (Inr (word_of_nat (min (unat sz) (unat (el_valid_bytes el))),
       take (min (unat sz) (unat (el_valid_bytes el))) (source @ replicate (4086 - length source) 0)))"
proof -
  obtain k where k: "(word_of_nat t :: u32) = word_of_nat k" "k < 1000"
    "unat (word_of_nat t + word_of_nat NUM_METADATA_BLKS :: u32) = k + NUM_METADATA_BLKS"
    by (rule reads_inside [OF c th])
  obtain old where d: "disk (drv c) (t + NUM_METADATA_BLKS) = put_buffer env' source" "put_args_ok env' source c"
    "find_target (settled c) = Inr (Some t)" by (rule wrote_facts [OF c wr])
  have ok: "driver_ok (settled c)" using c by (simp add: cinv_def)
  have "t < 1000" using find_target_Some(1) [OF ok d(3)] offset_in_range(1) [OF ok] by blast
  then have "t = k" using k word_of_nat_small_inj by blast
  have "elem_ok el" using thread_okD [OF c th] by simp
  then have n: "unat (bytes_to_copy (el_valid_bytes el) sz) = min (unat sz) (unat (el_valid_bytes el))"
    "min (unat sz) (unat (el_valid_bytes el)) \<le> 4086"
    using unat_bytes_to_copy [of "el_valid_bytes el" sz] by (auto simp: elem_ok_def layout_consts)
  then have s: "unat (scast (bytes_to_copy (el_valid_bytes el) sz) :: u64) = min (unat sz) (unat (el_valid_bytes el))"
    using unat_scast_nonneg [of "bytes_to_copy (el_valid_bytes el) sz"] by simp
  then have w: "(scast (bytes_to_copy (el_valid_bytes el) sz) :: u64) = word_of_nat (min (unat sz) (unat (el_valid_bytes el)))"
    by (metis of_nat_unat ucast_id)
  have "drop METADATA_SIZE (put_buffer env' source) = source @ replicate (4086 - length source) 0"
    using new_block_payload [of source] d(2)
    by (simp add: put_buffer_def put_args_ok_def block_payload_def layout_consts)
  then show ?thesis
    using env n(2) s w k(3) \<open>t = k\<close> d(1) \<open>elem_ok el\<close> by (simp add: get_copy_def Let_def elem_ok_def layout_consts)
qed

section \<open>The answer of a reader\<close>

text \<open>
  While an element for its block stays in the list, a reader stands before that element, or has
  found it; no other element for the block is visible to it.
\<close>

definition finds :: "nat \<Rightarrow> get_env \<Rightarrow> u64 \<Rightarrow> rcu_elem \<Rightarrow> conc \<Rightarrow> bool" where
  "finds i env sz el c \<longleftrightarrow> el \<in> set (valid_blk_list (drv c)) \<and>
     (\<forall>a \<in> visible c i. ndx (heap c a) = ndx el \<longrightarrow> a = el_addr el) \<and>
     (threads c i = Reads env (ndx el) sz el \<or> (\<exists>p M. threads c i = Walks env (ndx el) sz p M \<and> el_addr el \<in> M))"

lemma listed_sole:
  assumes c: "cinv c" and el: "el \<in> set (valid_blk_list (drv c))" and a: "a \<in> listed c" "ndx (heap c a) = ndx el"
  shows "a = el_addr el"
proof -
  obtain x where x: "x \<in> set (valid_blk_list (drv c))" "a = el_addr x" using a(1) by (auto simp: listed_def)
  then have "ndx x = ndx el" using a(2) c by (simp add: cinv_def ptr_inv_def)
  moreover have "distinct (map ndx (valid_blk_list (drv c)))"
    using cinv_list(4) [OF c] by (simp add: index_ok_def)
  ultimately show ?thesis using x el by (auto simp: distinct_map dest: inj_onD)
qed

lemma get_call_finds:
  assumes c: "cinv c" and th: "threads c i = Idle" and el: "el \<in> set (valid_blk_list (drv c))"
    and c0: "get_call i env (ndx el) sz c = Inr c0" "in_section (threads c0 i)"
  shows "finds i env sz el c0"
proof -
  have d: "c0 = move i (Walks env (ndx el) sz None (listed c)) c"
    using c0 by (auto simp: get_call_def split: sum.splits)
  have "i \<notin> readers c" "grace_inv c" using th c by (simp_all add: readers_def cinv_def)
  then have "visible c i \<subseteq> listed c" using grace_removed(1) by (fastforce simp: visible_def)
  moreover have "visible c0 = visible c" unfolding d by (rule visible_move) (simp add: th)
  ultimately show ?thesis
    using listed_sole [OF c el] el by (auto simp: finds_def d listed_def)
qed

lemma finds_step:
  assumes c: "cinv c" and step: "cstep c j (Inr c')" and f: "finds i env sz el c"
    and c': "el \<in> set (valid_blk_list (drv c'))" "in_section (threads c' i)"
  shows "finds i env sz el c'"
proof -
  have inv': "cinv c'" using cstep_ok [OF step c] by simp
  have sole: "\<forall>a \<in> visible c' i. ndx (heap c' a) = ndx el \<longrightarrow> a = el_addr el"
    using visible_step [OF c step, of _ i] f listed_sole [OF inv' c'(1)] by (metis finds_def)
  have sec: "in_section (threads c i)" using f by (auto simp: finds_def)
  have "threads c' i = Reads env (ndx el) sz el \<or> (\<exists>p M. threads c' i = Walks env (ndx el) sz p M)"
  proof (cases "j = i")
    case False
    then show ?thesis using section_frame [OF c step _ sec] f by (auto simp: finds_def)
  next
    case True
    from f have "threads c i \<noteq> Reads env (ndx el) sz el"
      using step c'(2) True by (auto simp: get_read_def Inr_eq_andThen leave_def elim!: cstep.cases)
    with f obtain p M where w: "threads c i = Walks env (ndx el) sz p M" by (auto simp: finds_def)
    with step True have r: "get_walk i env (ndx el) sz p M c = Inr c'" by (auto elim: cstep.cases)
    have "heap c a = el" if "nxt c p = Some a" "ndx (heap c a) = ndx el" for a
    proof -
      have "a \<in> visible c i" using visible_closed [OF c _ that(1)] thread_okD [OF c w] by simp
      then have "a = el_addr el" using f that(2) by (simp add: finds_def)
      then show ?thesis using c f by (simp add: cinv_def ptr_inv_def finds_def)
    qed
    then show ?thesis
      using r c'(2) by (auto simp: get_walk_def andThen_eq_Inr leave_def split: option.splits if_splits)
  qed
  moreover have "el_addr el \<in> kept (threads c' i)" if "walking (threads c' i)"
  proof -
    have "walking (threads c i)"
    proof (rule ccontr)
      assume "\<not> walking (threads c i)"
      then have rd: "threads c i = Reads env (ndx el) sz el" using f by (auto simp: finds_def)
      show False
      proof (cases "j = i")
        case True
        then show False
          using rd step that by (auto simp: get_read_def Inr_eq_andThen leave_def elim!: cstep.cases)
      qed (use section_frame [OF c step _ sec] rd that in auto)
    qed
    moreover from this have "el_addr el \<in> kept (threads c i)" using f by (auto simp: finds_def)
    ultimately show ?thesis using kept_step [OF c step _ that c'(1)] by blast
  qed
  ultimately show ?thesis using sole c'(1) by (auto simp: finds_def)
qed

lemma present_answer:
  assumes c: "cinv c" and th: "threads c i = Idle" and env: "call_ok (Get env (ndx el) sz) (drv c)"
    and c0: "get_call i env (ndx el) sz c = Inr c0"
    and run: "during (\<lambda>c. el \<in> set (valid_blk_list (drv c)) \<and> in_section (threads c i)) c0 c'"
    and ans: "cstep c' i (Inr c'')" "threads c'' i = Done r"
  shows "r = Fetched (spec_get env (ndx el) sz (shared c'))"
proof -
  have "drv c0 = drv c" using c0 by (auto simp: get_call_def)
  from run have "cinv c' \<and> finds i env sz el c'"
  proof (induction rule: during.induct)
    case during_start
    then show ?case
      using get_call_ok [OF c th env] get_call_finds [OF c th _ c0] c0 \<open>drv c0 = drv c\<close> by simp
  next
    case (during_step d d')
    then obtain j where j: "cstep d j (Inr d')" by (auto simp: conc_step_def)
    with during_step cstep_ok [OF j] finds_step [OF _ j] show ?case by simp
  qed
  then have c': "cinv c'" and f: "finds i env sz el c'" by simp_all
  then consider "threads c' i = Reads env (ndx el) sz el"
    | p M where "threads c' i = Walks env (ndx el) sz p M" "el_addr el \<in> M" by (auto simp: finds_def)
  then show ?thesis
  proof cases
    case 1
    with ans have "get_read i env (ndx el) sz el c' = Inr c''" by (auto elim: cstep.cases)
    with ans(2) listed_copy [OF c' 1] f show ?thesis by (auto simp: get_read_def finds_def leave_def)
  next
    case 2
    have "heap c' (el_addr el) = el" using c' f by (simp add: cinv_def ptr_inv_def finds_def)
    then have "ahead (nxt c') p (el_addr el)" using thread_okD [OF c' 2(1)] 2(2) by simp
    then have "nxt c' p \<noteq> None" using ahead_end by blast
    moreover have "get_walk i env (ndx el) sz p M c' = Inr c''" using 2 ans by (auto elim: cstep.cases)
    ultimately show ?thesis
      using ans(2) by (auto simp: get_walk_def andThen_eq_Inr split: option.splits if_splits)
  qed
qed

section \<open>Progress\<close>

lemma reader_can_step:
  assumes "cinv c" "j \<in> readers c"
  shows "\<exists>c'. cstep c j (Inr c')"
proof (cases "threads c j")
  case (Walks env offset sz p M)
  then show ?thesis using get_walk_ok [OF assms(1) Walks] by (metis cstep.step_walk)
next
  case (Reads env offset sz el)
  then show ?thesis using get_read_ok [OF assms(1) Reads] by (metis cstep.step_read)
next
  case (RWalks rd p)
  then obtain f where f: "sessions c j = Some f" using thread_okD [OF assms(1) RWalks] by (auto simp: reads_file_def)
  then show ?thesis using read_walk_ok [OF assms(1) RWalks f] RWalks by (metis cstep.step_read_walk)
next
  case (RFound rd el)
  then obtain f where f: "sessions c j = Some f" using thread_okD [OF assms(1) RFound] by (auto simp: reads_file_def)
  then show ?thesis using read_copy_ok [OF assms(1) RFound f] RFound by (metis cstep.step_read_copy)
next
  case (RNext rd ret out el)
  then obtain f where f: "sessions c j = Some f" using thread_okD [OF assms(1) RNext] by (auto simp: reads_file_def)
  have u: "unused None (drv c)" by (simp add: unused_def)
  then show ?thesis using read_advance_ok [OF assms(1) RNext f u] cstep.step_read_next [OF RNext f u] by metis
qed (use assms(2) in \<open>simp_all add: readers_def\<close>)

lemma holder_can_step:
  assumes c: "cinv c" and l: "rcu_write_lock (drv c)"
  shows "\<exists>j c'. threads c j \<noteq> Idle \<and> cstep c j (Inr c')"
proof -
  obtain j env source t where "wrote (threads c j) = Some (env, source, t)"
    using c l by (auto simp: cinv_def lock_inv_def split: option.splits)
  then obtain b e m where "threads c j = PutWrote env source b e m t" by (cases "threads c j") auto
  then show ?thesis using put_unlock_ok [OF c] by (metis cstep.step_put_unlock thread.distinct(3))
qed

lemma busy_can_step:
  assumes c: "cinv c" and i: "threads c i \<noteq> Idle"
  shows "\<exists>j c'. threads c j \<noteq> Idle \<and> cstep c j (Inr c')"
proof (cases "threads c i")
  case (PutWaits env source b e m)
  then show ?thesis
    using holder_can_step [OF c] put_lock_ok [OF c PutWaits] i by (metis cstep.step_put_lock)
next
  case (PutWrote env source b e m t)
  then show ?thesis using put_unlock_ok [OF c PutWrote] i by (metis cstep.step_put_unlock)
next
  case (InvWaits br offset)
  then show ?thesis
    using holder_can_step [OF c] inv_lock_ok [OF c InvWaits] i by (metis cstep.step_inv_lock)
next
  case (Removed el S)
  then show ?thesis using inv_wait_ok [OF c Removed] i by (metis cstep.step_inv_wait)
next
  case (Syncs el S W)
  show ?thesis
  proof (cases "W = {}")
    case True
    then show ?thesis using inv_free_ok [OF c] Syncs i by (metis cstep.step_inv_free)
  next
    case False
    then obtain j where j: "j \<in> W" by auto
    moreover have "W \<subseteq> readers c" using grace_sync [of c i] c Syncs by (simp add: cinv_def)
    ultimately have "j \<in> readers c" by auto
    moreover have "threads c j \<noteq> Idle" using \<open>j \<in> readers c\<close> by (auto simp: readers_def)
    ultimately show ?thesis using reader_can_step [OF c] by blast
  qed
next
  case (Done r)
  then show ?thesis using i by (metis cstep.step_return)
next
  case (FileDone r)
  then show ?thesis using i by (metis cstep.step_file_return)
qed (use i reader_can_step [OF c, of i] in \<open>simp_all add: readers_def, metis+\<close>)

end
