(* ===== verification/Concurrency_Reader.thy ===== *)
theory Concurrency_Reader
  imports Concurrency_Spec
begin

text \<open>
  What a read of the file sees while other threads change the list: how a step changes the links,
  that a reader meets the elements in the order of their timestamps also on nodes that have left
  the list, and that a session gets the message it waits for as long as the message stays valid.
\<close>

section \<open>Changes of the links\<close>

text \<open>
  A step leaves the links alone, or it adds one node that nobody could see, or it takes one node
  out; the node whose link it changes is the head or in the list before and after the step.
\<close>

lemma link_cases:
  assumes c: "cinv c" and step: "cstep c j (Inr c')"
  obtains (same) "nxt c' = nxt c" "heap c' = heap c"
    | (added) e prev where "nxt c' = list_add_rcu e prev (nxt c)" "\<And>i. e \<notin> visible c i"
        "prev = None \<or> prev \<in> Some ` listed c" "listed c' = insert e (listed c)" "\<And>a. a \<noteq> e \<Longrightarrow> heap c' a = heap c a"
    | (deleted) a prev where "nxt c' = list_del_rcu a prev (nxt c)" "nxt c prev = Some a" "prev \<noteq> Some a"
        "prev = None \<or> prev \<in> Some ` listed c'" "listed c' = listed c - {a}" "heap c' = heap c"
  using step
proof (cases rule: cstep_cases)
  case (put_unlock env source b e m t)
  let ?el = "put_elem e t (put_obj env source m)"
  have no: "e \<notin> visible c i" for i using held_invisible [OF c, of e j] put_unlock(1) by simp
  have el: "el_addr ?el = e" by (simp add: put_elem_def)
  have l: "listed c' = insert e (listed c)" "heap c' = (heap c)(e := ?el)"
    "nxt c' = list_add_rcu e (insert_prev ?el (valid_blk_list (drv c))) (nxt c)"
    using put_unlock(2) el put_publish_result [OF c put_unlock(1)]
    by (auto simp: put_unlock_def andThen_eq_Inr Let_def listed_def put_elem_def put_result_def)
  have "e \<notin> listed c" using no [of j] by (simp add: visible_def)
  then have "insert_prev ?el (valid_blk_list (drv c)) = None \<or> insert_prev ?el (valid_blk_list (drv c)) \<in> Some ` listed c"
    using chain_insert_in_order(2) [of "nxt c" "valid_blk_list (drv c)" ?el] c cinv_list(1) [OF c] el
    by (auto simp: cinv_def ptr_inv_def listed_def)
  then show ?thesis using no l by (intro added) auto
next
  case (inv_lock br offset)
  show ?thesis
    using c inv_lock(1,2)
  proof (cases rule: inv_lock_cases)
    case (gone k el)
    have d: "drv c' = (inval_result k el (drv c))\<lparr>live := live (drv c)\<rparr>" using gone(5) inv_lock(3) by auto
    note l = removal_unlists [OF c inv_lock(2) gone(1,4) d]
    have ls: "listed c' = listed c - {el_addr el}"
      using l cinv_list(1) [OF c] by (auto simp: listed_def distinct_map dest: inj_onD in_set_remove1D)
    let ?prev = "prev_in None (el_addr el) (map el_addr (valid_blk_list (drv c)))"
    have "nxt c ?prev = Some (el_addr el)" "?prev \<noteq> Some (el_addr el)"
      "?prev = None \<or> ?prev \<in> Some ` set (remove1 (el_addr el) (map el_addr (valid_blk_list (drv c))))"
      using chain_del [of "nxt c" None "map el_addr (valid_blk_list (drv c))" "el_addr el"] c cinv_list(1) [OF c] l(2)
      by (auto simp: cinv_def ptr_inv_def)
    moreover have "set (remove1 (el_addr el) (map el_addr (valid_blk_list (drv c)))) = listed c'"
      using cinv_list(1) [OF c] ls by (simp add: listed_def)
    ultimately show ?thesis using gone(5) inv_lock(3) ls by (intro deleted) auto
  next
    case fail
    then show ?thesis using inv_lock(3) by (intro same) auto
  qed
next
  case fileop
  then show ?thesis by (intro same) (auto simp: file_step_def quiet_def)
next
  case (put_lock env source b e m)
  then show ?thesis by (intro same) (auto simp: put_lock_def andThen_eq_Inr, auto split: sum.split)
next
  case (walk env offset sz p M)
  then show ?thesis by (intro same) (auto simp: get_walk_def andThen_eq_Inr split: option.splits if_splits)
qed (rule same, force simp: put_call_def get_call_def get_read_def inv_call_def inv_wait_def inv_free_def andThen_eq_Inr,
    force simp: put_call_def get_call_def get_read_def inv_call_def inv_wait_def inv_free_def andThen_eq_Inr)+

text \<open>A node that a reader can see keeps its content, and its link unless it is in the list.\<close>

lemma node_frame:
  assumes c: "cinv c" and step: "cstep c j (Inr c')" and a: "a \<in> visible c i"
  shows "heap c' a = heap c a \<and> (a \<notin> listed c' \<longrightarrow> nxt c' (Some a) = nxt c (Some a))"
  using c step
proof (cases rule: link_cases)
  case (added e prev)
  have "a \<noteq> e" using a added(2) [of i] by blast
  then show ?thesis using added(3-5) by (auto simp: added(1) links_apply)
next
  case (deleted b prev)
  then show ?thesis by (auto simp: links_apply)
qed simp

lemma ahead_kept:
  assumes c: "cinv c" and step: "cstep c j (Inr c')" and p: "p = None \<or> p \<in> Some ` visible c i"
    and b: "ahead (nxt c) p b" "b \<in> listed c'"
  shows "ahead (nxt c') p b"
  using c step
proof (cases rule: link_cases)
  case (added e prev)
  have "prev = None \<or> prev \<in> Some ` visible c i" using added(3) by (auto simp: visible_def)
  then show ?thesis
    unfolding added(1) using visible_closed [OF c] by (intro ahead_add [OF b(1) p added(2)]) blast+
next
  case (deleted a prev)
  then show ?thesis using b(2) unfolding deleted(1) by (intro ahead_del [OF b(1)]) auto
qed (use b in simp)

section \<open>The order of the nodes\<close>

text \<open>A link leads to a node with a timestamp that is not smaller, also from a removed node.\<close>

definition mono_inv :: "conc \<Rightarrow> bool" where
  "mono_inv c \<longleftrightarrow> (\<forall>i. \<forall>x \<in> visible c i. \<forall>y. nxt c (Some x) = Some y \<longrightarrow> el_nsec (heap c x) \<le> el_nsec (heap c y))"

lemma chain_nth:
  "chain n p (map el_addr (pre @ el # rest)) \<Longrightarrow>
     n (Some (el_addr el)) = (case rest of [] \<Rightarrow> None | y # _ \<Rightarrow> Some (el_addr y))"
  by (induction pre arbitrary: p) (auto split: list.split)

lemma listed_mono:
  assumes c: "cinv c" and x: "x \<in> listed c" "nxt c (Some x) = Some y"
  shows "el_nsec (heap c x) \<le> el_nsec (heap c y)"
proof -
  obtain el where el: "el \<in> set (valid_blk_list (drv c))" "x = el_addr el" using x(1) by (auto simp: listed_def)
  then obtain pre rest where l: "valid_blk_list (drv c) = pre @ el # rest" by (meson split_list)
  have ptr: "chain (nxt c) None (map el_addr (pre @ el # rest))" "\<forall>z \<in> set (pre @ el # rest). heap c (el_addr z) = z"
    using c l by (simp_all add: cinv_def ptr_inv_def)
  obtain z zs where z: "rest = z # zs" "y = el_addr z" using chain_nth [OF ptr(1)] x(2) el(2) by (auto split: list.splits)
  have "el_nsec el \<le> el_nsec z" using cinv_list(4) [OF c] by (auto simp: l z(1) index_ok_def sorted_append)
  then show ?thesis using ptr(2) z el(2) by simp
qed

lemma mono_step:
  assumes c: "cinv c" and m: "mono_inv c" and step: "cstep c j (Inr c')"
  shows "mono_inv c'"
proof -
  have c': "cinv c'" using cstep_ok [OF step c] by simp
  have "el_nsec (heap c' x) \<le> el_nsec (heap c' y)" if x: "x \<in> visible c' i" and y: "nxt c' (Some x) = Some y" for i x y
  proof (cases "x \<in> listed c'")
    case True
    then show ?thesis using y by (rule listed_mono [OF c'])
  next
    case False
    then have v: "x \<in> visible c i" using visible_step [OF c step x] by blast
    have n: "nxt c (Some x) = Some y" using node_frame [OF c step v] False y by simp
    then have "y \<in> visible c i" using visible_closed [OF c _ n] v by blast
    then show ?thesis using m n v node_frame [OF c step, of _ i] by (simp add: mono_inv_def)
  qed
  then show ?thesis by (simp add: mono_inv_def)
qed

lemma ahead_mono:
  assumes c: "cinv c" "mono_inv c"
  shows "ahead (nxt c) p b \<Longrightarrow> p = Some x \<Longrightarrow> x \<in> visible c i \<Longrightarrow> el_nsec (heap c x) \<le> el_nsec (heap c b)"
proof (induction arbitrary: x rule: ahead.induct)
  case (ahead_next p a)
  then show ?case using c(2) by (auto simp: mono_inv_def)
next
  case (ahead_later p d b)
  then have "d \<in> visible c i" using visible_closed [OF c(1), of p i d] by blast
  moreover have "el_nsec (heap c x) \<le> el_nsec (heap c d)" using ahead_later c(2) by (auto simp: mono_inv_def)
  ultimately show ?case using ahead_later.IH [OF refl] by (meson order_trans)
qed

lemma start_mono: "conc_start c \<Longrightarrow> mono_inv c"
proof -
  assume s: "conc_start c"
  then have "threads c k = Idle" for k by (auto simp: conc_start_def conc_of_def)
  then show ?thesis using listed_mono [OF start_cinv [OF s]] by (auto simp: mono_inv_def visible_def)
qed

interpretation ordered: safe_system conc_start conc_step "\<lambda>c. cinv c \<and> mono_inv c"
proof unfold_locales
  fix c r assume c: "cinv c \<and> mono_inv c" and "conc_step c r"
  then obtain j where j: "cstep c j r" by (auto simp: conc_step_def)
  then obtain c' where "r = Inr c'" "cinv c'" using cstep_ok c by blast
  then show "\<exists>c'. r = Inr c' \<and> cinv c' \<and> mono_inv c'" using mono_step c j by blast
qed (use start_cinv start_mono in blast)

section \<open>A message that stays\<close>

lemma spec_call_content:
  "content (snd (spec_call call st)) k = content st k \<or> content st k = None \<or> content (snd (spec_call call st)) k = None"
proof (cases call)
  case (Put env source)
  have "content st i = None" if "first_free st = Some i" for i
    using that by (simp add: first_free_def find_Some_iff) blast
  then show ?thesis by (auto simp: Put spec_put_def split: option.split)
qed (auto simp: spec_invalidate_def split: option.split)

lemma message_kept:
  assumes c: "cinv c" and step: "cstep c j (Inr c')"
    and el: "el \<in> set (valid_blk_list (drv c))" "el \<in> set (valid_blk_list (drv c'))"
  shows "messages (settled c') (unat (ndx el)) = messages (settled c) (unat (ndx el))"
proof -
  have c': "cinv c'" using cstep_ok [OF step c] by simp
  have "messages (settled c) (unat (ndx el)) \<noteq> None" "messages (settled c') (unat (ndx el)) \<noteq> None"
    using elem_message_messages [of "settled c" el] elem_message_messages [of "settled c'" el] c c' el by (simp_all add: cinv_def)
  moreover have "shared c' = shared c \<or> (\<exists>call. shared c' = snd (spec_call call (shared c)))"
    using cstep_effect [OF c step] by (auto split: option.splits) (metis snd_conv)
  ultimately show ?thesis using spec_call_content [of _ "shared c" "unat (ndx el)"] by (metis store_of_fields(3))
qed

lemma cstep_sessions:
  assumes "cstep c i (Inr c')"
  shows "file_step c i c' \<or> sessions c' = sessions c"
  using assms
proof (cases rule: cstep_cases)
  case (put_lock env source b e m)
  then show ?thesis by (auto simp: put_lock_def andThen_eq_Inr) (auto split: sum.split)
next
  case (inv_lock br offset)
  then show ?thesis by (auto simp: inv_lock_def andThen_eq_Inr) (auto simp: Let_def split: sum.split)
next
  case (walk env offset sz p M)
  then show ?thesis by (auto simp: get_walk_def andThen_eq_Inr split: option.splits if_splits)
qed (auto simp: put_call_def put_unlock_def get_call_def get_read_def inv_call_def inv_wait_def inv_free_def
    andThen_eq_Inr Let_def)

lemma other_sessions: "cstep c i (Inr c') \<Longrightarrow> j \<noteq> i \<Longrightarrow> sessions c' j = sessions c j"
  using cstep_sessions [of c i c'] by (auto simp: file_step_def quiet_def)

section \<open>The message a session waits for\<close>

text \<open>
  A read from byte \<open>q\<close> of the message \<open>msg\<close> of the element \<open>el\<close>, with \<open>l\<close> bytes to read, on its
  way: it stands before the element, or has found it, or has copied the last piece of the message.
\<close>

definition reading_at :: "read_env \<Rightarrow> rcu_elem \<Rightarrow> nat \<Rightarrow> nat \<Rightarrow> reading" where
  "reading_at env el q l = \<lparr>rd_env = env, rd_blk = ndx el, rd_off = file_pos (unat (ndx el)) q,
     rd_offset = word_of_nat (10 + q), rd_len = word_of_nat l\<rparr>"

definition place :: "read_env \<Rightarrow> rcu_elem \<Rightarrow> bytes \<Rightarrow> nat \<Rightarrow> nat \<Rightarrow> links \<Rightarrow> thread \<Rightarrow> bool" where
  "place env el msg q l n th \<longleftrightarrow>
     (\<exists>p. th = RWalks (reading_at env el q l) p \<and> ahead n p (el_addr el)) \<or>
     th = RFound (reading_at env el q l) el \<or>
     (let k = min l (length msg - q) in q + k = length msg \<and>
      th = RNext (reading_at env el q l) (ucast (word_of_nat k :: u64)) (take k (drop q msg)) el)"

definition awaited :: "nat \<Rightarrow> read_env \<Rightarrow> rcu_elem \<Rightarrow> bytes \<Rightarrow> nat \<Rightarrow> nat \<Rightarrow> session \<Rightarrow> conc \<Rightarrow> bool" where
  "awaited i env el msg q l f c \<longleftrightarrow> el \<in> set (valid_blk_list (drv c)) \<and>
     messages (settled c) (unat (ndx el)) = Some (el_nsec el, msg) \<and>
     (\<forall>a \<in> visible c i. ndx (heap c a) = ndx el \<longrightarrow> a = el_addr el) \<and>
     sessions c i = Some f \<and> place env el msg q l (nxt c) (threads c i)"

lemma place_section: "place env el msg q l n th \<Longrightarrow> in_section th"
  by (auto simp: place_def Let_def)

lemma read_reply_thread [simp]:
  "threads (read_reply i r off f c) i = FileDone (Delivered (case fst r of Inl e \<Rightarrow> Inl e | Inr n \<Rightarrow> Inr (n, snd r)))"
  by (simp add: read_reply_def split: sum.split)

lemma read_advance_done:
  "read_advance i alloc rd ret out el f c = Inr c' \<Longrightarrow> \<exists>r. threads c' i = FileDone (Delivered r)"
  by (auto simp: read_advance_def andThen_eq_Inr split: if_splits)

text \<open>The walk finds the element: no node before it stops the search.\<close>

lemma walk_place:
  assumes c: "cinv c" "mono_inv c" and a: "awaited i env el msg q l f c" and th: "threads c i = RWalks rd p"
    and r: "read_walk i rd p f c = Inr c'" and f: "private_data f = Some (ta, el_nsec el)"
  shows "sessions c' = sessions c \<and> place env el msg q l (nxt c') (threads c' i)"
proof -
  have rd: "rd = reading_at env el q l" and ah: "ahead (nxt c) p (el_addr el)" and el: "el \<in> set (valid_blk_list (drv c))"
    using a th by (auto simp: awaited_def place_def Let_def)
  have t: "p = None \<or> p \<in> Some ` visible c i" using thread_okD [OF c(1) th] by simp
  obtain x where x: "nxt c p = Some x" using ah ahead_end by (cases "nxt c p") auto
  have v: "x \<in> visible c i" by (rule visible_closed [OF c(1) t x])
  have h: "heap c (el_addr el) = el" using c(1) el by (simp add: cinv_def ptr_inv_def)
  have "threads c' i = RFound (reading_at env el q l) el \<or>
      threads c' i = RWalks (reading_at env el q l) (Some x) \<and> ahead (nxt c) (Some x) (el_addr el)"
  proof (cases "x = el_addr el")
    case True
    then show ?thesis using r x f h by (auto simp: read_walk_def andThen_eq_Inr rd reading_at_def split: if_splits)
  next
    case False
    then have "ahead (nxt c) (Some x) (el_addr el)" using ahead_step [OF ah x] by simp
    moreover from ahead_mono [OF c this refl v] have "\<not> el_nsec el < el_nsec (heap c x)" using h by simp
    moreover have "ndx (heap c x) \<noteq> ndx el" using a v False by (auto simp: awaited_def)
    ultimately show ?thesis using r x f by (auto simp: read_walk_def andThen_eq_Inr rd reading_at_def split: if_splits)
  qed
  moreover have "sessions c' = sessions c" "nxt c' = nxt c"
    using r x by (auto simp: read_walk_def andThen_eq_Inr split: if_splits)
  ultimately show ?thesis by (auto simp: place_def)
qed

text \<open>The copy: a piece of the message, which ends the call, or the rest of it.\<close>

lemma awaited_block:
  assumes c: "cinv c" and a: "awaited i env el msg q l f c" and env: "read_env_ok env" and q: "q \<le> length msg" "l \<le> 4086 - q"
  defines "k \<equiv> min l (length msg - q)" and "rd \<equiv> reading_at env el q l"
  shows "read_block (rd_env rd) el (rd_blk rd) (rd_off rd) (rd_offset rd) (rd_len rd) (disk (drv c)) =
     Inr (if q + k < length msg
      then Inl ((Inr (word_of_nat k), take k (drop q msg)), file_pos (unat (ndx el)) (q + k))
      else Inr (ucast (word_of_nat k :: u64), take k (drop q msg)))"
proof -
  let ?i = "unat (ndx el)"
  have ok: "driver_ok (settled c)" using c by (simp add: cinv_def)
  have el: "el \<in> set (valid_blk_list (settled c))" and m: "messages (settled c) ?i = Some (el_nsec el, msg)"
    using a by (simp_all add: awaited_def)
  have "list_lookup (valid_blk_list (drv c)) (word_of_nat ?i) \<noteq> None" using el by (auto simp: list_lookup_None)
  moreover have "?i < md_array_size (drv c)" using listed_small(2) [OF ok el] by simp
  ultimately have "disk (drv c) (?i + NUM_METADATA_BLKS) = disk (settled c) (?i + NUM_METADATA_BLKS)"
    by (intro listed_disk [OF c])
  from read_block_message [OF ok el m q(1) env q(2), where d = "disk (drv c)", OF this] show ?thesis
    unfolding rd_def k_def by (simp only: reading_at_def reading.simps)
qed

lemma copy_place:
  assumes c: "cinv c" and a: "awaited i env el msg q l f c" and env: "read_env_ok env" and q: "q \<le> length msg" "l \<le> 4086 - q"
    and th: "threads c i = RFound rd x" and r: "read_copy i rd x f c = Inr c'" "in_section (threads c' i)"
  shows "sessions c' = sessions c \<and> place env el msg q l (nxt c') (threads c' i)"
proof -
  have rd: "rd = reading_at env el q l" "x = el" using a th by (auto simp: awaited_def place_def Let_def)
  show ?thesis
    using r awaited_block [OF c a env q] q(1)
    by (auto simp: read_copy_def rd place_def Let_def read_reply_def leave_def split: if_splits)
qed

lemma awaited_step:
  assumes c: "cinv c" "mono_inv c" and step: "cstep c j (Inr c')" and a: "awaited i env el msg q l f c"
    and env: "read_env_ok env" and q: "q \<le> length msg" "l \<le> 4086 - q" and f: "private_data f = Some (ta, el_nsec el)"
    and c': "el \<in> set (valid_blk_list (drv c'))" "in_section (threads c' i)"
  shows "awaited i env el msg q l f c'"
proof -
  have inv': "cinv c'" using cstep_ok [OF step c(1)] by simp
  have s: "sessions c i = Some f" and pl: "place env el msg q l (nxt c) (threads c i)" and el: "el \<in> set (valid_blk_list (drv c))"
    using a by (simp_all add: awaited_def)
  have sole: "\<forall>b \<in> visible c' i. ndx (heap c' b) = ndx el \<longrightarrow> b = el_addr el"
    using visible_step [OF c(1) step, of _ i] a listed_sole [OF inv' c'(1)] by (metis awaited_def)
  have "sessions c' i = Some f \<and> place env el msg q l (nxt c') (threads c' i)"
  proof (cases "j = i")
    case False
    have "threads c' i = threads c i"
      using section_frame [OF c(1) step _ place_section [OF pl]] False pl by (auto simp: place_def Let_def)
    moreover have "ahead (nxt c') p (el_addr el)" if "threads c i = RWalks rd p" "ahead (nxt c) p (el_addr el)" for rd p
      using thread_okD [OF c(1) that(1)] c'(1) that(2) by (intro ahead_kept [OF c(1) step]) (auto simp: listed_def)
    ultimately show ?thesis using other_sessions [OF step] False s pl by (auto simp: place_def)
  next
    case True
    from step have "sessions c' = sessions c \<and> place env el msg q l (nxt c') (threads c' i)"
    proof (cases rule: cstep.cases)
      case (step_read_walk rd p g)
      then show ?thesis using walk_place [OF c a _ _ f] s True by auto
    next
      case (step_read_copy rd x g)
      then show ?thesis using copy_place [OF c(1) a env q _ _ c'(2)] s True by auto
    next
      case (step_read_next rd ret out x g alloc)
      then show ?thesis using c'(2) True read_advance_done [of i alloc rd ret out x g c c'] by auto
    qed (use place_section [OF pl] pl True in \<open>auto simp: place_def Let_def\<close>)
    then show ?thesis using s by simp
  qed
  then show ?thesis using sole c'(1) message_kept [OF c(1) step el c'(1)] a by (simp add: awaited_def)
qed

text \<open>The end of the call.\<close>

lemma advance_answer:
  assumes r: "read_advance i alloc rd (ucast (word_of_nat k :: u64)) out el f c = Inr c'" and k: "k \<le> 4096"
    and d: "threads c' i = FileDone (Delivered ans)"
  shows "ans = Inl ENOMEM \<or> ans = Inr (word_of_nat k, out)"
proof -
  have v: "(if 0 < sint (ucast (word_of_nat k :: u64) :: u32) then scast (ucast (word_of_nat k :: u64) :: u32) else 0) = (word_of_nat k :: u64)"
    using ret_value [OF k] by simp
  obtain rest a off g s where n: "set_next_blk ((rd_env rd)\<lparr>ts_alloc := alloc\<rparr>) (file_bytes (drv c)) (ucast (word_of_nat k :: u64)) out rest
      (rd_off rd) f (rcu_read_lock (drv c)) = Inr (a, off, g, s)" and c': "c' = read_reply i a off g (c\<lparr>drv := s\<rparr>)"
    using r by (auto simp: read_advance_def andThen_eq_Inr split: if_splits)
  have "fst a = Inl ENOMEM \<or> a = (Inr (word_of_nat k), out)"
    using n v ret_value(1) [OF k] by (cases rest) (auto simp: set_next_blk_def andThen_eq_Inr split: option.splits)
  then show ?thesis using d by (auto simp: c')
qed

lemma awaited_answer:
  assumes c: "cinv c" "mono_inv c" and a: "awaited i env el msg q l f c"
    and env: "read_env_ok env" and q: "q \<le> length msg" "l \<le> 4086 - q" and f: "private_data f = Some (ta, el_nsec el)"
    and step: "cstep c i (Inr c')" "threads c' i = FileDone (Delivered r)"
  defines "k \<equiv> min l (length msg - q)"
  shows "(r = Inl ENOMEM \<or> r = Inr (word_of_nat k, take k (drop q msg))) \<and>
     (q + k < length msg \<longrightarrow> sessions c' i = Some (f\<lparr>f_pos := file_pos (unat (ndx el)) (q + k)\<rparr>))"
proof -
  have s: "sessions c i = Some f" and pl: "place env el msg q l (nxt c) (threads c i)" using a by (simp_all add: awaited_def)
  note blk = awaited_block [OF c(1) a env q, folded k_def]
  from step(1) show ?thesis
  proof (cases rule: cstep.cases)
    case (step_read_walk rd p g)
    then have "place env el msg q l (nxt c') (threads c' i)" using walk_place [OF c a _ _ f] s by auto
    then show ?thesis using place_section step(2) by fastforce
  next
    case (step_read_copy rd x g)
    then have "rd = reading_at env el q l" "x = el" "g = f" using pl s by (auto simp: place_def Let_def)
    then show ?thesis
      using step_read_copy(1) step(2) blk by (auto simp: read_copy_def read_reply_def split: if_splits)
  next
    case (step_read_next rd ret out x g alloc)
    then have e: "ret = ucast (word_of_nat k :: u64)" "out = take k (drop q msg)" "q + k = length msg"
      using pl by (auto simp: place_def k_def Let_def)
    have "k \<le> 4096" using q by (auto simp: k_def)
    from advance_answer [OF step_read_next(1) [symmetric, unfolded e(1)] this step(2)] show ?thesis by (simp add: e)
  qed (use pl step(2) in \<open>auto simp: place_def Let_def\<close>)
qed

text \<open>The beginning: the session is at byte \<open>q\<close> of the message.\<close>

lemma read_call_awaited:
  assumes c: "cinv c" and th: "threads c i = Idle" and s: "sessions c i = Some f"
    and pos: "f_pos f = file_pos (unat (ndx el)) q" and q: "q < length msg \<or> q = 0"
    and el: "el \<in> set (valid_blk_list (drv c))" "messages (settled c) (unat (ndx el)) = Some (el_nsec el, msg)"
    and n: "unat (ndx el) + 2 < md_array_size (drv c)" and len: "unat len < 2 ^ 63"
    and c0: "read_call i env len f c = Inr c0"
  shows "awaited i env el msg q (min (unat len) (4086 - q)) f c0"
proof -
  let ?i = "unat (ndx el)" and ?l = "min (unat len) (4086 - q)"
  have ok: "driver_ok (settled c)" using c by (simp add: cinv_def)
  have "length msg \<le> 4086" using messages_Some [OF ok el(2)] by metis
  then have q': "q < 4086" using q by auto
  have sz: "md_array_size (drv c) \<le> 1000" using cinv_shape(4) [OF c] by (simp add: layout_consts)
  have i: "?i < 1000" using n sz by simp
  have dev: "word_of_int (sint (file_pos ?i q) sdiv 4096) = ndx el"
    using file_pos_block [OF i q'] by simp
  have "c0 = move i (RWalks (reading_at env el q ?l) None) c"
    using c0 read_clamp_pos [OF n sz q' len] by (simp add: read_call_def file_bytes_def pos dev reading_at_def del: of_nat_add)
  moreover have "i \<notin> readers c" "grace_inv c" using th c by (simp_all add: readers_def cinv_def)
  then have "visible c i \<subseteq> listed c" using grace_removed(1) by (fastforce simp: visible_def)
  moreover have "visible (move i (RWalks (reading_at env el q ?l) None) c) = visible c" by (rule visible_move) (simp add: th)
  moreover have "ahead (nxt c) None (el_addr el)"
    using chain_ahead [of "nxt c" None "map el_addr (valid_blk_list (drv c))" "el_addr el"] c el(1) by (simp add: cinv_def ptr_inv_def)
  ultimately show ?thesis
    using el s listed_sole [OF c el(1)] by (auto simp: awaited_def place_def)
qed

lemma awaited_read:
  assumes c: "cinv c" "mono_inv c" and th: "threads c i = Idle" and s: "sessions c i = Some f"
    and f: "private_data f = Some (ta, el_nsec el)" "f_pos f = file_pos (unat (ndx el)) q" and q: "q < length msg \<or> q = 0"
    and el: "messages (settled c) (unat (ndx el)) = Some (el_nsec el, msg)"
    and n: "unat (ndx el) + 2 < md_array_size (drv c)" and len: "unat len < 2 ^ 63" and env: "read_env_ok env"
    and c0: "read_call i env len f c = Inr c0" "cinv c0" "mono_inv c0"
    and run: "during (\<lambda>c. el \<in> set (valid_blk_list (drv c)) \<and> in_section (threads c i)) c0 c'"
    and ans: "cstep c' i (Inr c'')" "threads c'' i = FileDone (Delivered r)"
  defines "k \<equiv> min (unat len) (length msg - q)"
  shows "(r = Inl ENOMEM \<or> r = Inr (word_of_nat k, take k (drop q msg))) \<and>
     (q + k < length msg \<longrightarrow> sessions c'' i = Some (f\<lparr>f_pos := file_pos (unat (ndx el)) (q + k)\<rparr>))"
proof -
  let ?l = "min (unat len) (4086 - q)"
  have "driver_ok (settled c)" using c by (simp add: cinv_def)
  then have V: "length msg \<le> 4086" using messages_Some [OF _ el] by metis
  then have q': "q \<le> length msg" "?l \<le> 4086 - q" using q by auto
  have "drv c0 = drv c" using c0(1) by (auto simp: read_call_def split: option.splits)
  from run have "cinv c' \<and> mono_inv c' \<and> awaited i env el msg q ?l f c'"
  proof (induction rule: during.induct)
    case during_start
    then show ?case using read_call_awaited [OF c(1) th s f(2) q _ el n len c0(1)] c0 \<open>drv c0 = drv c\<close> by simp
  next
    case (during_step d d')
    then obtain j where j: "cstep d j (Inr d')" by (auto simp: conc_step_def)
    with during_step cstep_ok [OF j] mono_step [OF _ _ j] awaited_step [OF _ _ j _ env q' f(1)] show ?case by simp
  qed
  then have c': "cinv c'" "mono_inv c'" and a: "awaited i env el msg q ?l f c'" by simp_all
  have "min ?l (length msg - q) = k" using V by (auto simp: k_def)
  with awaited_answer [OF c' a env q' f(1) ans] show ?thesis by simp
qed

section \<open>One open file in two threads\<close>

text \<open>
  The timestamp of a session is freed by the read or the \<open>llseek\<close> that replaces it. A second
  thread that reads the same open file and has taken the pointer before uses it after that.
\<close>

definition timestamp_freed :: "addr \<Rightarrow> conc \<Rightarrow> conc \<Rightarrow> bool" where
  "timestamp_freed a c c' \<longleftrightarrow> a \<notin> live (drv c') \<and> listed c \<subseteq> live (drv c') \<and> nxt c' = nxt c \<and> heap c' = heap c"

lemma replaced_live:
  assumes c: "cinv c" and s: "sessions c i = Some f" "private_data f = Some (a, t)" and b: "fresh (drv c) b"
  shows "a \<notin> insert b (live (drv c)) - {a}" "listed c \<subseteq> insert b (live (drv c)) - {a}" "a \<in> live (drv c)" "a \<noteq> b"
proof -
  have a: "a \<in> set (holds c i)" using s by (simp add: holds_def keeps_def)
  then have "a \<in> live (drv c)" "a \<notin> set (owned (drv c))" using holds_facts(2) [OF c, of i] by auto
  then show "a \<notin> insert b (live (drv c)) - {a}" "listed c \<subseteq> insert b (live (drv c)) - {a}" "a \<in> live (drv c)" "a \<noteq> b"
    using cinv_list(2,3) [OF c] b by (auto simp: fresh_def)
qed

lemma seek_frees:
  assumes c: "cinv c" and s: "sessions c i = Some f" "private_data f = Some (a, t)" and b: "fresh (drv c) b"
    and r: "seek_call i (Some b) 0 SEEK_SET f c = Inr c'"
  shows "timestamp_freed a c c'"
  using r replaced_live [OF c s b] cinv_shape(1) [OF c]
  by (auto simp: seek_call_def bldms_llseek_def andThen_eq_Inr free_private_def s kzalloc_def timestamp_freed_def)

lemma advance_frees:
  assumes c: "cinv c" and s: "sessions c i = Some f" "private_data f = Some (a, t)" and b: "fresh (drv c) b"
    and n: "nxt c (Some (el_addr el)) \<noteq> None" and r: "read_advance i (Some b) rd ret out el f c = Inr c'"
  shows "timestamp_freed a c c'"
  using r n replaced_live [OF c s b]
  by (auto simp: read_advance_def set_next_blk_def andThen_eq_Inr free_private_def s kzalloc_def timestamp_freed_def
      rcu_read_lock_def rcu_read_unlock_def read_reply_def split: if_splits)

lemma stale_timestamp:
  assumes c: "cinv c" and g: "timestamp_freed a c c'" and f: "private_data f = Some (a, t)"
  shows "p = None \<or> p \<in> Some ` listed c \<Longrightarrow> nxt c p = Some x \<Longrightarrow> ndx (heap c x) \<noteq> rd_blk rd \<Longrightarrow>
      read_walk j rd p f c' = Inl (UseAfterFree a)"
    "el_addr el \<in> listed c \<Longrightarrow> nxt c (Some (el_addr el)) = Some x \<Longrightarrow> b \<noteq> a \<Longrightarrow>
      read_advance j (Some b) rd ret out el f c' = Inl (DoubleFree a)"
proof -
  have l: "x \<in> live (drv c')" if p: "p = None \<or> p \<in> Some ` listed c" and x: "nxt c p = Some x" for p x
  proof -
    have ch: "chain (nxt c) None (map el_addr (valid_blk_list (drv c)))" using c by (simp add: cinv_def ptr_inv_def)
    have "x \<in> listed c" using chain_next [OF ch _ x] p by (auto simp: listed_def)
    then show ?thesis using g by (auto simp: timestamp_freed_def)
  qed
  show "read_walk j rd p f c' = Inl (UseAfterFree a)"
    if "p = None \<or> p \<in> Some ` listed c" "nxt c p = Some x" "ndx (heap c x) \<noteq> rd_blk rd"
    using that g f l [OF that(1,2)] by (auto simp: read_walk_def timestamp_freed_def)
  show "read_advance j (Some b) rd ret out el f c' = Inl (DoubleFree a)"
    if "el_addr el \<in> listed c" "nxt c (Some (el_addr el)) = Some x" "b \<noteq> a"
    using that g f l [of "Some (el_addr el)" x]
    by (auto simp: read_advance_def timestamp_freed_def set_next_blk_def free_private_def kzalloc_def rcu_read_lock_def kfree_def)
qed

end
