(* ===== verification/Example.thy ===== *)
theory Example
  imports File_Ops
begin

text \<open>
  A small mounted device on which the hypotheses of the properties are shown to hold: three data
  blocks, the first with a two-byte message, the others free. The state is what a mount of
  the device \<open>demo_disk\<close> leaves with the allocations written here.
\<close>

definition demo_md :: bldms_block where
  "demo_md = new_metadata (Ktime 7) 2"

definition demo_disk :: disk where
  "demo_disk i =
     (if i = 0 then sb_block (replicate 4080 0) \<lparr>version = 1, magic = MAGIC\<rparr>
      else if i = 1 then
        encode_inode 0 \<lparr>mode = 0x8000, inode_no = 1, data_block_number = 0, file_size = 12288\<rparr> @ replicate 4064 0
      else if i = 2 then new_block demo_md [104, 105]
      else replicate 4096 0)"

definition demo :: bldms where
  "demo = \<lparr>live = {1, 2, 3, 4, 5}, rcu_write_lock = False, rcu_readers = 0, slept_locked = False,
     valid_blk_list = [rcu_fill 5 0 2 (Ktime 7)], bldms_mounted = True,
     metadata_array = Some \<lparr>arr_addr = 1, arr_elems =
       [\<lparr>md_addr = 2, md_blk = demo_md\<rparr>, \<lparr>md_addr = 3, md_blk = zero_block\<rparr>, \<lparr>md_addr = 4, md_blk = zero_block\<rparr>]\<rparr>,
     md_array_size = 3, last_written_block = 0, the_dev_superblock = True, disk = demo_disk\<rparr>"

text \<open>Allocations at the addresses from \<open>a\<close> on; every read succeeds.\<close>

definition demo_put :: "addr \<Rightarrow> ktime \<Rightarrow> put_env" where
  "demo_put a t = \<lparr>buffer_alloc = Some a, elem_alloc = Some (a + 1), md_alloc = Some (a + 2), not_copied = 0,
     now = t, bread = (\<lambda>_. True)\<rparr>"

definition demo_get :: get_env where
  "demo_get = \<lparr>get_bread = (\<lambda>_. True), uncopied = (\<lambda>_. 0)\<rparr>"

definition demo_inode :: inode where
  "demo_inode = \<lparr>i_ino = 0, i_mode = 0, i_nlink = 1, i_size = 0, i_op = None, i_fop = None, i_times = Ktime 0, i_new = True\<rparr>"

definition demo_fill :: fill_env where
  "demo_fill = \<lparr>sb_bread = (\<lambda>_. True), iget_root = Some demo_inode, root_ok = True, curr_time = Ktime 1, arr_alloc = Some 10,
     md_allocs = (\<lambda>i. Some (11 + i)), el_allocs = (\<lambda>i. Some (20 + i))\<rparr>"

lemma le_bytes_zero: "le_bytes k 0 = replicate k 0"
  by (induction k) simp_all

lemma encode_zero_block: "encode_block zero_block = replicate 10 0"
  by (simp add: encode_block_def zero_block_def le_bytes_zero flip: replicate_add)

lemma zero_metadata: "block_metadata (replicate 4096 0) = zero_block"
proof -
  have "take METADATA_SIZE (replicate 4096 (0 :: byte)) = encode_block zero_block"
    by (simp add: encode_zero_block layout_consts)
  then show ?thesis by (simp add: block_metadata_def decode_encode_block)
qed

lemma less_3_cases: "i < (3 :: nat) \<Longrightarrow> i = 0 \<or> i = 1 \<or> i = 2"
  by linarith

lemma demo_blocks:
  "block_ok (demo_disk 2) demo_md" "block_ok (demo_disk 3) zero_block" "block_ok (demo_disk 4) zero_block"
  using new_block_ok [of "[104, 105]" "Ktime 7"]
  by (simp_all add: demo_disk_def demo_md_def layout_consts numeral_2_eq_2)
    (simp_all add: block_ok_def zero_metadata layout_consts, simp_all add: zero_block_def)

lemma demo_objs: "md_objs demo =
  [\<lparr>md_addr = 2, md_blk = demo_md\<rparr>, \<lparr>md_addr = 3, md_blk = zero_block\<rparr>, \<lparr>md_addr = 4, md_blk = zero_block\<rparr>]"
  by (simp add: md_objs_def demo_def)

lemma demo_len: "length (md_objs demo) = 3"
  by (simp add: demo_objs)

lemma demo_md_at: "md_at demo 0 = demo_md" "md_at demo (Suc 0) = zero_block" "md_at demo 2 = zero_block"
  "md_at demo (Suc (Suc 0)) = zero_block"
  by (simp_all add: md_at_def demo_objs)

lemma demo_fields:
  "valid_blk_list demo = [rcu_fill 5 0 2 (Ktime 7)]" "disk demo = demo_disk" "md_array_size demo = 3"
  "last_written_block demo = 0" "live demo = {1, 2, 3, 4, 5}" "bldms_mounted demo"
  by (simp_all add: demo_def)

lemma all_less_3: "(\<forall>i < 3. P i) \<longleftrightarrow> P 0 \<and> P (Suc 0) \<and> P (2 :: nat)"
  by (auto dest!: less_3_cases)

lemma demo_index: "index_inv demo"
proof -
  have "entry_ok (Some (rcu_fill 5 0 2 (Ktime 7))) demo_md" "entry_ok None zero_block"
    by (simp_all add: entry_ok_def elem_matches_def demo_md_def zero_block_def BLK_INVALID_def rcu_fill_def)
  moreover have "list_lookup [rcu_fill 5 0 2 (Ktime 7)] 1 = None" "list_lookup [rcu_fill 5 0 2 (Ktime 7)] 2 = None"
    by (simp_all add: list_lookup_def)
  moreover have "list_lookup [rcu_fill 5 0 2 (Ktime 7)] 0 = Some (rcu_fill 5 0 2 (Ktime 7))"
    by (simp add: list_lookup_def)
  ultimately show ?thesis
    unfolding index_inv_def demo_len all_less_3 demo_fields
    by (simp add: index_ok_def demo_md_at)
qed

lemma demo_ok: "driver_ok demo"
proof -
  have "shape_ok demo" by (simp add: shape_ok_def demo_objs) (simp add: demo_def layout_consts)
  moreover have "mem_ok demo" by (simp add: mem_ok_def owned_def demo_def rcu_fill_def)
  moreover have "disk_inv demo"
    using demo_blocks unfolding disk_inv_def demo_len all_less_3 demo_fields demo_md_at
    by (simp add: layout_consts eval_nat_numeral)
  ultimately show ?thesis using demo_index by (simp add: driver_ok_def)
qed

lemma demo_header: "header_ok demo_disk 3"
proof -
  let ?ino = "\<lparr>mode = 0x8000, inode_no = 1, data_block_number = 0, file_size = 12288\<rparr>"
  have "take 16 (demo_disk SB_BLOCK_NUMBER) = encode_sb \<lparr>version = 1, magic = MAGIC\<rparr>"
    by (simp add: demo_disk_def SB_BLOCK_NUMBER_def sb_block_def sb.length_enc)
  moreover have "take inode_size (demo_disk BLDMS_SINGLEFILE_INODE_NUMBER) = encode_inode 0 ?ino"
    by (simp add: demo_disk_def BLDMS_SINGLEFILE_INODE_NUMBER_def inode.length_enc)
  ultimately show ?thesis
    by (simp add: header_ok_def sb.dec_enc inode.dec_enc layout_consts)
qed

lemma demo_mountable: "mountable demo"
  using demo_ok demo_header by (simp add: mountable_def demo_fields)

lemma demo_formatted: "formatted demo_disk 3"
  using driver_formatted [OF demo_ok] demo_header by (simp add: demo_fields)

text \<open>A \<open>mount_bdev\<close> that calls the callback and returns the root.\<close>

definition demo_bdev :: "(bldms \<Rightarrow> fault + super_block sysret \<times> bldms) \<Rightarrow> bldms \<Rightarrow> fault + inode sysret \<times> bldms" where
  "demo_bdev fill s = map_sum id (apfst (map_sum id s_root)) (fill s)"

lemma demo_bdev_ok: "mount_bdev_ok demo_bdev"
  by (simp add: mount_bdev_ok_def demo_bdev_def)

lemma demo_fill_ok: "live s \<subseteq> {..<10} \<Longrightarrow> fill_env_ok demo_fill 3 s"
  by (auto simp: fill_env_ok_def demo_fill_def fill_addrs_def upt_rec)

lemma demo_put_ready: "length source \<le> 4086 \<Longrightarrow> put_ready (demo_put 6 t) source demo 6 7 8"
  by (simp add: put_ready_def demo_put_def demo_fields layout_consts)

lemma demo_target: "find_target demo = Inr (Some 1)"
  by (simp add: find_target_rotate [OF demo_ok] demo_fields rotate1_def upt_rec demo_md_at)
    (simp add: zero_block_def demo_md_def BLK_INVALID_def BLK_VALID_def)

lemma demo_messages: "messages demo = [0 \<mapsto> (Ktime 7, [104, 105])]"
proof
  fix i
  have "message_at (demo_disk 2) demo_md = (Ktime 7, [104, 105])"
    using new_block_message [of "[104, 105]" "Ktime 7"]
    by (simp add: demo_disk_def demo_md_def layout_consts numeral_2_eq_2)
  moreover have "is_valid zero_block \<noteq> BLK_VALID" "is_valid demo_md = BLK_VALID"
    by (simp_all add: zero_block_def demo_md_def BLK_VALID_def BLK_INVALID_def)
  ultimately show "messages demo i = [0 \<mapsto> (Ktime 7, [104, 105])] i"
    unfolding messages_def demo_len demo_fields
    using less_3_cases [of i] by (auto simp: demo_md_at layout_consts numeral_2_eq_2)
qed

lemma demo_device_messages: "device_messages demo_disk 3 = [0 \<mapsto> (Ktime 7, [104, 105])]"
  using driver_device_messages [OF demo_ok] demo_messages demo_fields(2,3) by (simp only:)

lemma demo_store: "store_of demo = \<lparr>capacity = 3, cursor = 0, content = [0 \<mapsto> (Ktime 7, [104, 105])]\<rparr>"
  by (simp add: store_of_def demo_messages demo_fields)

section \<open>A session on the device\<close>

definition demo_open :: bldms where
  "demo_open = demo\<lparr>live := insert 6 (live demo)\<rparr>"

definition demo_session :: "ktime \<Rightarrow> session" where
  "demo_session t = \<lparr>f_mode = O_RDONLY, f_pos = 0, private_data = Some (6, t)\<rparr>"

definition demo_read :: "nat \<Rightarrow> read_env" where
  "demo_read k = \<lparr>read_bread = (\<lambda>_. True), to_user = (\<lambda>_. 0), ts_alloc = Some (7 + k), uninit_ret = 0\<rparr>"

lemma demo_open_ok: "driver_ok demo_open" "messages demo_open = [0 \<mapsto> (Ktime 7, [104, 105])]"
proof -
  have "set (owned demo) \<subseteq> insert 6 (live demo)" using demo_ok by (auto simp: driver_ok_def mem_ok_def)
  from live_frame [OF demo_ok this] show "driver_ok demo_open" "messages demo_open = [0 \<mapsto> (Ktime 7, [104, 105])]"
    by (simp_all add: demo_open_def demo_messages)
qed

lemma demo_open_fields:
  "valid_blk_list demo_open = [rcu_fill 5 0 2 (Ktime 7)]" "md_array_size demo_open = 3" "bldms_mounted demo_open"
  "live demo_open = {1, 2, 3, 4, 5, 6}"
  by (auto simp: demo_open_def demo_fields)

lemma demo_session_at: "session_at (demo_session t) t demo_open"
  by (simp add: session_at_def demo_session_def demo_open_fields)

lemma demo_read_ok: "read_env_ok (demo_read k)" "envs_ok demo_read n (live demo_open)"
  by (auto simp: read_env_ok_def envs_ok_def demo_read_def demo_open_fields inj_on_def)

lemma demo_own: "6 \<notin> set (owned demo_open)"
  by (simp add: owned_def demo_open_def demo_def rcu_fill_def)

lemma ktime_pos: "Ktime 0 < Ktime 7"
  by (simp add: less_ktime_def)

end
