(* ===== verification/Concurrency_Example.thy ===== *)
theory Concurrency_Example
  imports Concurrency_Spec Example
begin

text \<open>
  A run of three threads on a device of one block, in which the block is written again while a
  reader that has found its old message has not copied it yet: thread 0 calls \<open>get_data\<close> and finds
  the element of block 0, thread 1 invalidates the block, and thread 2 calls \<open>put_data\<close> and writes
  the block. The states of the run serve to show that the hypotheses of the properties hold.
\<close>

section \<open>A device of one block\<close>

definition tiny :: bldms where
  "tiny = \<lparr>live = {1, 2, 5}, rcu_write_lock = False, rcu_readers = 0, slept_locked = False,
     valid_blk_list = [rcu_fill 5 0 2 (Ktime 7)], bldms_mounted = True,
     metadata_array = Some \<lparr>arr_addr = 1, arr_elems = [\<lparr>md_addr = 2, md_blk = demo_md\<rparr>]\<rparr>,
     md_array_size = 1, last_written_block = 0, the_dev_superblock = True, disk = demo_disk\<rparr>"

lemma tiny_fields:
  "valid_blk_list tiny = [rcu_fill 5 0 2 (Ktime 7)]" "disk tiny = demo_disk" "md_array_size tiny = 1"
  "last_written_block tiny = 0" "live tiny = {1, 2, 5}" "bldms_mounted tiny" "the_dev_superblock tiny"
  "\<not> rcu_write_lock tiny" "rcu_readers tiny = 0"
  "metadata_array tiny = Some \<lparr>arr_addr = 1, arr_elems = [\<lparr>md_addr = 2, md_blk = demo_md\<rparr>]\<rparr>"
  by (simp_all add: tiny_def)

lemma tiny_objs: "md_objs tiny = [\<lparr>md_addr = 2, md_blk = demo_md\<rparr>]" "md_at tiny 0 = demo_md"
  by (simp_all add: md_objs_def md_at_def tiny_def)

lemma tiny_ok: "driver_ok tiny"
proof -
  have "entry_ok (Some (rcu_fill 5 0 2 (Ktime 7))) demo_md"
    by (simp add: entry_ok_def elem_matches_def demo_md_def rcu_fill_def)
  then have "index_inv tiny"
    by (simp add: index_inv_def index_ok_def tiny_fields tiny_objs list_lookup_def)
  moreover have "shape_ok tiny" by (simp add: shape_ok_def tiny_objs tiny_fields layout_consts)
  moreover have "mem_ok tiny" by (simp add: mem_ok_def owned_def tiny_fields tiny_objs rcu_fill_def)
  moreover have "disk_inv tiny"
    using demo_blocks(1) by (simp add: disk_inv_def tiny_fields tiny_objs layout_consts eval_nat_numeral)
  ultimately show ?thesis by (simp add: driver_ok_def)
qed

section \<open>The run\<close>

definition race0 :: conc where
  "race0 = conc_of tiny"

definition race1 :: conc where
  "race1 = move 0 (Walks demo_get 0 10 None {5}) race0"

definition race2 :: conc where
  "race2 = move 0 (Reads demo_get 0 10 (rcu_fill 5 0 2 (Ktime 7))) race1"

definition race3 :: conc where
  "race3 = move 1 (InvWaits (\<lambda>_. True) 0) race2"

lemma race_threads:
  "threads race0 = (\<lambda>_. Idle)" "threads race1 0 = Walks demo_get 0 10 None {5}"
  "threads race2 0 = Reads demo_get 0 10 (rcu_fill 5 0 2 (Ktime 7))" "threads race2 (Suc 0) = Idle"
  "threads race3 0 = Reads demo_get 0 10 (rcu_fill 5 0 2 (Ktime 7))" "threads race3 (Suc 0) = InvWaits (\<lambda>_. True) 0"
  "threads race3 2 = Idle" 
  by (simp_all add: race0_def race1_def race2_def race3_def conc_of_def)

lemma race_drv: "drv race0 = tiny" "drv race1 = tiny" "drv race2 = tiny" "drv race3 = tiny"
  by (simp_all add: race0_def race1_def race2_def race3_def conc_of_def)

lemma race_nxt: "nxt race1 None = Some 5" "heap race1 5 = rcu_fill 5 0 2 (Ktime 7)"
  by (simp_all add: race0_def race1_def conc_of_def heap_of_def tiny_fields)

lemma race_steps:
  "cstep race0 0 (Inr race1)" "cstep race1 0 (Inr race2)" "cstep race2 1 (Inr race3)"
proof -
  have "get_call 0 demo_get 0 10 race0 = Inr race1"
    by (simp add: get_call_def race_drv get_enter_def tiny_fields listed_def race1_def)
  then show "cstep race0 0 (Inr race1)"
    using cstep.step_get [of race0 0 demo_get 0 10] by (simp add: race_threads demo_get_def)
  have "get_walk 0 demo_get 0 10 None {5} race1 = Inr race2"
    by (simp add: get_walk_def race_nxt race_drv tiny_fields race2_def)
  then show "cstep race1 0 (Inr race2)"
    using cstep.step_walk [of race1 0] by (simp add: race_threads)
  have "inv_call 1 (\<lambda>_. True) 0 race2 = Inr race3"
    by (simp add: inv_call_def race_drv inv_enter_def tiny_fields race3_def)
  then show "cstep race2 1 (Inr race3)"
    using cstep.step_inv [of race2 1] by (metis One_nat_def race_threads(4))
qed

lemma reach_cstep:
  "reachable conc_start conc_step c \<Longrightarrow> cstep c i (Inr c') \<Longrightarrow> reachable conc_start conc_step c'"
  using reach_step [of conc_start conc_step c c'] by (auto simp: conc_step_def)

lemma race_reachable:
  "reachable conc_start conc_step race0" "reachable conc_start conc_step race1"
  "reachable conc_start conc_step race2" "reachable conc_start conc_step race3"
proof -
  have "conc_start race0" using tiny_ok by (auto simp: conc_start_def race0_def)
  then show "reachable conc_start conc_step race0" by (rule reach_start)
  then show "reachable conc_start conc_step race1" using race_steps(1) by (rule reach_cstep)
  then show "reachable conc_start conc_step race2" using race_steps(2) by (rule reach_cstep)
  then show "reachable conc_start conc_step race3" using race_steps(3) by (rule reach_cstep)
qed

text \<open>The removal, by the case analysis of the step.\<close>

definition race4 :: conc where
  "race4 = projr (inv_lock 1 (\<lambda>_. True) 0 race3)"

definition race5 :: conc where
  "race5 = projr (put_call 2 (demo_put 6 (Ktime 9)) [1, 2, 3] race4)"

definition race6 :: conc where
  "race6 = projr (put_lock 2 (demo_put 6 (Ktime 9)) [1, 2, 3] 6 7 8 race5)"

lemma race4_facts:
  "cstep race3 1 (Inr race4)" "threads race4 0 = threads race3 0"
  "threads race4 (Suc 0) = Removed (rcu_fill 5 0 2 (Ktime 7)) {0}" "threads race4 2 = Idle"
  "drv race4 = (inval_result 0 (rcu_fill 5 0 2 (Ktime 7)) tiny)\<lparr>live := live tiny\<rparr>"
proof -
  have c: "cinv race3" using conc.reachable_inv race_reachable(4) by blast
  have th: "threads race3 1 = InvWaits (\<lambda>_. True) 0" by (simp add: race_threads)
  have ul: "\<not> rcu_write_lock (drv race3)" by (simp add: race_drv tiny_fields)
  let ?el = "rcu_fill 5 0 2 (Ktime 7)"
  have look: "list_lookup [?el] 0 = Some ?el" by (simp add: list_lookup_def)
  have rd: "readers race3 = {0}"
    by (auto simp: readers_def race3_def race2_def race1_def race0_def conc_of_def)
  have s: "inv_lock 1 (\<lambda>_. True) 0 race3 = Inr (move 1 (Removed ?el {0})
         (race3\<lparr>drv := (inval_result 0 ?el tiny)\<lparr>live := live tiny\<rparr>,
            nxt := list_del_rcu 5 (prev_in None 5 [5]) (nxt race3),
            threads := (\<lambda>j. unlist 5 (threads race3 j))\<rparr>))"
    using c th ul
  proof (cases rule: inv_lock_cases)
    case (gone k el)
    then have "k = 0" "el = ?el" by (simp_all add: race_drv tiny_fields look)
    with gone show ?thesis by (simp add: race_drv tiny_fields rd)
  qed (simp add: race_drv tiny_fields look)
  then show "cstep race3 1 (Inr race4)"
    using cstep.step_inv_lock [OF th ul] by (simp add: race4_def)
  show "threads race4 0 = threads race3 0" "threads race4 (Suc 0) = Removed ?el {0}" "threads race4 2 = Idle"
    "drv race4 = (inval_result 0 ?el tiny)\<lparr>live := live tiny\<rparr>"
    unfolding race4_def s by (simp_all add: race_threads)
qed

text \<open>The call of \<open>put_data\<close>, and its write to the device.\<close>

lemma race5_facts:
  "cstep race4 2 (Inr race5)" "threads race5 0 = threads race3 0"
  "threads race5 2 = PutWaits (demo_put 6 (Ktime 9)) [1, 2, 3] 6 7 8"
  "drv race5 = (inval_result 0 (rcu_fill 5 0 2 (Ktime 7)) tiny)\<lparr>live := {1, 2, 5, 6, 7, 8}\<rparr>"
proof -
  let ?s = "(inval_result 0 (rcu_fill 5 0 2 (Ktime 7)) tiny)\<lparr>live := live tiny\<rparr>"
  have "put_enter (demo_put 6 (Ktime 9)) [1, 2, 3] ?s =
      Inr (Inr (6, 7, 8), ?s\<lparr>live := {1, 2, 5, 6, 7, 8}\<rparr>)"
    by (simp add: put_enter_def demo_put_def kzalloc_def layout_consts inval_result_def Let_def tiny_fields insert_commute)
  then have s: "put_call 2 (demo_put 6 (Ktime 9)) [1, 2, 3] race4 =
      Inr (move 2 (PutWaits (demo_put 6 (Ktime 9)) [1, 2, 3] 6 7 8) (race4\<lparr>drv := ?s\<lparr>live := {1, 2, 5, 6, 7, 8}\<rparr>\<rparr>))"
    by (simp add: put_call_def race4_facts(5))
  have "call_ok (Put (demo_put 6 (Ktime 9)) [1, 2, 3]) (drv race4)"
    by (simp add: race4_facts(5) put_env_ok_def allocs_def demo_put_def tiny_fields)
  from cstep.step_put [OF race4_facts(4) this] s show "cstep race4 2 (Inr race5)" by (simp add: race5_def)
  show "threads race5 0 = threads race3 0" "threads race5 2 = PutWaits (demo_put 6 (Ktime 9)) [1, 2, 3] 6 7 8"
    "drv race5 = (inval_result 0 (rcu_fill 5 0 2 (Ktime 7)) tiny)\<lparr>live := {1, 2, 5, 6, 7, 8}\<rparr>"
    by (simp_all add: race5_def s race4_facts(2))
qed

lemma race6_facts:
  "cstep race5 2 (Inr race6)" "threads race6 0 = threads race3 0"
  "threads race6 2 = PutWrote (demo_put 6 (Ktime 9)) [1, 2, 3] 6 7 8 0"
proof -
  have "reachable conc_start conc_step race5"
    using reach_cstep [OF reach_cstep [OF race_reachable(4) race4_facts(1)] race5_facts(1)] .
  then have c: "cinv race5" by (rule conc.reachable_inv)
  note th = race5_facts(3)
  have ul: "\<not> rcu_write_lock (drv race5)" by (simp add: race5_facts(4) inval_result_def Let_def tiny_fields)
  have md: "md_array_size (drv race5) = 1" "last_written_block (drv race5) = 0"
    "md_at (drv race5) 0 = demo_md\<lparr>is_valid := BLK_INVALID\<rparr>"
    by (simp_all add: race5_facts(4) inval_result_def Let_def tiny_fields tiny_objs md_at_def md_objs_def)
  have t: "find_target (drv race5) = Inr (Some 0)"
    using unlocked(4) [OF c ul] by (simp add: find_target_rotate md)
  have "\<exists>c'. put_lock 2 (demo_put 6 (Ktime 9)) [1, 2, 3] 6 7 8 race5 = Inr c' \<and> threads c' =
      (threads race5)(2 := PutWrote (demo_put 6 (Ktime 9)) [1, 2, 3] 6 7 8 0)"
    using c th ul by (cases rule: put_lock_cases) (simp_all add: t)
  then obtain c' where s: "put_lock 2 (demo_put 6 (Ktime 9)) [1, 2, 3] 6 7 8 race5 = Inr c'"
    "threads c' = (threads race5)(2 := PutWrote (demo_put 6 (Ktime 9)) [1, 2, 3] 6 7 8 0)" by blast
  from cstep.step_put_lock [OF th ul] s show "cstep race5 2 (Inr race6)" by (simp add: race6_def)
  show "threads race6 0 = threads race3 0" "threads race6 2 = PutWrote (demo_put 6 (Ktime 9)) [1, 2, 3] 6 7 8 0"
    using s race5_facts(2) by (simp_all add: race6_def)
qed

lemma race_written: "reachable conc_start conc_step race6"
  using reach_cstep [OF reach_cstep [OF reach_cstep [OF race_reachable(4) race4_facts(1)] race5_facts(1)] race6_facts(1)] .

end
