(* ===== verification/Reader_Example.thy ===== *)
theory Reader_Example
  imports Concurrency_Reader Concurrency_Example
begin

text \<open>
  A device of four blocks with two messages, and a thread that opens the file, reads the first
  message and begins to read the second: the states of this run serve to show that the hypotheses
  of the properties about concurrent reads hold.
\<close>

section \<open>A device with two messages\<close>

definition duo_md :: bldms_block where
  "duo_md = new_metadata (Ktime 9) 3"

definition duo_disk :: disk where
  "duo_disk = demo_disk(3 := new_block duo_md [97, 98, 99])"

abbreviation first_el :: rcu_elem where
  "first_el \<equiv> rcu_fill 5 0 2 (Ktime 7)"

abbreviation second_el :: rcu_elem where
  "second_el \<equiv> rcu_fill 6 1 3 (Ktime 9)"

definition duo :: bldms where
  "duo = \<lparr>live = {1, 2, 3, 4, 5, 6, 7}, rcu_write_lock = False, rcu_readers = 0, slept_locked = False,
     valid_blk_list = [first_el, second_el], bldms_mounted = True,
     metadata_array = Some \<lparr>arr_addr = 1, arr_elems = [\<lparr>md_addr = 2, md_blk = demo_md\<rparr>, \<lparr>md_addr = 3, md_blk = duo_md\<rparr>,
       \<lparr>md_addr = 4, md_blk = zero_block\<rparr>, \<lparr>md_addr = 7, md_blk = zero_block\<rparr>]\<rparr>,
     md_array_size = 4, last_written_block = 1, the_dev_superblock = True, disk = duo_disk\<rparr>"

lemma duo_fields:
  "valid_blk_list duo = [first_el, second_el]" "disk duo = duo_disk" "md_array_size duo = 4" "live duo = {1, 2, 3, 4, 5, 6, 7}"
  "bldms_mounted duo"
  by (simp_all add: duo_def)

lemma duo_objs: "md_objs duo = [\<lparr>md_addr = 2, md_blk = demo_md\<rparr>, \<lparr>md_addr = 3, md_blk = duo_md\<rparr>,
    \<lparr>md_addr = 4, md_blk = zero_block\<rparr>, \<lparr>md_addr = 7, md_blk = zero_block\<rparr>]" "length (md_objs duo) = 4"
  by (simp_all add: md_objs_def duo_def)

lemma duo_md_at: "md_at duo 0 = demo_md" "md_at duo (Suc 0) = duo_md" "md_at duo 2 = zero_block" "md_at duo 3 = zero_block"
  by (simp_all add: md_at_def duo_objs)

lemma all_less_4: "(\<forall>i < 4. P i) \<longleftrightarrow> P 0 \<and> P (Suc 0) \<and> P 2 \<and> P (3 :: nat)"
  by (metis all_less_3 less_Suc_eq numeral_3_eq_3 numeral_eq_Suc pred_numeral_simps(2) semiring_norm(26) semiring_norm(27))

lemma duo_index: "index_inv duo"
proof -
  have "entry_ok (Some first_el) demo_md" "entry_ok (Some second_el) duo_md" "entry_ok None zero_block"
    by (simp_all add: entry_ok_def elem_matches_def demo_md_def duo_md_def zero_block_def BLK_INVALID_def rcu_fill_def)
  moreover have "list_lookup [first_el, second_el] 0 = Some first_el" "list_lookup [first_el, second_el] 1 = Some second_el"
    "list_lookup [first_el, second_el] 2 = None" "list_lookup [first_el, second_el] 3 = None"
    by (simp_all add: list_lookup_def)
  moreover have "Ktime 7 \<le> Ktime 9" by (simp add: less_eq_ktime_def)
  ultimately show ?thesis
    unfolding index_inv_def duo_objs(2) all_less_4 duo_fields
    by (simp add: index_ok_def duo_md_at)
qed

lemma duo_block: "block_ok (duo_disk 3) duo_md"
  using new_block_ok [of "[97, 98, 99]" "Ktime 9"]
  by (simp add: duo_disk_def duo_md_def layout_consts numeral_3_eq_3)

lemma duo_ok: "driver_ok duo"
proof -
  have "shape_ok duo" by (simp add: shape_ok_def duo_objs) (simp add: duo_def layout_consts)
  moreover have "mem_ok duo" by (simp add: mem_ok_def owned_def duo_def rcu_fill_def)
  moreover have "block_ok (duo_disk 2) demo_md" "block_ok (duo_disk 4) zero_block" "block_ok (duo_disk 5) zero_block"
    using demo_blocks by (simp_all add: duo_disk_def demo_disk_def)
  then have "disk_inv duo"
    using duo_block unfolding disk_inv_def duo_objs(2) all_less_4 duo_fields duo_md_at
    by (simp add: layout_consts eval_nat_numeral)
  ultimately show ?thesis using duo_index by (simp add: driver_ok_def)
qed

lemma duo_messages: "messages duo 0 = Some (Ktime 7, [104, 105])" "messages duo 1 = Some (Ktime 9, [97, 98, 99])"
proof -
  have "message_at (duo_disk 2) demo_md = (Ktime 7, [104, 105])" "message_at (duo_disk 3) duo_md = (Ktime 9, [97, 98, 99])"
    using new_block_message [of "[104, 105]" "Ktime 7"] new_block_message [of "[97, 98, 99]" "Ktime 9"]
    by (simp_all add: duo_disk_def demo_disk_def demo_md_def duo_md_def layout_consts eval_nat_numeral)
  moreover have "is_valid demo_md = BLK_VALID" "is_valid duo_md = BLK_VALID" by (simp_all add: demo_md_def duo_md_def)
  ultimately show "messages duo 0 = Some (Ktime 7, [104, 105])" "messages duo 1 = Some (Ktime 9, [97, 98, 99])"
    unfolding messages_def duo_objs(2) duo_fields
    by (simp_all add: duo_md_at layout_consts eval_nat_numeral)
qed

section \<open>The run of a reader\<close>

text \<open>The state in which thread 0 has the file open and stands at \<open>th\<close>; \<open>L\<close> is the allocated memory.\<close>

definition duo_at :: "addr set \<Rightarrow> session \<Rightarrow> thread \<Rightarrow> conc" where
  "duo_at L f th = (conc_of duo)\<lparr>drv := duo\<lparr>live := L\<rparr>, sessions := (\<lambda>_. None)(0 := Some f), threads := (\<lambda>_. Idle)(0 := th)\<rparr>"

abbreviation duo_mem :: "addr set" where
  "duo_mem \<equiv> {1, 2, 3, 4, 5, 6, 7}"

definition duo_session :: "addr \<Rightarrow> ktime \<Rightarrow> u64 \<Rightarrow> session" where
  "duo_session a t pos = \<lparr>f_mode = O_RDONLY, f_pos = pos, private_data = Some (a, t)\<rparr>"

lemma duo_at_fields [simp]:
  "drv (duo_at L f th) = duo\<lparr>live := L\<rparr>" "threads (duo_at L f th) 0 = th" "sessions (duo_at L f th) 0 = Some f"
  "nxt (duo_at L f th) None = Some 5" "nxt (duo_at L f th) (Some 5) = Some 6" "nxt (duo_at L f th) (Some 6) = None"
  "heap (duo_at L f th) 5 = first_el" "heap (duo_at L f th) 6 = second_el"
  by (simp_all add: duo_at_def conc_of_def duo_fields heap_of_def)

lemma duo_moves [simp]:
  "move 0 th' (duo_at L f th) = duo_at L f th'" "leave 0 th' (duo_at L f th) = duo_at L f th'"
  "set_session 0 (Some f') (duo_at L f th) = duo_at L f' th" "(duo_at L f th)\<lparr>drv := duo\<lparr>live := L'\<rparr>\<rparr> = duo_at L' f th"
  by (simp_all add: duo_at_def move_def leave_def set_session_def conc_of_def fun_eq_iff)

lemma duo_reply: "read_reply 0 (Inr n, out) off f' (duo_at L f th) = duo_at L (f'\<lparr>f_pos := off\<rparr>) (FileDone (Delivered (Inr (n, out))))"
  by (simp add: read_reply_def)

lemma duo_size: "file_bytes (duo\<lparr>live := L\<rparr>) = word_of_nat (4 * 4096)"
  by (simp add: file_bytes_def duo_fields)

lemma duo_live: "set (owned duo) \<subseteq> L \<Longrightarrow> driver_ok (duo\<lparr>live := L\<rparr>) \<and> messages (duo\<lparr>live := L\<rparr>) = messages duo"
  using live_frame [OF duo_ok] by simp

lemma duo_owned: "set (owned duo) = duo_mem"
  by (auto simp: owned_def duo_def rcu_fill_def)

lemma duo_settled: "settled (duo_at L f th) = duo\<lparr>live := L\<rparr>"
  by (simp add: settled_def duo_at_def conc_of_def duo_def)

abbreviation rd1 :: reading where
  "rd1 \<equiv> reading_at (demo_read 0) first_el 0 4086"

abbreviation rd2 :: reading where
  "rd2 \<equiv> reading_at (demo_read 0) second_el 0 2"

abbreviation fresh_session :: session where
  "fresh_session \<equiv> duo_session 10 (Ktime 0) 0"

abbreviation next_session :: session where
  "next_session \<equiv> duo_session 11 (Ktime 9) (file_pos 1 0)"

lemma duo_open: "open_call 0 (Some 10) O_RDONLY (conc_of duo) =
    Inr (duo_at (insert 10 duo_mem) fresh_session (FileDone (Opened (Inr ()))))"
  by (simp add: open_call_def bldms_open_def readable_def kzalloc_def duo_session_def duo_at_def conc_of_def duo_fields
      set_session_def move_def Let_def)

lemma duo_call1: "read_call 0 (demo_read 0) 4086 fresh_session (duo_at L fresh_session Idle) =
    Inr (duo_at L fresh_session (RWalks rd1 None))"
proof -
  have "read_clamp (word_of_nat (4 * 4096)) 0 4086 = Some (word_of_nat 10, word_of_nat 10, word_of_nat 4086)"
    using read_clamp_nat [of 0 "4 * 4096" 4086 0 10] by simp
  then show ?thesis by (simp add: read_call_def duo_size duo_session_def reading_at_def file_pos_def)
qed

lemma duo_walk1: "5 \<in> L \<Longrightarrow> 10 \<in> L \<Longrightarrow> read_walk 0 rd1 None fresh_session (duo_at L fresh_session (RWalks rd1 None)) =
    Inr (duo_at L fresh_session (RFound rd1 first_el))"
  by (simp add: read_walk_def reading_at_def duo_session_def)

lemma duo_blocks:
  "read_block (rd_env rd1) first_el (rd_blk rd1) (rd_off rd1) (rd_offset rd1) (rd_len rd1) duo_disk = Inr (Inr (2, [104, 105]))"
  "read_block (rd_env rd2) second_el (rd_blk rd2) (rd_off rd2) (rd_offset rd2) (rd_len rd2) duo_disk =
     Inr (Inl ((Inr 2, [97, 98]), file_pos 1 2))"
  using read_block_message [OF duo_ok, of first_el "[104, 105]" 0 "demo_read 0" 4086 duo_disk]
    read_block_message [OF duo_ok, of second_el "[97, 98, 99]" 0 "demo_read 0" 2 duo_disk] duo_messages
  by (simp_all add: duo_fields reading_at_def demo_read_ok) (simp add: numeral_2_eq_2)

lemma duo_copy1: "read_copy 0 rd1 first_el fresh_session (duo_at L fresh_session (RFound rd1 first_el)) =
    Inr (duo_at L fresh_session (RNext rd1 2 [104, 105] first_el))"
  by (simp add: read_copy_def duo_blocks duo_fields)

lemma duo_next1: "5 \<in> L \<Longrightarrow> 6 \<in> L \<Longrightarrow> 10 \<in> L \<Longrightarrow>
    read_advance 0 (Some 11) rd1 2 [104, 105] first_el fresh_session (duo_at L fresh_session (RNext rd1 2 [104, 105] first_el)) =
    Inr (duo_at (insert 11 L - {10}) next_session (FileDone (Delivered (Inr (2, [104, 105])))))"
proof -
  have "ucast (1 * 4096 :: u32) + 10 = file_pos 1 0" using pos_of_block [of 1] by simp
  moreover assume "5 \<in> L" "6 \<in> L" "10 \<in> L"
  moreover have "scast (2 :: u32) = (2 :: u64)" by (simp add: signed_eq_0_iff)
  ultimately show ?thesis
    by (simp add: read_advance_def set_next_blk_def free_private_def kzalloc_def rcu_read_lock_def rcu_read_unlock_def
        duo_session_def read_reply_def)
qed

lemma duo_call2: "read_call 0 (demo_read 0) 2 next_session (duo_at L next_session Idle) = Inr (duo_at L next_session (RWalks rd2 None))"
proof -
  have "read_clamp (word_of_nat (4 * 4096)) (file_pos 1 0) 2 = Some (file_pos 1 0, word_of_nat (10 + 0), word_of_nat 2)"
    using read_clamp_pos [of 1 4 0 2] by simp
  moreover have "(word_of_int (sint (file_pos 1 0) sdiv 4096) :: u32) = 1" using file_pos_block [of 1 0] by simp
  ultimately show ?thesis by (simp add: read_call_def duo_size duo_session_def reading_at_def del: One_nat_def)
qed

lemma duo_walk2: "5 \<in> L \<Longrightarrow> 6 \<in> L \<Longrightarrow> 11 \<in> L \<Longrightarrow>
   read_walk 0 rd2 None next_session (duo_at L next_session (RWalks rd2 None)) = Inr (duo_at L next_session (RWalks rd2 (Some 5)))"
  "5 \<in> L \<Longrightarrow> 6 \<in> L \<Longrightarrow> 11 \<in> L \<Longrightarrow>
   read_walk 0 rd2 (Some 5) next_session (duo_at L next_session (RWalks rd2 (Some 5))) = Inr (duo_at L next_session (RFound rd2 second_el))"
  by (simp_all add: read_walk_def reading_at_def duo_session_def less_ktime_def)

lemma duo_copy2: "read_copy 0 rd2 second_el next_session (duo_at L next_session (RFound rd2 second_el)) =
    Inr (duo_at L (duo_session 11 (Ktime 9) (file_pos 1 2)) (FileDone (Delivered (Inr (2, [97, 98])))))"
  by (simp add: read_copy_def duo_blocks duo_fields duo_reply del: One_nat_def) (simp add: duo_session_def)

text \<open>The states of the run are reachable.\<close>

abbreviation mem1 :: "addr set" where
  "mem1 \<equiv> insert 10 duo_mem"

abbreviation mem2 :: "addr set" where
  "mem2 \<equiv> insert 11 mem1 - {10}"

lemma duo_read_ok: "unat len < 2 ^ 63 \<Longrightarrow> read_ok (demo_read 0) len (duo_session a t pos)"
  by (simp add: read_ok_def readable_def duo_session_def demo_read_def)

lemma duo_steps1:
  "cstep (conc_of duo) 0 (Inr (duo_at mem1 fresh_session (FileDone (Opened (Inr ())))))"
  "cstep (duo_at L f (FileDone r)) 0 (Inr (duo_at L f Idle))"
  "cstep (duo_at L fresh_session Idle) 0 (Inr (duo_at L fresh_session (RWalks rd1 None)))"
  "cstep (duo_at mem1 fresh_session (RWalks rd1 None)) 0 (Inr (duo_at mem1 fresh_session (RFound rd1 first_el)))"
  "cstep (duo_at L fresh_session (RFound rd1 first_el)) 0 (Inr (duo_at L fresh_session (RNext rd1 2 [104, 105] first_el)))"
  "cstep (duo_at mem1 fresh_session (RNext rd1 2 [104, 105] first_el)) 0
     (Inr (duo_at mem2 next_session (FileDone (Delivered (Inr (2, [104, 105]))))))"
proof -
  have "cstep (conc_of duo) 0 (open_call 0 (Some 10) O_RDONLY (conc_of duo))"
    by (rule cstep.step_open) (simp_all add: conc_of_def unused_def fresh_def duo_fields)
  then show "cstep (conc_of duo) 0 (Inr (duo_at mem1 fresh_session (FileDone (Opened (Inr ())))))" by (simp only: duo_open)
  show "cstep (duo_at L f (FileDone r)) 0 (Inr (duo_at L f Idle))"
    using cstep.step_file_return [of "duo_at L f (FileDone r)" 0 r] by simp
  show "cstep (duo_at L fresh_session Idle) 0 (Inr (duo_at L fresh_session (RWalks rd1 None)))"
    unfolding duo_call1 [symmetric] by (rule cstep.step_read_call) (simp_all add: duo_read_ok)
  have "cstep (duo_at mem1 fresh_session (RWalks rd1 None)) 0 (read_walk 0 rd1 None fresh_session (duo_at mem1 fresh_session (RWalks rd1 None)))"
    by (rule cstep.step_read_walk) simp_all
  then show "cstep (duo_at mem1 fresh_session (RWalks rd1 None)) 0 (Inr (duo_at mem1 fresh_session (RFound rd1 first_el)))"
    using duo_walk1 [of mem1] by simp
  show "cstep (duo_at L fresh_session (RFound rd1 first_el)) 0 (Inr (duo_at L fresh_session (RNext rd1 2 [104, 105] first_el)))"
    unfolding duo_copy1 [symmetric] by (rule cstep.step_read_copy) simp_all
  have "cstep (duo_at mem1 fresh_session (RNext rd1 2 [104, 105] first_el)) 0
      (read_advance 0 (Some 11) rd1 2 [104, 105] first_el fresh_session (duo_at mem1 fresh_session (RNext rd1 2 [104, 105] first_el)))"
    by (rule cstep.step_read_next) (simp_all add: unused_def fresh_def)
  then show "cstep (duo_at mem1 fresh_session (RNext rd1 2 [104, 105] first_el)) 0
      (Inr (duo_at mem2 next_session (FileDone (Delivered (Inr (2, [104, 105]))))))" using duo_next1 [of mem1] by simp
qed

lemma duo_steps2:
  "cstep (duo_at L next_session Idle) 0 (Inr (duo_at L next_session (RWalks rd2 None)))"
  "cstep (duo_at mem2 next_session (RWalks rd2 None)) 0 (Inr (duo_at mem2 next_session (RWalks rd2 (Some 5))))"
  "cstep (duo_at mem2 next_session (RWalks rd2 (Some 5))) 0 (Inr (duo_at mem2 next_session (RFound rd2 second_el)))"
  "cstep (duo_at L next_session (RFound rd2 second_el)) 0
     (Inr (duo_at L (duo_session 11 (Ktime 9) (file_pos 1 2)) (FileDone (Delivered (Inr (2, [97, 98]))))))"
proof -
  show "cstep (duo_at L next_session Idle) 0 (Inr (duo_at L next_session (RWalks rd2 None)))"
    unfolding duo_call2 [symmetric] by (rule cstep.step_read_call) (simp_all add: duo_read_ok)
  have "cstep (duo_at mem2 next_session (RWalks rd2 p)) 0 (read_walk 0 rd2 p next_session (duo_at mem2 next_session (RWalks rd2 p)))" for p
    by (rule cstep.step_read_walk) simp_all
  from this [of None] this [of "Some 5"]
  show "cstep (duo_at mem2 next_session (RWalks rd2 None)) 0 (Inr (duo_at mem2 next_session (RWalks rd2 (Some 5))))"
    "cstep (duo_at mem2 next_session (RWalks rd2 (Some 5))) 0 (Inr (duo_at mem2 next_session (RFound rd2 second_el)))"
    using duo_walk2 [of mem2] by simp_all
  show "cstep (duo_at L next_session (RFound rd2 second_el)) 0
     (Inr (duo_at L (duo_session 11 (Ktime 9) (file_pos 1 2)) (FileDone (Delivered (Inr (2, [97, 98]))))))"
    unfolding duo_copy2 [symmetric] by (rule cstep.step_read_copy) simp_all
qed

lemma duo_reachable:
  "reachable conc_start conc_step (duo_at mem1 fresh_session (RNext rd1 2 [104, 105] first_el))"
  "reachable conc_start conc_step (duo_at mem2 next_session Idle)"
proof -
  have "reachable conc_start conc_step (conc_of duo)" using duo_ok by (intro reach_start) (auto simp: conc_start_def)
  note r1 = reach_cstep [OF reach_cstep [OF reach_cstep [OF this duo_steps1(1)] duo_steps1(2)] duo_steps1(3)]
  show r2: "reachable conc_start conc_step (duo_at mem1 fresh_session (RNext rd1 2 [104, 105] first_el))"
    by (rule reach_cstep [OF reach_cstep [OF r1 duo_steps1(4)] duo_steps1(5)])
  show "reachable conc_start conc_step (duo_at mem2 next_session Idle)"
    by (rule reach_cstep [OF reach_cstep [OF r2 duo_steps1(6)] duo_steps1(2)])
qed

end
