(* ===== verification/Lifecycle.thy ===== *)
theory Lifecycle
  imports Concurrency_Spec
begin

text \<open>
  The whole life of a device: it is mounted, used by any number of threads at the same time,
  unmounted when nobody uses it, and mounted again. A device that is not mounted refuses the
  system calls, a mounted one refuses a second mount.
\<close>

section \<open>The system\<close>

datatype system =
    Unmounted bldms
  | Mounted conc

text \<open>The kernel unmounts a file system whose files are closed; no thread is inside a call.\<close>

definition unused_device :: "conc \<Rightarrow> bool" where
  "unused_device c \<longleftrightarrow> (\<forall>i. threads c i = Idle \<and> sessions c i = None)"

text \<open>
  The result of a mount: the threads start on the new state of the driver. The unmount is the one
  in which a freed list element still holds its link.
\<close>

definition after_mount :: "inode sysret \<times> bldms \<Rightarrow> system" where
  "after_mount x = (case fst x of Inl _ \<Rightarrow> Unmounted (snd x) | Inr _ \<Rightarrow> Mounted (conc_of (snd x)))"

inductive system_step :: "system \<Rightarrow> fault + system \<Rightarrow> bool" where
  use: "cstep c i r \<Longrightarrow> system_step (Mounted c) (map_sum id Mounted r)"
| busy: "system_step (Mounted c) (andThen (bldms_fs_mount mb gp bs stale env (drv c)) (\<lambda>(r, s). Inr (Mounted (c\<lparr>drv := s\<rparr>))))"
| unmount: "unused_device c \<Longrightarrow> system_step (Mounted c) (andThen (bldms_fs_kill_sb True (drv c)) (\<lambda>s. Inr (Unmounted s)))"
| refuse: "system_step (Unmounted s) (andThen (do_call call s) (\<lambda>(r, s). Inr (Unmounted s)))"
| mount: "mount_bdev_ok mb \<Longrightarrow> formatted (disk s) n \<Longrightarrow> fill_env_ok env n s \<Longrightarrow>
    system_step (Unmounted s) (andThen (bldms_fs_mount mb True True stale env s) (\<lambda>x. Inr (after_mount x)))"

definition system_start :: "nat \<Rightarrow> system \<Rightarrow> bool" where
  "system_start n x \<longleftrightarrow> (\<exists>d. formatted d n \<and> x = Unmounted (bldms_start d))"

section \<open>Well-formed systems\<close>

fun well_formed :: "nat \<Rightarrow> system \<Rightarrow> bool" where
  "well_formed n (Mounted c) \<longleftrightarrow> cinv c \<and> md_array_size (drv c) = n \<and> header_ok (disk (drv c)) n"
| "well_formed n (Unmounted s) \<longleftrightarrow> \<not> bldms_mounted s \<and> rcu_readers s = 0 \<and> \<not> rcu_write_lock s \<and> valid_blk_list s = [] \<and>
     metadata_array s = None \<and> formatted (disk s) n"

text \<open>The messages that the system holds: those of the driver, or those on the device.\<close>

fun content_of :: "nat \<Rightarrow> system \<Rightarrow> nat \<rightharpoonup> ktime \<times> bytes" where
  "content_of n (Mounted c) = messages (settled c)"
| "content_of n (Unmounted s) = device_messages (disk s) n"

lemma formatted_size: "formatted d n \<Longrightarrow> formatted d m \<Longrightarrow> m = n"
  by (simp add: formatted_def)

text \<open>The steps of the callers write data blocks only.\<close>

lemma cstep_disk:
  assumes c: "cinv c" and step: "cstep c j (Inr c')"
  shows "disk (drv c') 0 = disk (drv c) 0 \<and> disk (drv c') 1 = disk (drv c) 1"
  using step
proof (cases rule: cstep_cases)
  case (put_unlock env source b e m t)
  obtain old where w: "undo c = Some (t, old)" "disk (drv c) (t + NUM_METADATA_BLKS) = put_buffer env source"
    by (rule wrote_facts [OF c put_unlock(1)])
  have "drv c' = put_result t e (put_obj env source m) (put_buffer env source) ((settled c)\<lparr>live := live (drv c) - {b, e, m}\<rparr>)"
    using put_unlock(2) put_publish_result [OF c put_unlock(1)] by (auto simp: put_unlock_def Let_def)
  then show ?thesis using w by (simp add: put_result_def settled_def layout_consts)
next
  case (put_lock env source b e m)
  show ?thesis
    using c put_lock(1,2) by (cases rule: put_lock_cases) (use put_lock(3) in \<open>auto simp: layout_consts\<close>)
next
  case (inv_lock br offset)
  show ?thesis
    using c inv_lock(1,2) by (cases rule: inv_lock_cases) (use inv_lock(3) in \<open>auto simp: inval_result_def layout_consts Let_def\<close>)
next
  case fileop
  then show ?thesis by (auto simp: file_step_def quiet_def)
next
  case (put env source)
  have pe: "put_env_ok env (drv c)" using put by simp
  show ?thesis
    by (rule put_enter_cases [OF cinv_shape(1,2) [OF c] pe, of source]) (use put(3) in \<open>auto simp: put_call_def\<close>)
next
  case (walk env offset sz p M)
  then show ?thesis by (auto simp: get_walk_def andThen_eq_Inr split: option.splits if_splits)
next
  case (inv_free el S)
  then show ?thesis by (auto simp: inv_free_def andThen_eq_Inr kfree_def split: if_splits)
qed (auto simp: get_call_def get_read_def inv_call_def inv_wait_def andThen_eq_Inr)

lemma unused_unlocked:
  assumes c: "cinv c" and u: "unused_device c"
  shows "driver_ok (drv c)" "settled c = drv c"
proof -
  have "wrote (threads c i) = None" for i using u by (simp add: unused_device_def)
  then have "\<not> rcu_write_lock (drv c)" using c by (auto simp: cinv_def lock_inv_def split: option.splits)
  from unlocked(2,4) [OF c this] show "driver_ok (drv c)" "settled c = drv c" by simp_all
qed

lemma conc_of_ok: "driver_ok s \<Longrightarrow> cinv (conc_of s) \<and> settled (conc_of s) = s"
proof -
  assume ok: "driver_ok s"
  then have c: "cinv (conc_of s)" by (intro start_cinv) (auto simp: conc_start_def)
  moreover have "\<not> rcu_write_lock (drv (conc_of s))" using ok by (simp add: conc_of_def driver_ok_def shape_ok_def)
  from unlocked(2) [OF c this] have "settled (conc_of s) = s" by (simp add: conc_of_def)
  ultimately show ?thesis by simp
qed

lemma conc_of_drv [simp]: "drv (conc_of s) = s"
  by (simp add: conc_of_def)

text \<open>The three changes between the states of a device.\<close>

lemma unmount_ok:
  assumes c: "well_formed n (Mounted c)" and u: "unused_device c"
  shows "bldms_fs_kill_sb True (drv c) = Inr (unmounted (drv c))" "well_formed n (Unmounted (unmounted (drv c)))"
    "content_of n (Unmounted (unmounted (drv c))) = content_of n (Mounted c)"
proof -
  have ok: "driver_ok (drv c)" "settled c = drv c" using unused_unlocked u c by simp_all
  then show "bldms_fs_kill_sb True (drv c) = Inr (unmounted (drv c))" by (simp add: unmount_success)
  show "well_formed n (Unmounted (unmounted (drv c)))"
    using ok(1) driver_formatted [OF ok(1)] c by (simp add: unmounted_def driver_ok_def shape_ok_def)
  show "content_of n (Unmounted (unmounted (drv c))) = content_of n (Mounted c)"
    using driver_device_messages [OF ok(1)] ok(2) c by (simp add: unmounted_def)
qed

lemma mount_ok:
  assumes s: "well_formed n (Unmounted s)" and mb: "mount_bdev_ok mb" and env: "fill_env_ok env n s"
  shows "\<exists>root s'. bldms_fs_mount mb True True stale env s = Inr (Inr root, s') \<and> well_formed n (Mounted (conc_of s')) \<and>
     content_of n (Mounted (conc_of s')) = content_of n (Unmounted s)"
proof -
  have f: "formatted (disk s) n" using s by simp
  obtain root s' where s': "bldms_fs_mount mb True True stale env s = Inr (Inr root, s')" "driver_ok s'"
    "store_of s' = \<lparr>capacity = n, cursor = unat (last_written_block s'), content = device_messages (disk s) n\<rparr>" "disk s' = disk s"
    using mount_success [OF mb _ _ _ f env, of stale] s by auto
  have "md_array_size s' = n" "messages s' = device_messages (disk s) n"
    using arg_cong [OF s'(3), of capacity] arg_cong [OF s'(3), of content] by simp_all
  then show ?thesis using s' conc_of_ok [OF s'(2)] formatted_header [OF f] by auto
qed

lemma refused_call: "\<not> bldms_mounted s \<Longrightarrow> \<exists>r. do_call call s = Inr (r, s)"
  by (cases call) (simp_all add: put_data_def get_data_def invalidate_data_def)

lemma system_step_ok:
  assumes x: "well_formed n x" and step: "system_step x r"
  shows "\<exists>x'. r = Inr x' \<and> well_formed n x' \<and>
     (content_of n x' = content_of n x \<or> (\<exists>c c' i. x = Mounted c \<and> x' = Mounted c' \<and> cstep c i (Inr c')))"
  using step
proof (cases rule: system_step.cases)
  case (use c i r')
  have c: "cinv c" using x use by simp
  obtain c' where c': "r' = Inr c'" "cinv c'" using cstep_ok [OF use(3) c] by blast
  note st = use(3) [unfolded c'(1)]
  have "well_formed n (Mounted c')"
    using x use c'(2) cstep_size [OF c st] cstep_disk [OF c st] header_ok_cong [of "disk (drv c')" "disk (drv c)" n] by simp
  then show ?thesis using use c'(1) st by auto
next
  case (busy c mb gp bs stale env)
  then show ?thesis using x cinv_shape(1) [of c] by (simp add: bldms_fs_mount_def)
next
  case (unmount c)
  then show ?thesis using unmount_ok [of n c] x by auto
next
  case (refuse s call)
  then show ?thesis using refused_call [of s call] x by auto
next
  case (mount mb s m env stale)
  then have "m = n" using x formatted_size [of "disk s" n m] by simp
  then show ?thesis using mount_ok [of n s mb env stale] mount x by (auto simp: after_mount_def)
qed

lemma system_start_ok: "system_start n x \<Longrightarrow> well_formed n x"
  by (auto simp: system_start_def bldms_start_def)

interpretation life: safe_system "system_start n" system_step "well_formed n" for n
  using system_start_ok system_step_ok by unfold_locales blast+

end
