(* ===== verification/User_Programs.thy ===== *)
theory User_Programs
  imports File_Ops
begin

text \<open>
  The client programs under \<^verbatim>\<open>user\<close>: the demonstration \<^verbatim>\<open>user.c\<close> and the test
  \<^verbatim>\<open>test.c\<close>, run against the driver. A program is a function of the driver's state that ends
  with an exit status or goes on with a value; what the programs print is left out. A system call
  gives \<open>Inl e\<close> where the C wrapper returns -1 with \<open>errno\<close> set to \<open>e\<close>. The kernel under the
  programs, that is its allocator, its device reads and its copies to and from the caller, is a
  parameter.
\<close>

section \<open>Programs\<close>

type_synonym 'a prog = "bldms \<Rightarrow> fault + (int + 'a) \<times> bldms"

definition give :: "'a \<Rightarrow> 'a prog" where
  "give x s = Inr (Inr x, s)"

definition exit_with :: "int \<Rightarrow> 'a prog" where
  "exit_with code s = Inr (Inl code, s)"

definition andDo :: "'a prog \<Rightarrow> ('a \<Rightarrow> 'b prog) \<Rightarrow> 'b prog" where
  "andDo p q s = andThen (p s) (\<lambda>(r, s). case r of Inl code \<Rightarrow> Inr (Inl code, s) | Inr x \<Rightarrow> q x s)"

fun for_each :: "('i \<Rightarrow> 'a prog) \<Rightarrow> 'i list \<Rightarrow> 'a list prog" where
  "for_each body [] = give []"
| "for_each body (i # is) = andDo (body i) (\<lambda>x. andDo (for_each body is) (\<lambda>xs. give (x # xs)))"

lemma give_run [simp]: "give x s = Inr (Inr x, s)"
  by (simp add: give_def)

lemma exit_run [simp]: "exit_with code s = Inr (Inl code, s)"
  by (simp add: exit_with_def)

lemma andDo_run [simp]:
  "p s = Inr (Inr x, s') \<Longrightarrow> andDo p q s = q x s'"
  "p s = Inr (Inl code, s') \<Longrightarrow> andDo p q s = Inr (Inl code, s')"
  by (simp_all add: andDo_def)

section \<open>The kernel under the programs\<close>

text \<open>
  A program makes a system call by its number. \<open>routine_of\<close> is which of the driver's calls the kernel
  enters for a number; what any other routine of the kernel does is the parameter \<open>stray\<close>.
\<close>

datatype routine = PutData | GetData | InvalidateData

record kernel =
  routine_of :: "int \<Rightarrow> routine option"
  stray :: "int \<Rightarrow> bldms \<Rightarrow> int sysret \<times> bldms"
  put_of :: "bldms \<Rightarrow> put_env"
  get_of :: "bldms \<Rightarrow> get_env"
  inv_of :: "bldms \<Rightarrow> nat \<Rightarrow> bool"
  open_of :: "bldms \<Rightarrow> addr option"
  seek_of :: "bldms \<Rightarrow> addr option"
  read_of :: "bldms \<Rightarrow> read_env"

text \<open>The numbers are globals of the programs, which \<open>main\<close> sets from the command line.\<close>

record client = kernel +
  put_data_nr :: int
  get_data_nr :: int
  invalidate_data_nr :: int

definition sys_put :: "client \<Rightarrow> bytes \<Rightarrow> nat sysret prog" where
  "sys_put k source s =
     (if routine_of k (put_data_nr k) = Some PutData then
        andThen (put_data (put_of k s) source s) (\<lambda>(r, s). Inr (Inr r, s))
      else let (r, s) = stray k (put_data_nr k) s in Inr (Inr (map_sum id nat r), s))"

definition sys_get :: "client \<Rightarrow> u32 \<Rightarrow> u64 \<Rightarrow> (u64 \<times> bytes) sysret prog" where
  "sys_get k offset sz s =
     (if routine_of k (get_data_nr k) = Some GetData then
        andThen (get_data (get_of k s) offset sz s) (\<lambda>(r, s). Inr (Inr r, s))
      else let (r, s) = stray k (get_data_nr k) s in Inr (Inr (map_sum id (\<lambda>n. (word_of_int n, [])) r), s))"

definition sys_invalidate :: "client \<Rightarrow> u32 \<Rightarrow> unit sysret prog" where
  "sys_invalidate k offset s =
     (if routine_of k (invalidate_data_nr k) = Some InvalidateData then
        andThen (invalidate_data (inv_of k s) offset s) (\<lambda>(r, s). Inr (Inr r, s))
      else let (r, s) = stray k (invalidate_data_nr k) s in Inr (Inr (map_sum id (\<lambda>_. ()) r), s))"

text \<open>The numbers, read as the C library does: a sign and decimal digits behind white space, cut at the ends of a \<open>long\<close>.\<close>

definition isspace :: "char \<Rightarrow> bool" where
  "isspace c \<longleftrightarrow> c = CHR '' '' \<or> (9 \<le> (of_char c :: nat) \<and> (of_char c :: nat) \<le> 13)"

definition isdigit :: "char \<Rightarrow> bool" where
  "isdigit c \<longleftrightarrow> 48 \<le> (of_char c :: nat) \<and> (of_char c :: nat) \<le> 57"

definition decimal :: "string \<Rightarrow> int" where
  "decimal cs = foldl (\<lambda>n c. n * 10 + (of_char c - 48)) 0 (takeWhile isdigit cs)"

definition atol :: "string \<Rightarrow> int" where
  "atol cs =
     (let cs = dropWhile isspace cs;
          n = (case cs of [] \<Rightarrow> 0 | c # ds \<Rightarrow>
                 if c = CHR ''-'' then - decimal ds else if c = CHR ''+'' then decimal ds else decimal cs)
      in max (- (2 ^ 63)) (min (2 ^ 63 - 1) n))"

definition set_numbers :: "string list \<Rightarrow> client \<Rightarrow> client" where
  "set_numbers argv k =
     k\<lparr>put_data_nr := atol (argv ! 2), get_data_nr := atol (argv ! 3), invalidate_data_nr := atol (argv ! 4)\<rparr>"

definition sys_open :: "client \<Rightarrow> accmode \<Rightarrow> session sysret prog" where
  "sys_open k m s =
     (let (r, f, _, s') = bldms_open (open_of k s) \<lparr>f_mode = m, f_pos = 0, private_data = None\<rparr> 0 s
      in Inr (Inr (map_sum id (\<lambda>_. f) r), s'))"

text \<open>\<open>read\<close> hands the file's position to the driver and stores it back when there is no error.\<close>

definition sys_read :: "client \<Rightarrow> u64 \<Rightarrow> u64 \<Rightarrow> session \<Rightarrow> ((u64 \<times> bytes) sysret \<times> session) prog" where
  "sys_read k file_sz len f s =
     andThen (bldms_read (read_of k s) file_sz len (f_pos f) f s) (\<lambda>((r, out), off, f, s).
     case r of
       Inl e \<Rightarrow> Inr (Inr (Inl e, f), s)
     | Inr n \<Rightarrow> Inr (Inr (Inr (n, out), f\<lparr>f_pos := off\<rparr>), s))"

definition sys_rewind :: "client \<Rightarrow> session \<Rightarrow> session prog" where
  "sys_rewind k f s = andThen (bldms_llseek (seek_of k s) 0 SEEK_SET f s) (\<lambda>(_, f, s). Inr (Inr f, s))"

definition sys_close :: "session \<Rightarrow> unit prog" where
  "sys_close f s = andThen (bldms_release f 1 s) (\<lambda>(r, _, s). Inr (Inr (), s))"

text \<open>
  A kernel in which nothing fails as long as some memory is free: allocations return unused
  addresses, the device can be read, the caller's memory is accessible, and the clock shows a
  time after the epoch.
\<close>

definition reliable :: "client \<Rightarrow> bool" where
  "reliable k \<longleftrightarrow> (\<forall>s. finite (live s) \<longrightarrow>
     put_env_ok (put_of k s) s \<and> put_env_error (put_of k s) = None \<and> (\<forall>i. bread (put_of k s) i) \<and>
     Ktime 0 < now (put_of k s) \<and> (\<forall>i. get_bread (get_of k s) i) \<and> (\<forall>n. uncopied (get_of k s) n = 0) \<and>
     (\<forall>i. inv_of k s i) \<and> (\<exists>a. open_of k s = Some a \<and> a \<notin> live s) \<and>
     (\<exists>a. seek_of k s = Some a \<and> a \<notin> live s) \<and>
     read_env_ok (read_of k s) \<and> (\<exists>a. ts_alloc (read_of k s) = Some a \<and> a \<notin> live s))"

text \<open>The numbers that the program has are those of the driver's calls.\<close>

definition kernel_ok :: "client \<Rightarrow> bool" where
  "kernel_ok k \<longleftrightarrow> reliable k \<and> routine_of k (put_data_nr k) = Some PutData \<and>
     routine_of k (get_data_nr k) = Some GetData \<and> routine_of k (invalidate_data_nr k) = Some InvalidateData"

section \<open>The messages\<close>

definition NUM_MESSAGES :: nat where
  "NUM_MESSAGES = 20"

text \<open>A C string with the byte that ends it: what \<open>strlen(msg) + 1\<close> bytes from \<open>msg\<close> on hold.\<close>

definition cstring :: "string \<Rightarrow> bytes" where
  "cstring str = map of_char str @ [0]"

definition quotes :: "string list" where
  "quotes =
    [''Veni, vidi, vici. ~ J. Caesar'' @ [CHR 0x0A],
     ''The sun is the same in a relative way, but we are older, shorter of breath, one day closer to death'' @ [CHR 0x0A],
     ''I'm holding out for a hero 'til the end of the light;'' @ [CHR 0x0A, CHR 0x09] @ ''he's gonna be strong, he's gonna be fast, he's gonna be fresh from the fire.'' @ [CHR 0x0A, CHR 0x09] @ ''~B. Tyler (I'm Holding Out For A Hero)'' @ [CHR 0x0A],
     ''Nun t preoccup'' @ [CHR 0xC3, CHR 0xA0] @ '' waglio, c' sta o' mar for, c' sta o mar for'...'' @ [CHR 0x0A],
     ''The best way to find out if you can trust somebody is to trust them.'' @ [CHR 0x0A] @ ''~ Ernest Hemingway'' @ [CHR 0x0A],
     ''Success is not final, failure is not fatal: It is the courage to continue that counts.'' @ [CHR 0x0A] @ ''~ Winston Churchill'' @ [CHR 0x0A],
     ''If your actions inspire others to dream more, learn more, do more and become more, you are a leader.'' @ [CHR 0x0A] @ ''~ John Quincy Adams'' @ [CHR 0x0A],
     ''The most important thing is to enjoy your life - to be happy - it's all that matters.'' @ [CHR 0x0A] @ ''~ Steve Jobs'' @ [CHR 0x0A],
     ''Your time is limited, don't waste it living someone else's life.'' @ [CHR 0x0A] @ ''~ Steve Jobs'' @ [CHR 0x0A],
     ''Don't let anyone tell you what you can't do. Follow your dreams and persist.'' @ [CHR 0x0A] @ ''~ Barack Obama'' @ [CHR 0x0A],
     ''You only live once, but if you do it right, once is enough.'' @ [CHR 0x0A] @ ''~ Mae West'' @ [CHR 0x0A],
     ''The road to success is always under construction.'' @ [CHR 0x0A] @ ''~ Lily Tomlin'' @ [CHR 0x0A],
     ''People often say that motivation doesn't last. Well, neither does bathing. That's why we recommend it daily.'' @ [CHR 0x0A] @ ''~ Zig Ziglar'' @ [CHR 0x0A],
     ''If you want to live a happy life, tie it to a goal, not to people or things.'' @ [CHR 0x0A] @ ''~ Albert Einstein'' @ [CHR 0x0A],
     ''I can accept failure, everyone fails at something. But I can't accept not trying.'' @ [CHR 0x0A] @ ''~ Michael Jordan'' @ [CHR 0x0A],
     ''Don't let yesterday take up too much of today.'' @ [CHR 0x0A] @ ''~ Will Rogers'' @ [CHR 0x0A],
     ''A journey of a thousand miles begins with a single step.'' @ [CHR 0x0A] @ ''~ Lao Tzu'' @ [CHR 0x0A],
     ''Believe you can and you're halfway there.'' @ [CHR 0x0A] @ ''~ Theodore Roosevelt'' @ [CHR 0x0A],
     ''I can't change the direction of the wind, but I can adjust my sails to always reach my destination.'' @ [CHR 0x0A] @ ''~ Jimmy Dean'' @ [CHR 0x0A],
     ''The greatest glory in living lies not in never falling, but in rising every time we fall.'' @ [CHR 0x0A] @ ''~ Nelson Mandela'' @ [CHR 0x0A]]"

lemma length_quotes: "length quotes = NUM_MESSAGES"
  by (simp add: quotes_def NUM_MESSAGES_def)

lemma quotes_fit: "list_all (\<lambda>q. length (cstring q) \<le> 4086) quotes"
  by (simp add: quotes_def cstring_def)

lemma quote_fits: "i < NUM_MESSAGES \<Longrightarrow> length (cstring (quotes ! i)) \<le> 4086"
  using quotes_fit by (simp add: list_all_length length_quotes)

section \<open>test.c\<close>

text \<open>A call whose failure ends the program with a given status.\<close>

definition put_or_exit :: "int \<Rightarrow> client \<Rightarrow> bytes \<Rightarrow> nat prog" where
  "put_or_exit code k source =
     andDo (sys_put k source) (\<lambda>r. case r of Inl e \<Rightarrow> exit_with code | Inr t \<Rightarrow> give t)"

definition invalidate_or_exit :: "int \<Rightarrow> client \<Rightarrow> u32 \<Rightarrow> unit prog" where
  "invalidate_or_exit code k offset =
     andDo (sys_invalidate k offset) (\<lambda>r. case r of Inl e \<Rightarrow> exit_with code | Inr u \<Rightarrow> give u)"

text \<open>The value of the \<open>int\<close> that a failing or successful \<open>put_data\<close> returns, next to a \<open>size_t\<close>.\<close>

fun ret_size :: "nat sysret \<Rightarrow> u64" where
  "ret_size (Inl e) = - 1"
| "ret_size (Inr t) = word_of_nat t"

fun int_ret :: "nat sysret \<Rightarrow> u32" where
  "int_ret (Inl e) = - 1"
| "int_ret (Inr t) = word_of_nat t"

definition TEST_MSG_SIZE :: u64 where
  "TEST_MSG_SIZE = 4096 - (8 + 2)"

definition test_buffer :: bytes where
  "test_buffer = replicate 4095 65 @ [0]"

definition test_short :: bytes where
  "test_short = replicate 50 66 @ [0]"

text \<open>The device is emptied,\<close>

definition test_clean_block :: "client \<Rightarrow> nat \<Rightarrow> unit prog" where
  "test_clean_block k i =
     andDo (sys_invalidate k (word_of_nat i)) (\<lambda>r.
       case r of Inl e \<Rightarrow> if e \<noteq> ENODATA then exit_with 1 else give () | Inr _ \<Rightarrow> give ())"

definition test_clean :: "client \<Rightarrow> u64 \<Rightarrow> unit list prog" where
  "test_clean k num_blocks = for_each (test_clean_block k) [0..<unat num_blocks]"

text \<open>filled,\<close>

definition test_fill :: "client \<Rightarrow> u64 \<Rightarrow> nat list prog" where
  "test_fill k num_blocks =
     for_each (\<lambda>i. put_or_exit 1 k (cstring (quotes ! (i mod NUM_MESSAGES)))) [0..<unat num_blocks]"

text \<open>and tried: no room, a message that is too long, the only free block, its message, and its removal.\<close>

definition test_calls :: "client \<Rightarrow> u64 \<Rightarrow> int prog" where
  "test_calls k num_blocks =
     andDo (sys_put k (cstring (quotes ! (10 mod NUM_MESSAGES)))) (\<lambda>r.
     if r \<noteq> Inl ENOMEM then exit_with 1 else
     andDo (invalidate_or_exit 1 k (ucast (num_blocks - 1))) (\<lambda>_.
     andDo (sys_put k test_buffer) (\<lambda>r.
     if r \<noteq> Inl E2BIG then exit_with 1 else
     andDo (sys_put k test_short) (\<lambda>r.
     if ret_size r \<noteq> num_blocks - 1 then exit_with 1 else
     andDo (sys_get k (int_ret r) TEST_MSG_SIZE) (\<lambda>r.
     if map_sum id fst r \<noteq> Inr 51 then exit_with 1 else
     andDo (invalidate_or_exit 1 k (ucast (num_blocks - 1))) (\<lambda>_.
     andDo (sys_get k (ucast (num_blocks - 1)) TEST_MSG_SIZE) (\<lambda>r.
     if \<not> (case r of Inl e \<Rightarrow> e = ENODATA | Inr _ \<Rightarrow> False) then exit_with 1 else give 0)))))))"

text \<open>The path on the command line is taken to be that of the file.\<close>

definition test_main :: "string list \<Rightarrow> client \<Rightarrow> u64 \<Rightarrow> int prog" where
  "test_main argv k st_size =
     (if length argv < 5 then exit_with 1 else
     let k = set_numbers argv k in
     andDo (sys_open k O_RDWR) (\<lambda>fd.
     if isl fd then exit_with 1 else
     let num_blocks = st_size div 4096 in
     andDo (test_clean k num_blocks) (\<lambda>_.
     andDo (test_fill k num_blocks) (\<lambda>_.
     test_calls k num_blocks))))"

section \<open>user.c\<close>

text \<open>
  The program's own \<open>METADATA_SIZE\<close> is that of an older layout, eight, four and one bytes; its
  buffer is three bytes shorter than the longest message.
\<close>

definition USER_MSG_SIZE :: u64 where
  "USER_MSG_SIZE = 4096 - (8 + 4 + 1)"

definition user_calls :: "client \<Rightarrow> unit prog" where
  "user_calls k =
     andDo (for_each (\<lambda>i. put_or_exit (- 1) k (cstring (quotes ! i))) [0..<NUM_MESSAGES]) (\<lambda>block_ids.
     andDo (for_each (\<lambda>i. invalidate_or_exit (- 1) k (word_of_nat (block_ids ! i)))
       (filter even [0..<NUM_MESSAGES])) (\<lambda>_.
     andDo (sys_get k (word_of_nat (block_ids ! 3)) USER_MSG_SIZE) (\<lambda>r.
     if isl r then exit_with (- 1) else
     andDo (sys_get k (word_of_nat (block_ids ! 0)) USER_MSG_SIZE) (\<lambda>r.
     case r of
       Inl e \<Rightarrow> if e = ENODATA then give () else exit_with (- 1)
     | Inr _ \<Rightarrow> exit_with 1))))"

text \<open>
  The loop that reads the file, with the number of reads it may make; \<open>None\<close> when they were
  not enough. The value is what the program prints, read by read.
\<close>

fun user_read :: "nat \<Rightarrow> client \<Rightarrow> u64 \<Rightarrow> session \<Rightarrow> bldms \<Rightarrow> (fault + (int + bytes list \<times> session) \<times> bldms) option" where
  "user_read 0 k file_sz f s = None"
| "user_read (Suc n) k file_sz f s =
     (case sys_read k file_sz USER_MSG_SIZE f s of
        Inl e \<Rightarrow> Some (Inl e)
      | Inr (Inl code, s) \<Rightarrow> Some (Inr (Inl code, s))
      | Inr (Inr (Inl e, f), s) \<Rightarrow> Some (Inr (Inl 1, s))
      | Inr (Inr (Inr (ret, out), f), s) \<Rightarrow>
          if ret = 0 then Some (Inr (Inr ([], f), s))
          else map_option (map_sum id (apfst (map_sum id (apfst ((#) out))))) (user_read n k file_sz f s))"

definition user_main :: "string list \<Rightarrow> nat \<Rightarrow> client \<Rightarrow> u64 \<Rightarrow> bldms \<Rightarrow> (fault + int \<times> bldms) option" where
  "user_main argv n k file_sz s =
     (if length argv < 5 then Some (Inr (1, s)) else
      let k = set_numbers argv k in
      case andDo (user_calls k) (\<lambda>_. sys_open k O_RDONLY) s of
        Inl e \<Rightarrow> Some (Inl e)
      | Inr (Inl code, s) \<Rightarrow> Some (Inr (code, s))
      | Inr (Inr (Inl e), s) \<Rightarrow> Some (Inr (1, s))
      | Inr (Inr (Inr f), s) \<Rightarrow>
          map_option (\<lambda>r. andThen r (\<lambda>(r, s). case r of
              Inl code \<Rightarrow> Inr (code, s)
            | Inr (outs, f) \<Rightarrow> andThen (sys_close f s) (\<lambda>(_, s). Inr (0, s))))
            (user_read n k file_sz f s))"

section \<open>user\_concurrency.c\<close>

definition BLK_SIZE :: u64 where
  "BLK_SIZE = 4096"

definition STRESS_MSG_SIZE :: u64 where
  "STRESS_MSG_SIZE = BLK_SIZE - (8 + 2)"

text \<open>
  The calls a worker makes do not depend on the replies. \<open>param\<close> is the worker's \<open>pthread_self()\<close>,
  \<open>num_blocks\<close> the global that \<open>main\<close> sets before it creates the workers.
\<close>

datatype request = PutReq bytes | GetReq u32 u64 | InvReq u32

datatype worker = Getter u64 | Writer u64 | Invalidator u64

definition getter :: "u64 \<Rightarrow> u64 \<Rightarrow> request list" where
  "getter param num_blocks =
     map (\<lambda>i. GetReq (if param mod 2 \<noteq> 0 then word_of_nat i else ucast (num_blocks - 1 - word_of_nat i)) STRESS_MSG_SIZE)
       [0..<unat num_blocks]"

definition writer :: "u64 \<Rightarrow> u64 \<Rightarrow> request list" where
  "writer param num_blocks =
     map (\<lambda>i. PutReq (cstring (quotes ! unat ((param + word_of_nat i) mod word_of_nat NUM_MESSAGES))))
       [0..<unat (num_blocks div 5)]"

definition invalidator :: "u64 \<Rightarrow> u64 \<Rightarrow> request list" where
  "invalidator param num_blocks =
     map (\<lambda>i. InvReq (ucast ((param + word_of_nat i) mod num_blocks))) [0..<unat (num_blocks div 8)]"

fun requests :: "u64 \<Rightarrow> worker \<Rightarrow> request list" where
  "requests num_blocks (Getter param) = getter param num_blocks"
| "requests num_blocks (Writer param) = writer param num_blocks"
| "requests num_blocks (Invalidator param) = invalidator param num_blocks"

text \<open>The replies that a worker counts in \<open>total_errors\<close>.\<close>

fun unexpected :: "reply \<Rightarrow> bool" where
  "unexpected (Fetched (Inl e)) = (e \<noteq> ENODATA)"
| "unexpected (Stored (Inl e)) = (e \<noteq> ENOMEM)"
| "unexpected (Invalidated (Inl e)) = (e \<noteq> ENODATA)"
| "unexpected _ = False"

text \<open>
  The reader: the inner loop with the number of reads it may make, and the three rounds. The value
  is the number of errors counted, with what was read.
\<close>

fun reader_round :: "nat \<Rightarrow> client \<Rightarrow> u64 \<Rightarrow> session \<Rightarrow> bldms \<Rightarrow> (fault + (nat \<times> bytes list \<times> session) \<times> bldms) option" where
  "reader_round 0 k file_sz f s = None"
| "reader_round (Suc m) k file_sz f s =
     (case sys_read k file_sz STRESS_MSG_SIZE f s of
        Inl e \<Rightarrow> Some (Inl e)
      | Inr (Inl code, s) \<Rightarrow> Some (Inr ((0, [], f), s))
      | Inr (Inr (Inl e, f), s) \<Rightarrow> map_option (map_sum id (apfst (apfst Suc))) (reader_round m k file_sz f s)
      | Inr (Inr (Inr (ret, out), f), s) \<Rightarrow>
          if ret = 0 then Some (Inr ((0, [], f), s))
          else map_option (map_sum id (apfst (apsnd (apfst ((#) out))))) (reader_round m k file_sz f s))"

fun reader_rounds :: "nat \<Rightarrow> nat \<Rightarrow> client \<Rightarrow> u64 \<Rightarrow> session \<Rightarrow> bldms \<Rightarrow> (fault + (nat \<times> bytes list \<times> session) \<times> bldms) option" where
  "reader_rounds m 0 k file_sz f s = Some (Inr ((0, [], f), s))"
| "reader_rounds m (Suc i) k file_sz f s =
     (case reader_round m k file_sz f s of
        None \<Rightarrow> None
      | Some (Inl e) \<Rightarrow> Some (Inl e)
      | Some (Inr ((errs, outs, f), s)) \<Rightarrow>
          (case sys_rewind k f s of
             Inl e \<Rightarrow> Some (Inl e)
           | Inr (Inl code, s) \<Rightarrow> Some (Inr ((errs, outs, f), s))
           | Inr (Inr f, s) \<Rightarrow>
               map_option (map_sum id (apfst (\<lambda>(errs', outs', f). (errs + errs', outs @ outs', f))))
                 (reader_rounds m i k file_sz f s)))"

definition num_loops :: nat where
  "num_loops = 3"

definition reader :: "nat \<Rightarrow> client \<Rightarrow> u64 \<Rightarrow> bldms \<Rightarrow> (fault + (nat \<times> bytes list) \<times> bldms) option" where
  "reader m k file_sz s =
     (case sys_open k O_RDONLY s of
        Inl e \<Rightarrow> Some (Inl e)
      | Inr (Inl code, s) \<Rightarrow> Some (Inr ((0, []), s))
      | Inr (Inr (Inl e), s) \<Rightarrow> Some (Inr ((1, []), s))
      | Inr (Inr (Inr f), s) \<Rightarrow>
          map_option (\<lambda>r. andThen r (\<lambda>((errs, outs, f), s).
              andThen (sys_close f s) (\<lambda>(_, s). Inr ((errs, outs), s))))
            (reader_rounds m num_loops k file_sz f s))"

end
