(* ===== verification/User_Correct.thy ===== *)
theory User_Correct
  imports User_Programs
begin

text \<open>
  The client programs on a mounted device: what each of their calls does in terms of the messages
  on the device, and from there that the test program passes and that the demonstration runs to
  its end.
\<close>

section \<open>Single calls\<close>

definition alive :: "nat \<Rightarrow> bldms \<Rightarrow> bool" where
  "alive n s \<longleftrightarrow> driver_ok s \<and> finite (live s) \<and> md_array_size s = n"

definition free_slots :: "bldms \<Rightarrow> nat set" where
  "free_slots s = {i. i < md_array_size s \<and> messages s i = None}"

definition stamped :: "bldms \<Rightarrow> bool" where
  "stamped s \<longleftrightarrow> (\<forall>i t m. messages s i = Some (t, m) \<longrightarrow> Ktime 0 < t)"

lemma kernel_okD:
  assumes "kernel_ok k" "alive n s"
  shows "put_env_ok (put_of k s) s" "put_env_error (put_of k s) = None" "bread (put_of k s) i"
    "Ktime 0 < now (put_of k s)" "get_bread (get_of k s) i" "uncopied (get_of k s) m = 0" "inv_of k s i"
    "\<exists>a. open_of k s = Some a \<and> a \<notin> live s" "read_env_ok (read_of k s)"
    "\<exists>a. ts_alloc (read_of k s) = Some a \<and> a \<notin> live s" "\<exists>a. seek_of k s = Some a \<and> a \<notin> live s"
  using assms by (simp_all add: kernel_ok_def reliable_def alive_def)

lemma kernel_numbers:
  assumes "kernel_ok k"
  shows "routine_of k (put_data_nr k) = Some PutData" "routine_of k (get_data_nr k) = Some GetData"
    "routine_of k (invalidate_data_nr k) = Some InvalidateData"
  using assms by (simp_all add: kernel_ok_def)

lemma alive_call:
  assumes "alive n s" "call_ok c s" "do_call c s = Inr (r, s')" "driver_ok s'" "store_of s' = (store_of s)\<lparr>cursor := i, content := m\<rparr>"
  shows "alive n s'"
proof -
  have ok: "driver_ok s" and fin: "finite (live s)" using assms(1) by (simp_all add: alive_def)
  have "foreign s' = foreign s" by (rule do_call_foreign [OF ok assms(2,3)])
  then have "live s' \<subseteq> live s \<union> set (owned s')" by (auto simp: foreign_def)
  then have "finite (live s')" using fin by (simp add: finite_subset)
  moreover have "md_array_size s' = md_array_size s" using arg_cong [OF assms(5), of capacity] by simp
  ultimately show ?thesis using assms(1,4) by (simp add: alive_def)
qed

lemma first_free_Some:
  assumes "free_slots s \<noteq> {}"
  obtains t where "first_free (store_of s) = Some t" "t \<in> free_slots s"
proof (cases "first_free (store_of s)")
  case None
  then show thesis using assms by (auto simp: first_free_def find_None_iff free_slots_def)
next
  case (Some t)
  then have "t \<in> free_slots s"
    using find_Some_mem [of "\<lambda>i. messages s i = None"] by (fastforce simp: first_free_def free_slots_def)
  with Some show thesis by (rule that)
qed

lemma put_outcome:
  assumes k: "kernel_ok k" and s: "alive n s"
  obtains r s' where "sys_put k source s = Inr (Inr r, s')" "driver_ok s'"
    "spec_put (put_of k s) source (store_of s) = (r, store_of s')" "do_call (Put (put_of k s) source) s = Inr (Stored r, s')"
proof -
  have "call_ok (Put (put_of k s) source) s" using kernel_okD [OF k s] by simp
  from put_sim [OF _ this] s obtain r s' where "put_data (put_of k s) source s = Inr (r, s')" "driver_ok s'"
    "spec_put (put_of k s) source (store_of s) = (r, store_of s')" by (auto simp: alive_def)
  then show thesis by (intro that [of r s']) (simp_all add: sys_put_def kernel_numbers [OF k])
qed

lemma sys_put_stores:
  assumes k: "kernel_ok k" and s: "alive n s" and len: "length source \<le> 4086" and free: "free_slots s \<noteq> {}"
  obtains t ts s' where "sys_put k source s = Inr (Inr (Inr t), s')" "alive n s'" "t \<in> free_slots s"
    "Ktime 0 < ts" "messages s' = (messages s)(t \<mapsto> (ts, source))"
proof -
  note kd = kernel_okD [OF k s]
  obtain t where t: "first_free (store_of s) = Some t" "t \<in> free_slots s" by (rule first_free_Some [OF free])
  obtain r s' where r: "sys_put k source s = Inr (Inr r, s')" "driver_ok s'"
    "spec_put (put_of k s) source (store_of s) = (r, store_of s')" "do_call (Put (put_of k s) source) s = Inr (Stored r, s')"
    by (rule put_outcome [OF k s])
  from r(3) have e: "r = Inr t"
    "store_of s' = (store_of s)\<lparr>cursor := t, content := (messages s)(t \<mapsto> (now (put_of k s), source))\<rparr>"
    using len t(1) kd(2) by (simp_all add: spec_put_def)
  show thesis
  proof (rule that)
    show "alive n s'" by (rule alive_call [OF s _ r(4,2) e(2)]) (use kd in simp)
    show "messages s' = (messages s)(t \<mapsto> (now (put_of k s), source))" using arg_cong [OF e(2), of content] by simp
  qed (use r e t kd in simp_all)
qed

lemma store_same:
  assumes "store_of s' = store_of s"
  shows "messages s' = messages s" "store_of s' = (store_of s)\<lparr>cursor := cursor (store_of s), content := messages s\<rparr>"
  using arg_cong [OF assms, of content] assms by (simp_all add: store_of_def)

lemma sys_put_fails:
  assumes k: "kernel_ok k" and s: "alive n s" and "length source \<le> 4086 \<Longrightarrow> free_slots s = {}"
  obtains s' where "sys_put k source s = Inr (Inr (Inl (if length source \<le> 4086 then ENOMEM else E2BIG)), s')"
    "alive n s'" "messages s' = messages s"
proof -
  note kd = kernel_okD [OF k s]
  obtain r s' where r: "sys_put k source s = Inr (Inr r, s')" "driver_ok s'"
    "spec_put (put_of k s) source (store_of s) = (r, store_of s')" "do_call (Put (put_of k s) source) s = Inr (Stored r, s')"
    by (rule put_outcome [OF k s])
  have "first_free (store_of s) = None" if "length source \<le> 4086"
    using assms(3) [OF that] by (auto simp: first_free_def find_None_iff free_slots_def)
  then have e: "r = Inl (if length source \<le> 4086 then ENOMEM else E2BIG)" "store_of s' = store_of s"
    using r(3) kd(2) by (auto simp: spec_put_def split: if_splits)
  show thesis
  proof (rule that)
    show "alive n s'" by (rule alive_call [OF s _ r(4,2) store_same(2) [OF e(2)]]) (use kd in simp)
  qed (use r(1) e(1) store_same(1) [OF e(2)] in simp_all)
qed

lemma slot_offset:
  assumes "alive n s" "i < n"
  shows "\<not> (sint (word_of_nat i :: u32) < 0 \<or> int n \<le> sint (word_of_nat i :: u32))" "unat (word_of_nat i :: u32) = i"
    "i < 1000"
proof -
  show u: "unat (word_of_nat i :: u32) = i" and "i < 1000" using assms offset_in_range [of s i] by (auto simp: alive_def)
  then have "sint (word_of_nat i :: u32) = int i" by (simp add: sint_u32 uint_nat)
  then show "\<not> (sint (word_of_nat i :: u32) < 0 \<or> int n \<le> sint (word_of_nat i :: u32))" using assms(2) by simp
qed

lemma sys_invalidate_slot:
  assumes k: "kernel_ok k" and s: "alive n s" and i: "i < n"
  obtains s' where "sys_invalidate k (word_of_nat i) s = Inr (Inr (if messages s i = None then Inl ENODATA else Inr ()), s')"
    "alive n s'" "messages s' = (messages s)(i := None)"
proof -
  obtain r s' where r: "invalidate_data (inv_of k s) (word_of_nat i) s = Inr (r, s')" "driver_ok s'"
    "spec_invalidate (inv_of k s) (word_of_nat i) (store_of s) = (r, store_of s')"
    using invalidate_sim [of s] s by (metis alive_def)
  have n: "md_array_size s = n" using s by (simp add: alive_def)
  have e: "r = (if messages s i = None then Inl ENODATA else Inr ())"
    "store_of s' = (store_of s)\<lparr>content := (messages s)(i := None)\<rparr>"
    using r(3) slot_offset [OF s i] kernel_okD(7) [OF k s]
    by (auto simp: spec_invalidate_def n store_of_def fun_upd_idem split: option.splits)
  show thesis
  proof (rule that)
    show "alive n s'"
      by (rule alive_call [OF s, where c = "Invalidate (inv_of k s) (word_of_nat i)" and r = "Invalidated r" and
            i = "cursor (store_of s)" and m = "(messages s)(i := None)"]) (use r e(2) in \<open>simp_all add: store_of_def\<close>)
    show "messages s' = (messages s)(i := None)" using arg_cong [OF e(2), of content] by simp
  qed (use r(1) e(1) in \<open>simp add: sys_invalidate_def kernel_numbers [OF k]\<close>)
qed

lemma sys_get_slot:
  assumes k: "kernel_ok k" and s: "alive n s" and i: "i < n" and sz: "unat sz < 5000"
  shows "sys_get k (word_of_nat i) sz s = Inr (Inr (case messages s i of
      None \<Rightarrow> Inl ENODATA
    | Some (t, m) \<Rightarrow> Inr (word_of_nat (min (unat sz) (length m)), take (min (unat sz) (length m)) m)), s)"
proof -
  have n: "md_array_size s = n" and ok: "driver_ok s" using s by (simp_all add: alive_def)
  have "call_ok (Get (get_of k s) (word_of_nat i) sz) s" using kernel_okD [OF k s] by simp
  from get_sim [OF ok this] slot_offset [OF s i] kernel_okD [OF k s] show ?thesis
    by (auto simp: sys_get_def kernel_numbers [OF k] spec_get_def n Let_def split: option.splits)
qed

section \<open>Loops of calls\<close>

lemma free_slots_put:
  assumes "messages s' = (messages s)(t \<mapsto> m)" "md_array_size s' = md_array_size s"
  shows "free_slots s' = free_slots s - {t}"
  using assms by (auto simp: free_slots_def)

lemma finite_free_slots [simp]: "finite (free_slots s)"
  by (simp add: free_slots_def)

lemma put_all:
  assumes k: "kernel_ok k"
  shows "alive n s \<Longrightarrow> stamped s \<Longrightarrow> \<forall>x \<in> set xs. length (g x) \<le> 4086 \<Longrightarrow> length xs \<le> card (free_slots s) \<Longrightarrow>
    \<exists>ts s'. for_each (\<lambda>x. put_or_exit code k (g x)) xs s = Inr (Inr ts, s') \<and> alive n s' \<and> stamped s' \<and>
      distinct ts \<and> set ts \<subseteq> free_slots s \<and> free_slots s' = free_slots s - set ts \<and>
      list_all2 (\<lambda>t x. \<exists>ts. messages s' t = Some (ts, g x)) ts xs \<and> (\<forall>i. i \<notin> set ts \<longrightarrow> messages s' i = messages s i)"
proof (induction xs arbitrary: s)
  case (Cons x xs)
  then have "free_slots s \<noteq> {}" "length (g x) \<le> 4086" by auto
  then obtain t ts s1 where t: "sys_put k (g x) s = Inr (Inr (Inr t), s1)" "alive n s1" "t \<in> free_slots s"
    "Ktime 0 < ts" "messages s1 = (messages s)(t \<mapsto> (ts, g x))"
    using sys_put_stores [OF k Cons.prems(1)] by metis
  have f: "free_slots s1 = free_slots s - {t}"
    using free_slots_put [OF t(5)] t(2) Cons.prems(1) by (simp add: alive_def)
  have "stamped s1" using Cons.prems(2) t(4,5) by (auto simp: stamped_def)
  moreover have "length xs \<le> card (free_slots s1)" using Cons.prems(4) t(3) by (simp add: f)
  ultimately obtain us s' where u: "for_each (\<lambda>x. put_or_exit code k (g x)) xs s1 = Inr (Inr us, s')" "alive n s'" "stamped s'"
    "distinct us" "set us \<subseteq> free_slots s1" "free_slots s' = free_slots s1 - set us"
    "list_all2 (\<lambda>t x. \<exists>ts. messages s' t = Some (ts, g x)) us xs" "\<forall>i. i \<notin> set us \<longrightarrow> messages s' i = messages s1 i"
    using Cons.IH [OF t(2)] Cons.prems(3) by auto
  have "put_or_exit code k (g x) s = Inr (Inr t, s1)" using t(1) by (simp add: put_or_exit_def)
  then have "for_each (\<lambda>x. put_or_exit code k (g x)) (x # xs) s = Inr (Inr (t # us), s')" using u(1) by simp
  moreover have "t \<notin> set us" using u(5) f by auto
  moreover from this have "messages s' t = Some (ts, g x)" using u(8) t(5) by simp
  ultimately show ?case
    using u t(3,5) f by (intro exI [of _ "t # us"] exI [of _ s']) auto
qed (simp add: alive_def)

lemma clean_all:
  assumes k: "kernel_ok k"
  shows "alive n s \<Longrightarrow> set is \<subseteq> {..<n} \<Longrightarrow>
    \<exists>us s'. for_each (test_clean_block k) is s = Inr (Inr us, s') \<and> alive n s' \<and> messages s' = messages s |` (- set is)"
proof (induction "is" arbitrary: s)
  case (Cons i "is")
  then have "i < n" by simp
  then obtain s1 where i: "sys_invalidate k (word_of_nat i) s = Inr (Inr (if messages s i = None then Inl ENODATA else Inr ()), s1)"
    "alive n s1" "messages s1 = (messages s)(i := None)"
    by (rule sys_invalidate_slot [OF k Cons.prems(1)])
  obtain us s' where u: "for_each (test_clean_block k) is s1 = Inr (Inr us, s')"
    "alive n s'" "messages s' = messages s1 |` (- set is)"
    using Cons.IH [OF i(2)] Cons.prems(2) by auto
  have "messages s' = messages s |` (- set (i # is))"
    unfolding u(3) i(3) by (auto simp: restrict_map_def fun_eq_iff)
  moreover have "test_clean_block k i s = Inr (Inr (), s1)"
    using i(1) by (cases "messages s i = None") (simp_all add: test_clean_block_def)
  ultimately show ?case using u by simp
qed (simp add: restrict_map_def)

lemma invalidate_present:
  assumes k: "kernel_ok k" and s: "alive n s" and t: "t < n" "messages s t \<noteq> None"
  obtains s' where "invalidate_or_exit code k (word_of_nat t) s = Inr (Inr (), s')" "alive n s'"
    "messages s' = (messages s)(t := None)"
proof -
  obtain s' where i: "sys_invalidate k (word_of_nat t) s = Inr (Inr (if messages s t = None then Inl ENODATA else Inr ()), s')"
    "alive n s'" "messages s' = (messages s)(t := None)"
    by (rule sys_invalidate_slot [OF k s t(1)])
  have "invalidate_or_exit code k (word_of_nat t) s = Inr (Inr (), s')"
    using i(1) t(2) by (simp add: invalidate_or_exit_def)
  then show thesis using i(2,3) by (rule that)
qed

lemma invalidate_all:
  assumes k: "kernel_ok k"
  shows "alive n s \<Longrightarrow> distinct ts \<Longrightarrow> \<forall>t \<in> set ts. t < n \<and> messages s t \<noteq> None \<Longrightarrow>
    \<exists>us s'. for_each (\<lambda>t. invalidate_or_exit code k (word_of_nat t)) ts s = Inr (Inr us, s') \<and>
      alive n s' \<and> messages s' = messages s |` (- set ts)"
proof (induction ts arbitrary: s)
  case (Cons t ts)
  then have "t < n" "messages s t \<noteq> None" by simp_all
  then obtain s1 where i: "invalidate_or_exit code k (word_of_nat t) s = Inr (Inr (), s1)" "alive n s1"
    "messages s1 = (messages s)(t := None)"
    by (rule invalidate_present [OF k Cons.prems(1)])
  have "\<forall>x \<in> set ts. x < n \<and> messages s1 x \<noteq> None" using Cons.prems i(3) by auto
  then obtain us s' where u: "for_each (\<lambda>t. invalidate_or_exit code k (word_of_nat t)) ts s1 = Inr (Inr us, s')"
    "alive n s'" "messages s' = messages s1 |` (- set ts)"
    using Cons.IH [OF i(2)] Cons.prems(2) by auto
  have "messages s' = messages s |` (- set (t # ts))"
    unfolding u(3) i(3) by (auto simp: restrict_map_def fun_eq_iff)
  with u i(1) show ?case by simp
qed (simp add: restrict_map_def)

lemma for_each_map: "for_each (\<lambda>i. body (f i)) xs = for_each body (map f xs)"
  by (induction xs) simp_all

section \<open>test.c\<close>

lemma sys_open_session:
  assumes k: "kernel_ok k" and s: "alive n s" and m: "m = O_RDONLY \<or> m = O_RDWR"
  obtains a s' where "sys_open k m s = Inr (Inr (Inr \<lparr>f_mode = m, f_pos = 0, private_data = Some (a, Ktime 0)\<rparr>), s')"
    "s' = s\<lparr>live := insert a (live s)\<rparr>" "alive n s'" "messages s' = messages s" "a \<notin> set (owned s')"
proof -
  obtain a where a: "open_of k s = Some a" "a \<notin> live s" using kernel_okD(8) [OF k s] by blast
  have ok: "driver_ok s" "bldms_mounted s" "set (owned s) \<subseteq> live s"
    using s by (auto simp: alive_def driver_ok_def shape_ok_def mem_ok_def)
  then have sub: "set (owned s) \<subseteq> insert a (live s)" by auto
  note fr = live_frame [OF ok(1) sub]
  show thesis
  proof (rule that)
    show "sys_open k m s = Inr (Inr (Inr \<lparr>f_mode = m, f_pos = 0, private_data = Some (a, Ktime 0)\<rparr>), s\<lparr>live := insert a (live s)\<rparr>)"
      using m ok(2) a(1) by (auto simp: sys_open_def bldms_open_def readable_def kzalloc_def)
  qed (use fr s a ok in \<open>auto simp: alive_def\<close>)
qed

lemma num_blocks_word:
  assumes "alive n s" "0 < n"
  shows "file_bytes s div 4096 = word_of_nat n" "unat (word_of_nat n :: u64) = n"
    "(word_of_nat n - 1 :: u64) = word_of_nat (n - 1)" "ucast (word_of_nat n - 1 :: u64) = (word_of_nat (n - 1) :: u32)"
proof -
  have n: "n \<le> 1000" "md_array_size s = n" using assms by (simp_all add: alive_def driver_ok_def shape_ok_def layout_consts)
  then show u: "unat (word_of_nat n :: u64) = n" by simp
  have "unat (file_bytes s div 4096) = n" using n by (simp add: unat_div file_bytes_def del: of_nat_mult)
  then show "file_bytes s div 4096 = word_of_nat n" using u by (metis unat_eqD)
  show m: "(word_of_nat n - 1 :: u64) = word_of_nat (n - 1)" using assms(2) by (simp add: of_nat_diff)
  have "unat (ucast (word_of_nat (n - 1) :: u64) :: u32) = unat (word_of_nat (n - 1) :: u32)"
    using n by (subst unat_ucast_64_32) simp_all
  then show "ucast (word_of_nat n - 1 :: u64) = (word_of_nat (n - 1) :: u32)" unfolding m by (rule unat_eqD)
qed

lemma test_calls_pass:
  assumes k: "kernel_ok k" and s: "alive n s" and full: "free_slots s = {}" and n: "0 < n"
  shows "\<exists>s'. test_calls k (word_of_nat n) s = Inr (Inr 0, s') \<and> alive n s' \<and> messages s' = (messages s)(n - 1 := None)"
proof -
  let ?q = "cstring (quotes ! (10 mod NUM_MESSAGES))" and ?b = "test_buffer" and ?l = "n - 1"
  note w = num_blocks_word [OF s n]
  have ql: "length ?q \<le> 4086" by (rule quote_fits) (simp add: NUM_MESSAGES_def)
  have l: "?l < n" "md_array_size s = n" using n s by (simp_all add: alive_def)
  obtain s1 where s1: "sys_put k ?q s = Inr (Inr (Inl ENOMEM), s1)" "alive n s1" "messages s1 = messages s"
    using sys_put_fails [OF k s, of ?q] full ql by auto
  have "messages s1 ?l \<noteq> None" using full l s1(3) by (auto simp: free_slots_def)
  then obtain s2 where s2: "invalidate_or_exit 1 k (word_of_nat ?l) s1 = Inr (Inr (), s2)" "alive n s2"
    "messages s2 = (messages s1)(?l := None)"
    by (rule invalidate_present [OF k s1(2) l(1)])
  obtain s3 where s3: "sys_put k ?b s2 = Inr (Inr (Inl E2BIG), s3)" "alive n s3" "messages s3 = messages s2"
    using sys_put_fails [OF k s2(2), of ?b] by (auto simp: test_buffer_def)
  have free3: "free_slots s3 = {?l}"
    using full l s1(2,3) s2(3) s3(2,3) by (auto simp: free_slots_def alive_def)
  then have "free_slots s3 \<noteq> {}" "length test_short \<le> 4086" by (simp_all add: test_short_def)
  then obtain t ts s4 where s4: "sys_put k test_short s3 = Inr (Inr (Inr t), s4)" "alive n s4" "t \<in> free_slots s3"
    "messages s4 = (messages s3)(t \<mapsto> (ts, test_short))"
    using sys_put_stores [OF k s3(2)] by metis
  have t: "t = ?l" using s4(3) free3 by simp
  have sz: "unat TEST_MSG_SIZE = 4086" by (simp add: TEST_MSG_SIZE_def)
  have g4: "sys_get k (word_of_nat ?l) TEST_MSG_SIZE s4 = Inr (Inr (Inr (51, test_short)), s4)"
    using sys_get_slot [OF k s4(2) l(1), of TEST_MSG_SIZE] sz s4(4) t by (simp add: test_short_def)
  have "messages s4 ?l \<noteq> None" using s4(4) t by simp
  then obtain s5 where s5: "invalidate_or_exit 1 k (word_of_nat ?l) s4 = Inr (Inr (), s5)" "alive n s5"
    "messages s5 = (messages s4)(?l := None)"
    by (rule invalidate_present [OF k s4(2) l(1)])
  have g5: "sys_get k (word_of_nat ?l) TEST_MSG_SIZE s5 = Inr (Inr (Inl ENODATA), s5)"
    using sys_get_slot [OF k s5(2) l(1), of TEST_MSG_SIZE] sz s5(3) by simp
  have "test_calls k (word_of_nat n) s = Inr (Inr 0, s5)"
    unfolding test_calls_def w(4) using s1(1) s2(1) s3(1) s4(1) g4 s5(1) g5 t w(3) by simp
  moreover have "messages s5 = (messages s)(?l := None)" using s1 s2 s3 s4 s5 t by simp
  ultimately show ?thesis using s5(2) by blast
qed

lemma messages_range: "alive n s \<Longrightarrow> n \<le> i \<Longrightarrow> messages s i = None"
  by (simp add: messages_def alive_def driver_ok_def shape_ok_def)

lemma test_main_passes:
  assumes k: "kernel_ok k" and s: "alive n s" and n: "0 < n"
    and argv: "5 \<le> length argv" "set_numbers argv k0 = k"
  shows "\<exists>s'. test_main argv k0 (file_bytes s) s = Inr (Inr 0, s') \<and> alive n s' \<and> dom (messages s') = {..<n - 1}"
proof -
  note w = num_blocks_word [OF s n]
  obtain a s0 where s0: "sys_open k O_RDWR s = Inr (Inr (Inr \<lparr>f_mode = O_RDWR, f_pos = 0, private_data = Some (a, Ktime 0)\<rparr>), s0)"
    "alive n s0" by (rule sys_open_session [OF k s, of O_RDWR]) simp
  obtain us s1 where s1: "test_clean k (word_of_nat n) s0 = Inr (Inr us, s1)" "alive n s1"
    "messages s1 = messages s0 |` (- {..<n})"
    using clean_all [OF k s0(2), of "[0..<n]"] by (auto simp: test_clean_def w(2) atLeast0LessThan)
  have e1: "messages s1 = Map.empty"
    using messages_range [OF s0(2)] by (auto simp: s1(3) restrict_map_def fun_eq_iff)
  then have f1: "free_slots s1 = {..<n}" "stamped s1" using s1(2) by (auto simp: free_slots_def stamped_def alive_def)
  have "\<forall>i \<in> set [0..<n]. length (cstring (quotes ! (i mod NUM_MESSAGES))) \<le> 4086"
    using quote_fits by (simp add: NUM_MESSAGES_def)
  from put_all [OF k s1(2) f1(2) this, of 1] obtain ts s2 where
    s2: "test_fill k (word_of_nat n) s1 = Inr (Inr ts, s2)" "alive n s2" "distinct ts" "set ts \<subseteq> free_slots s1"
    "free_slots s2 = free_slots s1 - set ts" "length ts = n"
    by (auto simp: test_fill_def w(2) f1(1) dest: list_all2_lengthD)
  have "set ts = {..<n}" using s2(3,4,6) f1(1) by (intro card_subset_eq) (simp_all add: distinct_card)
  then have full: "free_slots s2 = {}" using s2(5) f1(1) by simp
  from test_calls_pass [OF k s2(2) full n] obtain s3 where
    s3: "test_calls k (word_of_nat n) s2 = Inr (Inr 0, s3)" "alive n s3" "messages s3 = (messages s2)(n - 1 := None)" by blast
  have "dom (messages s2) = {..<n}"
    using full messages_range [OF s2(2)] s2(2) by (auto simp: free_slots_def alive_def intro: ccontr)
  then have "dom (messages s3) = {..<n - 1}" using n by (auto simp: s3(3))
  moreover have "test_main argv k0 (file_bytes s) s = Inr (Inr 0, s3)"
    using s0(1) s1(1) s2(1) s3(1) argv by (simp add: test_main_def w(1) Let_def)
  ultimately show ?thesis using s3(2) by blast
qed

section \<open>Reading to the end of the file\<close>

text \<open>An open session on the device, and reads that come to the end of the file.\<close>

definition session_ok :: "nat \<Rightarrow> (nat \<rightharpoonup> ktime \<times> bytes) \<Rightarrow> session \<Rightarrow> bldms \<Rightarrow> bool" where
  "session_ok n M f s \<longleftrightarrow> alive n s \<and> messages s = M \<and> readable f \<and>
     (case private_data f of None \<Rightarrow> False | Some (a, t) \<Rightarrow> a \<in> live s \<and> a \<notin> set (owned s))"

inductive reads_to_end :: "client \<Rightarrow> u64 \<Rightarrow> u64 \<Rightarrow> nat \<Rightarrow> session \<Rightarrow> bldms \<Rightarrow> bytes list \<Rightarrow> session \<Rightarrow> bldms \<Rightarrow> bool" for k F len where
  last_read: "sys_read k F len f s = Inr (Inr (Inr (0, out), f'), s') \<Longrightarrow> reads_to_end k F len (Suc m) f s [] f' s'"
| more_reads: "sys_read k F len f s = Inr (Inr (Inr (ret, out), f1), s1) \<Longrightarrow> ret \<noteq> 0 \<Longrightarrow> reads_to_end k F len m f1 s1 outs f' s' \<Longrightarrow>
    reads_to_end k F len (Suc m) f s (out # outs) f' s'"

definition drains :: "u64 \<Rightarrow> nat \<Rightarrow> (nat \<rightharpoonup> ktime \<times> bytes) \<Rightarrow> client \<Rightarrow> nat \<Rightarrow> session \<Rightarrow> bldms \<Rightarrow> bool" where
  "drains len n M k m f s \<longleftrightarrow> (\<exists>outs f' s'. reads_to_end k (word_of_nat (n * 4096)) len m f s outs f' s' \<and> session_ok n M f' s')"

lemma drains_stop:
  assumes "bldms_read (read_of k s) (word_of_nat (n * 4096)) len (f_pos f) f s = Inr ((Inr 0, out), off, f', s')"
    and "session_ok n M f' s'"
  shows "drains len n M k (Suc m) f s"
proof -
  have "sys_read k (word_of_nat (n * 4096)) len f s = Inr (Inr (Inr (0, out), f'\<lparr>f_pos := off\<rparr>), s')"
    using assms(1) by (simp add: sys_read_def del: of_nat_mult)
  moreover have "session_ok n M (f'\<lparr>f_pos := off\<rparr>) s'" using assms(2) by (simp add: session_ok_def readable_def)
  ultimately show ?thesis unfolding drains_def using last_read by blast
qed

lemma drains_step:
  assumes r: "bldms_read (read_of k s) (word_of_nat (n * 4096)) len (f_pos f) f s =
      Inr ((Inr (word_of_nat j), out), off, f', s')" and j: "0 < j" "j \<le> 4096"
    and d: "drains len n M k m (f'\<lparr>f_pos := off\<rparr>) s'"
  shows "drains len n M k (Suc m) f s"
proof -
  have "unat (word_of_nat j :: u64) = j" using j by simp
  then have nz: "(word_of_nat j :: u64) \<noteq> 0" using j(1) by (metis unat_0 less_irrefl)
  have "sys_read k (word_of_nat (n * 4096)) len f s = Inr (Inr (Inr (word_of_nat j, out), f'\<lparr>f_pos := off\<rparr>), s')"
    using r by (simp add: sys_read_def del: of_nat_mult)
  with nz d more_reads show ?thesis unfolding drains_def by blast
qed

lemma reads_mono: "reads_to_end k F len m f s outs f' s' \<Longrightarrow> reads_to_end k F len (m + i) f s outs f' s'"
  by (induction rule: reads_to_end.induct) (auto intro: reads_to_end.intros)

lemma drains_mono: "drains len n M k m f s \<Longrightarrow> m \<le> m' \<Longrightarrow> drains len n M k m' f s"
  unfolding drains_def using reads_mono by (metis le_add_diff_inverse)

lemma read_past_end:
  assumes "i + 2 \<ge> n" "i < 1000" "p < 4086" "n \<le> 1000"
  shows "bldms_read env (word_of_nat (n * 4096)) len (file_pos i p) f s = Inr ((Inr 0, []), file_pos i p, f, s)"
proof -
  have sum: "file_pos i p + 8192 = (word_of_nat (i * 4096 + 10 + p + 8192) :: u64)" by (simp add: file_pos_def)
  have "(word_of_nat (n * 4096) :: u64) \<le> file_pos i p + 8192"
    unfolding sum using assms by (subst u64_order) simp_all
  then show ?thesis by (simp add: bldms_read_def read_clamp_def)
qed

text \<open>The result of a read at byte \<open>p\<close> of the message of an element, wherever the position was.\<close>

definition read_at :: "u64 \<Rightarrow> nat \<Rightarrow> client \<Rightarrow> rcu_elem \<Rightarrow> rcu_elem list \<Rightarrow> bytes \<Rightarrow> nat \<Rightarrow> session \<Rightarrow> bldms \<Rightarrow> bool" where
  "read_at len n k el rest msg p f s \<longleftrightarrow>
     bldms_read (read_of k s) (word_of_nat (n * 4096)) len (f_pos f) f s =
      (let j = min (unat len) (length msg - p) in
       if p + j < length msg then Inr ((Inr (word_of_nat j), take j (drop p msg)), file_pos (unat (ndx el)) (p + j), f, s)
       else read_next (read_of k s) (word_of_nat (n * 4096)) rest (Inr (word_of_nat j), take j (drop p msg)) f s)"

definition buffer_ok :: "u64 \<Rightarrow> bool" where
  "buffer_ok len \<longleftrightarrow> 0 < unat len \<and> unat len \<le> 4096"

lemma user_msg_size: "unat USER_MSG_SIZE = 4083" "buffer_ok USER_MSG_SIZE" "buffer_ok STRESS_MSG_SIZE"
  by (simp_all add: USER_MSG_SIZE_def STRESS_MSG_SIZE_def BLK_SIZE_def buffer_ok_def)

lemma drains_end:
  assumes "session_ok n M f s" "f_pos f = word_of_nat (n * 4096)"
  shows "drains len n M k (Suc m) f s"
proof -
  have "n \<le> 1000" using assms(1) by (simp add: session_ok_def alive_def driver_ok_def shape_ok_def layout_consts)
  then show ?thesis
    using read_at_end [of "n * 4096"] assms by (intro drains_stop) (simp_all del: of_nat_mult)
qed

text \<open>
  The session stands at byte \<open>p\<close> of the message of \<open>el\<close>; its timestamp is not before those of the
  elements in front of \<open>el\<close>.
\<close>

definition stands :: "nat \<Rightarrow> (nat \<rightharpoonup> ktime \<times> bytes) \<Rightarrow> rcu_elem list \<Rightarrow> rcu_elem \<Rightarrow> rcu_elem list \<Rightarrow> nat \<Rightarrow> session \<Rightarrow> bldms \<Rightarrow> bool" where
  "stands n M pre el rest p f s \<longleftrightarrow> session_ok n M f s \<and> valid_blk_list s = pre @ el # rest \<and>
     (\<exists>t. session_at f t s \<and> (\<forall>x \<in> set pre. el_nsec x \<le> t)) \<and> (p < length (elem_message s el) \<or> p = 0)"

lemma standsD:
  assumes "stands n M pre el rest p f s"
  shows "driver_ok s" "alive n s" "unat (ndx el) < 1000" "n \<le> 1000" "md_array_size s = n"
    "messages s (unat (ndx el)) = Some (el_nsec el, elem_message s el)" "length (elem_message s el) \<le> 4086"
proof -
  have s: "alive n s" "valid_blk_list s = pre @ el # rest" using assms by (simp_all add: stands_def session_ok_def)
  then show ok: "driver_ok s" and "alive n s" and "n \<le> 1000" "md_array_size s = n"
    by (auto simp: alive_def driver_ok_def shape_ok_def layout_consts)
  show "unat (ndx el) < 1000" using listed_small(1) [OF ok] s(2) by simp
  show m: "messages s (unat (ndx el)) = Some (el_nsec el, elem_message s el)"
    using elem_message_messages [OF ok] s(2) by simp
  show "length (elem_message s el) \<le> 4086" using messages_Some [OF ok m] by metis
qed

lemma stands_read:
  assumes k: "kernel_ok k" and st: "stands n M pre el rest p f s" and pos: "f_pos f = file_pos (unat (ndx el)) p"
    and i: "unat (ndx el) + 2 < n" and len: "buffer_ok len"
  shows "read_at len n k el rest (elem_message s el) p f s"
proof -
  note d = standsD [OF st]
  obtain t where t: "session_at f t s" "\<forall>x \<in> set pre. el_nsec x \<le> t" using st by (auto simp: stands_def)
  have l: "valid_blk_list s = pre @ el # rest" "p < length (elem_message s el) \<or> p = 0" using st by (auto simp: stands_def)
  have env: "read_env_ok (read_of k s)" "rest \<noteq> [] \<longrightarrow> ts_alloc (read_of k s) \<noteq> None"
    using kernel_okD(9,10) [OF k d(2)] by auto
  have "unat (ndx el) + 2 < md_array_size s" "unat len < 2 ^ 63" using i d(5) len by (simp_all add: buffer_ok_def)
  from read_message_at [OF d(1) l(1) t d(6) l(2) this env] show ?thesis
    unfolding read_at_def pos Let_def d(5) .
qed

text \<open>The step to the next message.\<close>

lemma stands_next:
  assumes k: "kernel_ok k" and st: "stands n M pre el (x # xs) p f s"
  obtains f' s' where "read_next (read_of k s) F (x # xs) r f s = Inr (r, file_pos (unat (ndx x)) 0, f', s')"
    "session_ok n M f' s'" "elem_message s' = elem_message s"
    "stands n M (pre @ [el]) x xs 0 (f'\<lparr>f_pos := file_pos (unat (ndx x)) 0\<rparr>) s'"
proof -
  note d = standsD [OF st]
  have sess: "session_ok n M f s" "valid_blk_list s = pre @ el # x # xs" using st by (simp_all add: stands_def)
  obtain a t where a: "private_data f = Some (a, t)" "a \<in> live s" "a \<notin> set (owned s)"
    using sess(1) by (auto simp: session_ok_def split: option.splits)
  obtain b where b: "ts_alloc (read_of k s) = Some b" "b \<notin> live s" using kernel_okD(10) [OF k d(2)] by blast
  let ?f = "f\<lparr>private_data := Some (b, el_nsec x)\<rparr>" and ?s = "s\<lparr>live := insert b (live s) - {a}\<rparr>"
  have sub: "set (owned s) \<subseteq> insert b (live s) - {a}" "b \<notin> set (owned s)" "a \<noteq> b"
    using d(1) a b by (auto simp: driver_ok_def mem_ok_def)
  note fr = live_frame [OF d(1) sub(1)]
  have so: "session_ok n M ?f ?s" using sess(1) d fr sub by (auto simp: session_ok_def readable_def alive_def)
  show thesis
  proof (rule that [OF _ so])
    show "read_next (read_of k s) F (x # xs) r f s = Inr (r, file_pos (unat (ndx x)) 0, ?f, ?s)"
      by (simp add: read_next_def a b)
    show "elem_message ?s = elem_message s" by (simp add: elem_message_def fr fun_eq_iff)
    show "stands n M (pre @ [el]) x xs 0 (?f\<lparr>f_pos := file_pos (unat (ndx x)) 0\<rparr>) ?s"
      using so sess(2) index_before [OF d(1), of "pre @ [el]" x xs] sub(3)
      by (auto simp: stands_def session_ok_def readable_def session_at_def)
  qed
qed

lemma stands_beyond:
  assumes "stands n M pre el rest p f s" "f_pos f = file_pos (unat (ndx el)) p" "\<not> unat (ndx el) + 2 < n"
  shows "drains len n M k (Suc m) f s"
proof (rule drains_stop)
  note d = standsD [OF assms(1)]
  have "p < 4086" using d(7) assms(1) by (auto simp: stands_def)
  then show "bldms_read (read_of k s) (word_of_nat (n * 4096)) len (f_pos f) f s = Inr ((Inr 0, []), file_pos (unat (ndx el)) p, f, s)"
    unfolding assms(2) using assms(3) d(3,4) by (intro read_past_end) simp_all
  show "session_ok n M f s" using assms(1) by (simp add: stands_def)
qed

lemma drains_shape:
  assumes k: "kernel_ok k" and len: "buffer_ok len"
  shows "stands n M pre el rest p f s \<Longrightarrow> read_at len n k el rest (elem_message s el) p f s \<Longrightarrow>
    N = length (elem_message s el) - p + (\<Sum>x\<leftarrow>rest. length (elem_message s x)) \<Longrightarrow> drains len n M k (N + 2) f s"
proof (induction N arbitrary: pre el rest p f s rule: less_induct)
  case (less N)
  let ?msg = "elem_message s el" and ?F = "word_of_nat (n * 4096) :: u64"
  define j where "j = min (unat len) (length ?msg - p)"
  have so: "session_ok n M f s" using less.prems(1) by (simp add: stands_def)
  have here: "drains len n M k (N + 1) f' s'"
    if "stands n M pre' el' rest' p' f' s'" "f_pos f' = file_pos (unat (ndx el')) p'"
      "length (elem_message s' el') - p' + (\<Sum>x\<leftarrow>rest'. length (elem_message s' x)) < N" for pre' el' rest' p' f' s'
  proof (cases "unat (ndx el') + 2 < n")
    case True
    show ?thesis
      by (rule drains_mono [OF less.IH [OF that(3,1) stands_read [OF k that(1,2) True len] refl]]) (use that(3) in simp)
  qed (use stands_beyond [OF that(1,2), of len k N] in simp)
  have r: "bldms_read (read_of k s) ?F len (f_pos f) f s =
      (if p + j < length ?msg then Inr ((Inr (word_of_nat j), take j (drop p ?msg)), file_pos (unat (ndx el)) (p + j), f, s)
       else read_next (read_of k s) ?F rest (Inr (word_of_nat j), take j (drop p ?msg)) f s)"
    using less.prems(2) by (simp only: read_at_def Let_def j_def)
  have jb: "j \<le> 4096" using len by (auto simp: j_def buffer_ok_def)
  show ?case
  proof (cases "p + j < length ?msg")
    case True
    then have "0 < j" using len by (simp add: j_def min_def buffer_ok_def split: if_splits)
    let ?f = "f\<lparr>f_pos := file_pos (unat (ndx el)) (p + j)\<rparr>"
    have "stands n M pre el rest (p + j) ?f s"
      using less.prems(1) True by (simp add: stands_def session_ok_def readable_def session_at_def)
    then have "drains len n M k (N + 1) ?f s" by (rule here) (simp, use less.prems(3) True \<open>0 < j\<close> in linarith)
    then show ?thesis using drains_step [OF r [unfolded if_P [OF True]] \<open>0 < j\<close> jb, of M "N + 1"] by simp
  next
    case False
    then have jl: "j = length ?msg - p" by (simp add: j_def)
    show ?thesis
    proof (cases rest)
      case Nil
      have res: "bldms_read (read_of k s) ?F len (f_pos f) f s = Inr ((Inr (word_of_nat j), take j (drop p ?msg)), ?F, f, s)"
        using r False by (simp add: Nil read_next_def)
      have "session_ok n M (f\<lparr>f_pos := ?F\<rparr>) s" using so by (simp add: session_ok_def readable_def)
      then have "drains len n M k (Suc N) (f\<lparr>f_pos := ?F\<rparr>) s" by (rule drains_end) simp
      then show ?thesis
        using drains_step [OF res _ jb, of M "Suc N"] drains_stop [where M = M and m = "Suc N", OF _ so] res
        by (cases "j = 0") simp_all
    next
      case (Cons x xs)
      obtain f' s' where n: "read_next (read_of k s) ?F (x # xs) (Inr (word_of_nat j), take j (drop p ?msg)) f s =
          Inr ((Inr (word_of_nat j), take j (drop p ?msg)), file_pos (unat (ndx x)) 0, f', s')" "session_ok n M f' s'"
        "elem_message s' = elem_message s" "stands n M (pre @ [el]) x xs 0 (f'\<lparr>f_pos := file_pos (unat (ndx x)) 0\<rparr>) s'"
        by (rule stands_next [OF k less.prems(1) [unfolded Cons]])
      note res = r [unfolded Cons n(1) if_not_P [OF False]]
      have "drains len n M k (N + 1) (f'\<lparr>f_pos := file_pos (unat (ndx x)) 0\<rparr>) s'" if "0 < j"
        by (rule here [OF n(4)]) (use that less.prems(3) jl in \<open>simp_all add: n(3) Cons\<close>)
      then show ?thesis
        using drains_step [OF res _ jb, of M "N + 1"] drains_stop [where m = "Suc N", OF _ n(2)] res
        by (cases "j = 0") simp_all
    qed
  qed
qed

text \<open>A session that has just been opened or moved back to the start.\<close>

definition at_start :: "session \<Rightarrow> bldms \<Rightarrow> bool" where
  "at_start f s \<longleftrightarrow> f_pos f = 0 \<and> session_at f (Ktime 0) s"

lemma read_nothing:
  assumes ok: "driver_ok s" "md_array_size s = n" and len: "buffer_ok len" and none: "valid_blk_list s = [] \<or> n \<le> 2"
  shows "\<exists>off. bldms_read env (word_of_nat (n * 4096)) len 0 f s = Inr ((Inr 0, []), off, f, s)"
proof (cases "n \<le> 2")
  case True
  have "(word_of_nat (n * 4096) :: u64) \<le> word_of_nat 8192" using True by (subst u64_order) simp_all
  then show ?thesis by (simp add: bldms_read_def read_clamp_def)
next
  case False
  have "n \<le> 1000" using ok by (simp add: driver_ok_def shape_ok_def layout_consts)
  then have "read_clamp (word_of_nat (n * 4096)) 0 len = Some (file_pos 0 0, 10, word_of_nat (min (unat len) 4086))"
    using False len by (intro read_clamp_start) (simp_all add: buffer_ok_def)
  then show ?thesis using none False by (simp add: bldms_read_def Let_def rcu_read_lock_def rcu_read_unlock_def)
qed

lemma drains_open:
  assumes k: "kernel_ok k" and so: "session_ok n M f s" and f: "at_start f s" and st: "stamped s" and len: "buffer_ok len"
  shows "\<exists>m. drains len n M k m f s"
proof -
  have a: "alive n s" "f_pos f = 0" "session_at f (Ktime 0) s" using so f by (simp_all add: session_ok_def at_start_def)
  then have ok: "driver_ok s" "md_array_size s = n" by (simp_all add: alive_def)
  show ?thesis
  proof (cases "valid_blk_list s = [] \<or> n \<le> 2")
    case True
    then show ?thesis using read_nothing [OF ok len True] drains_stop [OF _ so] a(2) by metis
  next
    case False
    then obtain el rest where l: "valid_blk_list s = el # rest" by (cases "valid_blk_list s") simp_all
    have stand: "stands n M [] el rest 0 f s" using so l a(3) by (auto simp: stands_def)
    note d = standsD [OF stand]
    have "Ktime 0 < el_nsec el" using st d(6) by (auto simp: stamped_def)
    moreover have "unat len < 2 ^ 63" using len by (simp add: buffer_ok_def)
    moreover have "read_env_ok (read_of k s)" "rest \<noteq> [] \<longrightarrow> ts_alloc (read_of k s) \<noteq> None"
      using kernel_okD(9,10) [OF k a(1)] by auto
    ultimately have "read_at len n k el rest (elem_message s el) 0 f s"
      using read_first_message [OF ok(1) l a(3) d(6)] False
      by (simp add: read_at_def a(2) Let_def ok(2) del: of_nat_mult)
    from drains_shape [OF k len stand this refl] show ?thesis ..
  qed
qed

lemma sys_close_session:
  assumes "session_ok n M f s"
  obtains s' where "sys_close f s = Inr (Inr (), s')" "alive n s'" "messages s' = M"
proof -
  obtain c t where c: "private_data f = Some (c, t)" "c \<in> live s" "c \<notin> set (owned s)"
    using assms by (auto simp: session_ok_def split: option.splits)
  have s: "alive n s" "messages s = M" "driver_ok s" "bldms_mounted s" "readable f"
    using assms by (auto simp: session_ok_def alive_def driver_ok_def shape_ok_def)
  have "set (owned s) \<subseteq> live s - {c}" using s(3) c(3) by (auto simp: driver_ok_def mem_ok_def)
  note fr = live_frame [OF s(3) this]
  show thesis
    by (rule that [of "s\<lparr>live := live s - {c}\<rparr>"])
      (use s c fr in \<open>simp_all add: sys_close_def bldms_release_def free_private_def alive_def\<close>)
qed

section \<open>user.c\<close>

lemma user_read_reads:
  "reads_to_end k F USER_MSG_SIZE m f s outs f' s' \<Longrightarrow> user_read m k F f s = Some (Inr (Inr (outs, f'), s'))"
  by (induction rule: reads_to_end.induct) simp_all

lemma ids_below: "set ids \<subseteq> {..<n} \<Longrightarrow> j < length ids \<Longrightarrow> ids ! j < n"
  using nth_mem [of j ids] by blast

lemma user_puts:
  assumes k: "kernel_ok k" and s: "alive n s" "stamped s" and room: "NUM_MESSAGES \<le> card (free_slots s)"
  obtains ids s' where "for_each (\<lambda>i. put_or_exit (- 1) k (cstring (quotes ! i))) [0..<NUM_MESSAGES] s = Inr (Inr ids, s')"
    "alive n s'" "stamped s'" "length ids = NUM_MESSAGES" "distinct ids" "set ids \<subseteq> free_slots s" "set ids \<subseteq> {..<n}"
    "\<forall>j < NUM_MESSAGES. \<exists>t. messages s' (ids ! j) = Some (t, cstring (quotes ! j))"
    "\<forall>i. i \<notin> set ids \<longrightarrow> messages s' i = messages s i"
proof -
  have "\<forall>i \<in> set [0..<NUM_MESSAGES]. length (cstring (quotes ! i)) \<le> 4086" using quote_fits by simp
  from put_all [OF k s this, of "- 1"] room obtain ids s1 where
    s1: "for_each (\<lambda>i. put_or_exit (- 1) k (cstring (quotes ! i))) [0..<NUM_MESSAGES] s = Inr (Inr ids, s1)"
    "alive n s1" "stamped s1" "distinct ids" "set ids \<subseteq> free_slots s"
    "list_all2 (\<lambda>t i. \<exists>ts. messages s1 t = Some (ts, cstring (quotes ! i))) ids [0..<NUM_MESSAGES]"
    "\<forall>i. i \<notin> set ids \<longrightarrow> messages s1 i = messages s i" by auto
  have len: "length ids = NUM_MESSAGES" using list_all2_lengthD [OF s1(6)] by simp
  show thesis
  proof (rule that [OF s1(1-3) len s1(4,5)])
    show "set ids \<subseteq> {..<n}" using s1(5) s(1) by (auto simp: free_slots_def alive_def)
    show "\<forall>j < NUM_MESSAGES. \<exists>t. messages s1 (ids ! j) = Some (t, cstring (quotes ! j))"
      using list_all2_nthD [OF s1(6)] len by simp
  qed (rule s1(7))
qed

lemma user_invalidations:
  assumes k: "kernel_ok k" and s: "alive n s" and ids: "length ids = NUM_MESSAGES" "distinct ids" "set ids \<subseteq> {..<n}"
    and at: "\<And>j. j < NUM_MESSAGES \<Longrightarrow> messages s (ids ! j) \<noteq> None"
  obtains us s' where "for_each (\<lambda>i. invalidate_or_exit (- 1) k (word_of_nat (ids ! i))) (filter even [0..<NUM_MESSAGES]) s =
      Inr (Inr us, s')" "alive n s'"
    "messages s' = messages s |` (- {ids ! j |j. j < NUM_MESSAGES \<and> even j})"
proof -
  let ?ts = "map ((!) ids) (filter even [0..<NUM_MESSAGES])"
  have ev: "set ?ts = {ids ! j |j. j < NUM_MESSAGES \<and> even j}" by auto
  have "distinct ?ts" using ids by (auto simp: distinct_map inj_on_def nth_eq_iff_index_eq)
  moreover have "\<forall>t \<in> set ?ts. t < n \<and> messages s t \<noteq> None"
  proof
    fix t assume "t \<in> set ?ts"
    then obtain j where "j < NUM_MESSAGES" "t = ids ! j" by auto
    then show "t < n \<and> messages s t \<noteq> None" using at ids ids_below [of ids n j] by simp
  qed
  ultimately obtain us s' where "for_each (\<lambda>t. invalidate_or_exit (- 1) k (word_of_nat t)) ?ts s = Inr (Inr us, s')" "alive n s'"
    "messages s' = messages s |` (- set ?ts)"
    using invalidate_all [OF k s] by blast
  then show thesis
    using that for_each_map [of "\<lambda>t. invalidate_or_exit (- 1) k (word_of_nat t)" "(!) ids" "filter even [0..<NUM_MESSAGES]"]
    unfolding ev by simp
qed

lemma user_calls_complete:
  assumes k: "kernel_ok k" and s: "alive n s" "stamped s" and room: "NUM_MESSAGES \<le> card (free_slots s)"
  obtains ids s' where "user_calls k s = Inr (Inr (), s')" "alive n s'" "stamped s'"
    "length ids = NUM_MESSAGES" "distinct ids" "set ids \<subseteq> free_slots s"
    "\<forall>j < NUM_MESSAGES. odd j \<longrightarrow> (\<exists>t. messages s' (ids ! j) = Some (t, cstring (quotes ! j)))"
    "\<forall>i. i \<notin> {ids ! j |j. j < NUM_MESSAGES \<and> odd j} \<longrightarrow> messages s' i = messages s i"
proof -
  obtain ids s1 where s1: "for_each (\<lambda>i. put_or_exit (- 1) k (cstring (quotes ! i))) [0..<NUM_MESSAGES] s = Inr (Inr ids, s1)"
    "alive n s1" "stamped s1" and ids: "length ids = NUM_MESSAGES" "distinct ids" "set ids \<subseteq> free_slots s" "set ids \<subseteq> {..<n}"
    and at: "\<forall>j < NUM_MESSAGES. \<exists>t. messages s1 (ids ! j) = Some (t, cstring (quotes ! j))"
      "\<forall>i. i \<notin> set ids \<longrightarrow> messages s1 i = messages s i"
    by (rule user_puts [OF k s room])
  have "messages s1 (ids ! j) \<noteq> None" if "j < NUM_MESSAGES" for j using at(1) that by auto
  then obtain us s2 where s2: "for_each (\<lambda>i. invalidate_or_exit (- 1) k (word_of_nat (ids ! i)))
      (filter even [0..<NUM_MESSAGES]) s1 = Inr (Inr us, s2)" "alive n s2"
    "messages s2 = messages s1 |` (- {ids ! j |j. j < NUM_MESSAGES \<and> even j})"
    by (rule user_invalidations [OF k s1(2) ids(1,2,4)])
  have small: "ids ! j < n" if "j < NUM_MESSAGES" for j using ids ids_below [of ids n j] that by simp
  have odd: "messages s2 (ids ! j) = messages s1 (ids ! j)" if "j < NUM_MESSAGES" "odd j" for j
    unfolding s2(3) using that ids by (auto simp: restrict_map_def nth_eq_iff_index_eq)
  have even: "messages s2 (ids ! j) = None" if "j < NUM_MESSAGES" "even j" for j
    unfolding s2(3) using that by (auto simp: restrict_map_def)
  have g: "\<exists>out. sys_get k (word_of_nat (ids ! 3)) USER_MSG_SIZE s2 = Inr (Inr (Inr out), s2)"
    using sys_get_slot [OF k s2(2) small [of 3], of USER_MSG_SIZE] at(1) [rule_format, of 3] odd [of 3]
    by (auto simp: NUM_MESSAGES_def user_msg_size)
  have h: "sys_get k (word_of_nat (ids ! 0)) USER_MSG_SIZE s2 = Inr (Inr (Inl ENODATA), s2)"
    using sys_get_slot [OF k s2(2) small [of 0], of USER_MSG_SIZE] even [of 0] by (simp add: NUM_MESSAGES_def user_msg_size)
  show thesis
  proof (rule that [OF _ s2(2) _ ids(1-3)])
    show "user_calls k s = Inr (Inr (), s2)" unfolding user_calls_def using s1(1) s2(1) g h by auto
    show "stamped s2" using s1(3) by (auto simp: stamped_def s2(3) restrict_map_def)
    show "\<forall>j < NUM_MESSAGES. odd j \<longrightarrow> (\<exists>t. messages s2 (ids ! j) = Some (t, cstring (quotes ! j)))"
      using at(1) odd by simp
    have "messages s2 i = messages s i" if i: "i \<notin> {ids ! j |j. j < NUM_MESSAGES \<and> odd j}" for i
    proof (cases "i \<in> set ids")
      case True
      then obtain j where j: "j < NUM_MESSAGES" "i = ids ! j" by (auto simp: in_set_conv_nth ids(1))
      then have "messages s2 i = None" using i even by auto
      then show ?thesis using True ids(3) by (auto simp: free_slots_def)
    next
      case False
      then have "i \<notin> {ids ! j |j. j < NUM_MESSAGES \<and> even j}" using ids(1) by auto
      then show ?thesis using at(2) False unfolding s2(3) by (simp add: restrict_map_def)
    qed
    then show "\<forall>i. i \<notin> {ids ! j |j. j < NUM_MESSAGES \<and> odd j} \<longrightarrow> messages s2 i = messages s i" by blast
  qed
qed

lemma user_main_completes:
  assumes k: "kernel_ok k" and s: "alive n s" "stamped s" and room: "NUM_MESSAGES \<le> card (free_slots s)"
    and argv: "5 \<le> length argv" "set_numbers argv k0 = k"
  shows "\<exists>m ids s'. user_main argv m k0 (file_bytes s) s = Some (Inr (0, s')) \<and> alive n s' \<and>
     length ids = NUM_MESSAGES \<and> distinct ids \<and> set ids \<subseteq> free_slots s \<and>
     (\<forall>j < NUM_MESSAGES. odd j \<longrightarrow> (\<exists>t. messages s' (ids ! j) = Some (t, cstring (quotes ! j)))) \<and>
     (\<forall>i. i \<notin> {ids ! j |j. j < NUM_MESSAGES \<and> odd j} \<longrightarrow> messages s' i = messages s i)"
proof -
  obtain ids s1 where s1: "user_calls k s = Inr (Inr (), s1)" "alive n s1" "stamped s1"
    and ids: "length ids = NUM_MESSAGES" "distinct ids" "set ids \<subseteq> free_slots s"
      "\<forall>j < NUM_MESSAGES. odd j \<longrightarrow> (\<exists>t. messages s1 (ids ! j) = Some (t, cstring (quotes ! j)))"
      "\<forall>i. i \<notin> {ids ! j |j. j < NUM_MESSAGES \<and> odd j} \<longrightarrow> messages s1 i = messages s i"
    by (rule user_calls_complete [OF k s room])
  obtain a s2 where op: "sys_open k O_RDONLY s1 = Inr (Inr (Inr \<lparr>f_mode = O_RDONLY, f_pos = 0, private_data = Some (a, Ktime 0)\<rparr>), s2)"
    and s2: "s2 = s1\<lparr>live := insert a (live s1)\<rparr>" "alive n s2" "messages s2 = messages s1" "a \<notin> set (owned s2)"
    by (rule sys_open_session [OF k s1(2), of O_RDONLY]) simp
  let ?f = "\<lparr>f_mode = O_RDONLY, f_pos = 0, private_data = Some (a, Ktime 0)\<rparr>"
  have "session_ok n (messages s1) ?f s2" "at_start ?f s2" "stamped s2"
    using s2 s1(3) by (simp_all add: session_ok_def readable_def at_start_def session_at_def stamped_def)
  then obtain m outs f' s3 where rd: "reads_to_end k (word_of_nat (n * 4096)) USER_MSG_SIZE m ?f s2 outs f' s3"
    and so: "session_ok n (messages s1) f' s3"
    using drains_open [OF k _ _ _ user_msg_size(2)] unfolding drains_def by blast
  obtain s4 where s4: "sys_close f' s3 = Inr (Inr (), s4)" "alive n s4" "messages s4 = messages s1"
    by (rule sys_close_session [OF so])
  have "file_bytes s = word_of_nat (n * 4096)" using s(1) by (simp add: file_bytes_def alive_def)
  then have "user_main argv m k0 (file_bytes s) s = Some (Inr (0, s4))"
    unfolding user_main_def using argv s1(1) op user_read_reads [OF rd] s4(1) by (simp del: of_nat_mult)
  then show ?thesis using ids s4(2,3) by (intro exI [of _ m] exI [of _ ids]) auto
qed

section \<open>The reader of user\_concurrency.c\<close>

lemma reader_round_reads:
  "reads_to_end k F STRESS_MSG_SIZE m f s outs f' s' \<Longrightarrow> reader_round m k F f s = Some (Inr ((0, outs, f'), s'))"
  by (induction rule: reads_to_end.induct) simp_all

lemma sys_rewind_session:
  assumes k: "kernel_ok k" and so: "session_ok n M f s"
  obtains f' s' where "sys_rewind k f s = Inr (Inr f', s')" "session_ok n M f' s'" "at_start f' s'"
proof -
  obtain c t where c: "private_data f = Some (c, t)" "c \<in> live s" "c \<notin> set (owned s)"
    using so by (auto simp: session_ok_def split: option.splits)
  have s: "alive n s" "messages s = M" "driver_ok s" "bldms_mounted s" "readable f"
    using so by (auto simp: session_ok_def alive_def driver_ok_def shape_ok_def)
  obtain a where a: "seek_of k s = Some a" "a \<notin> live s" using kernel_okD(11) [OF k s(1)] by blast
  have sub: "set (owned s) \<subseteq> insert a (live s) - {c}" "a \<notin> set (owned s)" "a \<noteq> c"
    using s(3) a c by (auto simp: driver_ok_def mem_ok_def)
  note fr = live_frame [OF s(3) sub(1)]
  show thesis
  proof (rule that [of "f\<lparr>private_data := Some (a, Ktime 0), f_pos := 0\<rparr>" "s\<lparr>live := insert a (live s) - {c}\<rparr>"])
    show "sys_rewind k f s = Inr (Inr (f\<lparr>private_data := Some (a, Ktime 0), f_pos := 0\<rparr>), s\<lparr>live := insert a (live s) - {c}\<rparr>)"
      using s(4) a(1) c by (simp add: sys_rewind_def bldms_llseek_def free_private_def kzalloc_def)
  qed (use s c a sub fr in \<open>auto simp: session_ok_def readable_def alive_def at_start_def session_at_def\<close>)
qed

lemma stamped_messages: "messages s' = messages s \<Longrightarrow> stamped s' = stamped s"
  by (simp add: stamped_def)

lemma reader_rounds_complete:
  assumes k: "kernel_ok k"
  shows "session_ok n M f s \<Longrightarrow> at_start f s \<Longrightarrow> stamped s \<Longrightarrow>
    \<exists>m0. \<forall>m \<ge> m0. \<exists>outs f' s'. reader_rounds m i k (word_of_nat (n * 4096)) f s = Some (Inr ((0, outs, f'), s')) \<and> session_ok n M f' s'"
proof (induction i arbitrary: f s)
  case (Suc i)
  obtain m1 outs f1 s1 where r: "reads_to_end k (word_of_nat (n * 4096)) STRESS_MSG_SIZE m1 f s outs f1 s1" "session_ok n M f1 s1"
    using drains_open [OF k Suc.prems user_msg_size(3)] unfolding drains_def by blast
  obtain f2 s2 where w: "sys_rewind k f1 s1 = Inr (Inr f2, s2)" "session_ok n M f2 s2" "at_start f2 s2"
    by (rule sys_rewind_session [OF k r(2)])
  have "stamped s2" using Suc.prems(1,3) w(2) stamped_messages [of s2 s] by (simp add: session_ok_def)
  from Suc.IH [OF w(2,3) this] obtain m2 where m2: "\<forall>m \<ge> m2. \<exists>outs f' s'.
      reader_rounds m i k (word_of_nat (n * 4096)) f2 s2 = Some (Inr ((0, outs, f'), s')) \<and> session_ok n M f' s'" by blast
  show ?case
  proof (intro exI [of _ "max m1 m2"] allI impI)
    fix m assume m: "max m1 m2 \<le> m"
    then have "reader_round m k (word_of_nat (n * 4096)) f s = Some (Inr ((0, outs, f1), s1))"
      using reads_mono [OF r(1), of "m - m1"] by (intro reader_round_reads) simp
    moreover obtain outs' f' s' where "reader_rounds m i k (word_of_nat (n * 4096)) f2 s2 = Some (Inr ((0, outs', f'), s'))"
      "session_ok n M f' s'" using m2 m by auto
    ultimately show "\<exists>outs f' s'. reader_rounds m (Suc i) k (word_of_nat (n * 4096)) f s = Some (Inr ((0, outs, f'), s')) \<and> session_ok n M f' s'"
      using w(1) by (simp del: of_nat_mult)
  qed
qed simp

lemma reader_completes:
  assumes k: "kernel_ok k" and s: "alive n s" "stamped s"
  shows "\<exists>m outs s'. reader m k (file_bytes s) s = Some (Inr ((0, outs), s')) \<and> alive n s' \<and> messages s' = messages s"
proof -
  obtain a s1 where op: "sys_open k O_RDONLY s = Inr (Inr (Inr \<lparr>f_mode = O_RDONLY, f_pos = 0, private_data = Some (a, Ktime 0)\<rparr>), s1)"
    and s1: "s1 = s\<lparr>live := insert a (live s)\<rparr>" "alive n s1" "messages s1 = messages s" "a \<notin> set (owned s1)"
    by (rule sys_open_session [OF k s(1), of O_RDONLY]) simp
  let ?f = "\<lparr>f_mode = O_RDONLY, f_pos = 0, private_data = Some (a, Ktime 0)\<rparr>"
  have so: "session_ok n (messages s) ?f s1" "at_start ?f s1" "stamped s1"
    using s1 s(2) by (simp_all add: session_ok_def readable_def at_start_def session_at_def stamped_def)
  from reader_rounds_complete [OF k so, of num_loops] obtain m outs f' s2 where
    r: "reader_rounds m num_loops k (word_of_nat (n * 4096)) ?f s1 = Some (Inr ((0, outs, f'), s2))" "session_ok n (messages s) f' s2"
    by blast
  obtain s3 where s3: "sys_close f' s2 = Inr (Inr (), s3)" "alive n s3" "messages s3 = messages s"
    by (rule sys_close_session [OF r(2)])
  have "file_bytes s = word_of_nat (n * 4096)" using s(1) by (simp add: file_bytes_def alive_def)
  then have "reader m k (file_bytes s) s = Some (Inr ((0, outs), s3))"
    unfolding reader_def using op r(1) s3(1) by (simp del: of_nat_mult)
  then show ?thesis using s3(2,3) by blast
qed

end
