(* ===== verification/Stress_Test.thy ===== *)
theory Stress_Test
  imports Concurrency_Reader User_Correct
begin

text \<open>
  The stress test \<^verbatim>\<open>user_concurrency.c\<close>: getters, a writer, an invalidator and a reader of the
  file that run at the same time on the concurrent driver. The getters, the writer and the
  invalidator make their calls one after the other; the reader opens the file, reads it to its end
  three times and closes it. Each counts the replies it does not expect. The kernel does not fail:
  the allocations succeed and the device can be read.
\<close>

section \<open>Main\<close>

definition READERS :: nat where "READERS = 1"

definition GETTERS :: nat where "GETTERS = 2"

definition WRITERS :: nat where "WRITERS = 1"

definition INVALIDATORS :: nat where "INVALIDATORS = 1"

definition NUM_SPAWNS :: nat where
  "NUM_SPAWNS = READERS + GETTERS + WRITERS + INVALIDATORS"

text \<open>
  What a thread has still to do: the calls that are left, or the place of the reader in its program,
  with the number of rounds that are left.
\<close>

datatype task =
    Calls "request list"
  | ReaderOpens
  | ReaderLoop nat
  | ReaderSeeks nat

text \<open>The work of the \<open>i\<close>-th created thread, given the identifiers of the threads.\<close>

definition spawned :: "(nat \<Rightarrow> u64) \<Rightarrow> u64 \<Rightarrow> nat \<Rightarrow> task" where
  "spawned tids num_blocks i =
     (if i < GETTERS then Calls (requests num_blocks (Getter (tids i)))
      else if i < GETTERS + WRITERS then Calls (requests num_blocks (Writer (tids i)))
      else if i < GETTERS + WRITERS + INVALIDATORS then Calls (requests num_blocks (Invalidator (tids i)))
      else ReaderOpens)"

record stress =
  sys :: conc
  todo :: "nat \<Rightarrow> task"
  total_errors :: nat

definition stress_spawn :: "(nat \<Rightarrow> u64) \<Rightarrow> u64 \<Rightarrow> conc \<Rightarrow> stress" where
  "stress_spawn tids st_size c =
     (let num_blocks = st_size div BLK_SIZE in
      \<lparr>sys = c, todo = (\<lambda>i. if i < NUM_SPAWNS then spawned tids num_blocks i else Calls []), total_errors = 0\<rparr>)"

text \<open>
  \<open>main\<close> up to the creation of the threads: the command line has to be complete, and the file is
  opened for its size and closed again. The result is an exit status or the threads at work.
\<close>

definition stress_main :: "int \<Rightarrow> addr option \<Rightarrow> (nat \<Rightarrow> u64) \<Rightarrow> bldms \<Rightarrow> fault + (int + stress)" where
  "stress_main argc alloc tids s =
     (if argc < 5 then Inr (Inl 1)
      else
        let (fd, f, refs, s) = bldms_open alloc \<lparr>f_mode = O_RDONLY, f_pos = 0, private_data = None\<rparr> 0 s in
        if isl fd then Inr (Inl 1)
        else
          let st_size = file_bytes s in
          andThen (bldms_release f refs s) (\<lambda>(_, _, s). Inr (Inr (stress_spawn tids st_size (conc_of s)))))"

definition stress_start :: "stress \<Rightarrow> bool" where
  "stress_start x \<longleftrightarrow> (\<exists>argc a tids s. driver_ok s \<and> 5 \<le> argc \<and> fresh s a \<and> stress_main argc (Some a) tids s = Inr (Inr x))"

lemma stress_main_spawns:
  assumes ok: "driver_ok s" and a: "5 \<le> argc" "fresh s a"
  shows "stress_main argc (Some a) tids s = Inr (Inr (stress_spawn tids (file_bytes s) (conc_of s)))"
proof -
  have m: "bldms_mounted s" using ok by (simp add: driver_ok_def shape_ok_def)
  let ?f = "\<lparr>f_mode = O_RDONLY, f_pos = 0, private_data = None\<rparr> :: session"
  obtain f' where "bldms_open (Some a) ?f 0 s = (Inr (), f', 1, kzalloc a s)" "bldms_release f' 1 (kzalloc a s) = Inr (Inr (), 0, s)"
    using open_release_balance [OF m, of a ?f 0] a(2) by (auto simp: fresh_def readable_def)
  then show ?thesis using a(1) by (simp add: stress_main_def Let_def file_bytes_def kzalloc_def)
qed

lemma stress_start_spawned:
  assumes "stress_start x"
  obtains tids s where "driver_ok s" "x = stress_spawn tids (file_bytes s) (conc_of s)"
  using assms stress_main_spawns by (auto simp: stress_start_def)

text \<open>
  The end of \<open>main\<close>: it waits for all the threads it created and returns the number of errors they
  counted.
\<close>

definition joined :: "stress \<Rightarrow> bool" where
  "joined x \<longleftrightarrow> list_all (\<lambda>i. todo x i = Calls [] \<and> threads (sys x) i = Idle) [0..<NUM_SPAWNS]"

definition exit_status :: "stress \<Rightarrow> nat option" where
  "exit_status x = (if joined x then Some (total_errors x) else None)"

section \<open>Steps\<close>

text \<open>
  The reader's reaction to a reply: how it goes on, and whether it counts an error. The result of
  \<open>read\<close> is kept in an \<open>int\<close>; those of \<open>lseek\<close> and \<open>close\<close> are not looked at.
\<close>

fun reader_after :: "file_reply \<Rightarrow> task \<Rightarrow> task \<times> bool" where
  "reader_after (Opened r) t = (if isl r then (Calls [], True) else (ReaderLoop num_loops, False))"
| "reader_after (Delivered (Inl e)) t = (t, True)"
| "reader_after (Delivered (Inr (n, out))) t =
     (let ret = ucast n :: u32 in
      if ret \<noteq> 0 then (t, sint ret < 0)
      else case t of ReaderLoop k \<Rightarrow> (ReaderSeeks (k - 1), False) | _ \<Rightarrow> (t, False))"
| "reader_after (Sought r) t = (case t of ReaderSeeks k \<Rightarrow> ReaderLoop k | _ \<Rightarrow> t, False)"
| "reader_after (Closed r) t = (Calls [], False)"

text \<open>A thread makes its next call, goes on inside a call, or takes the reply of the call.\<close>

definition worker_calls :: "nat \<Rightarrow> task \<Rightarrow> fault + conc \<Rightarrow> stress \<Rightarrow> fault + stress" where
  "worker_calls i t r x = andThen r (\<lambda>c. Inr (x\<lparr>sys := c, todo := (todo x)(i := t)\<rparr>))"

definition takes_reply :: "nat \<Rightarrow> task \<Rightarrow> bool \<Rightarrow> stress \<Rightarrow> stress" where
  "takes_reply i t err x =
     x\<lparr>sys := move i Idle (sys x), todo := (todo x)(i := t),
       total_errors := (if err then Suc (total_errors x) else total_errors x)\<rparr>"

inductive stress_step :: "stress \<Rightarrow> fault + stress \<Rightarrow> bool" for x where
  call_put: "threads (sys x) i = Idle \<Longrightarrow> todo x i = Calls (PutReq source # qs) \<Longrightarrow>
    call_ok (Put env source) (drv (sys x)) \<Longrightarrow> put_env_error env = None \<Longrightarrow>
    stress_step x (worker_calls i (Calls qs) (put_call i env source (sys x)) x)"
| call_get: "threads (sys x) i = Idle \<Longrightarrow> todo x i = Calls (GetReq offset sz # qs) \<Longrightarrow>
    call_ok (Get env offset sz) (drv (sys x)) \<Longrightarrow> (\<And>j. get_bread env j) \<Longrightarrow>
    stress_step x (worker_calls i (Calls qs) (get_call i env offset sz (sys x)) x)"
| call_invalidate: "threads (sys x) i = Idle \<Longrightarrow> todo x i = Calls (InvReq offset # qs) \<Longrightarrow>
    stress_step x (worker_calls i (Calls qs) (inv_call i (\<lambda>_. True) offset (sys x)) x)"
| call_open: "threads (sys x) i = Idle \<Longrightarrow> todo x i = ReaderOpens \<Longrightarrow> fresh (drv (sys x)) a \<Longrightarrow>
    stress_step x (worker_calls i ReaderOpens (open_call i (Some a) O_RDONLY (sys x)) x)"
| call_read: "threads (sys x) i = Idle \<Longrightarrow> todo x i = ReaderLoop (Suc k) \<Longrightarrow> sessions (sys x) i = Some f \<Longrightarrow>
    read_env_ok env \<Longrightarrow>
    stress_step x (worker_calls i (ReaderLoop (Suc k)) (read_call i env STRESS_MSG_SIZE f (sys x)) x)"
| call_seek: "threads (sys x) i = Idle \<Longrightarrow> todo x i = ReaderSeeks k \<Longrightarrow> sessions (sys x) i = Some f \<Longrightarrow>
    fresh (drv (sys x)) a \<Longrightarrow>
    stress_step x (worker_calls i (ReaderSeeks k) (seek_call i (Some a) 0 SEEK_SET f (sys x)) x)"
| call_close: "threads (sys x) i = Idle \<Longrightarrow> todo x i = ReaderLoop 0 \<Longrightarrow> sessions (sys x) i = Some f \<Longrightarrow>
    stress_step x (worker_calls i (ReaderLoop 0) (close_call i f (sys x)) x)"
| inside: "threads (sys x) i \<noteq> Idle \<Longrightarrow> \<not> finished (threads (sys x) i) \<Longrightarrow>
    (\<And>rd ret out el. threads (sys x) i \<noteq> RNext rd ret out el) \<Longrightarrow> cstep (sys x) i r \<Longrightarrow>
    stress_step x (worker_calls i (todo x i) r x)"
| inside_next: "threads (sys x) i = RNext rd ret out el \<Longrightarrow> sessions (sys x) i = Some f \<Longrightarrow> fresh (drv (sys x)) a \<Longrightarrow>
    stress_step x (worker_calls i (todo x i) (read_advance i (Some a) rd ret out el f (sys x)) x)"
| reply: "threads (sys x) i = Done r \<Longrightarrow> stress_step x (Inr (takes_reply i (todo x i) (unexpected r) x))"
| reply_file: "threads (sys x) i = FileDone r \<Longrightarrow>
    stress_step x (Inr (takes_reply i (fst (reader_after r (todo x i))) (snd (reader_after r (todo x i))) x))"

section \<open>No unexpected error\<close>

fun request_ok :: "nat \<Rightarrow> request \<Rightarrow> bool" where
  "request_ok n (PutReq source) \<longleftrightarrow> length source \<le> 4086"
| "request_ok n (GetReq offset sz) \<longleftrightarrow> unat (scast offset :: u64) < n"
| "request_ok n (InvReq offset) \<longleftrightarrow> unat (scast offset :: u64) < n"

fun pending :: "task \<Rightarrow> request list" where
  "pending (Calls qs) = qs"
| "pending t = []"

text \<open>
  The kernel does not fail in the calls that are on their way, and a read that is on its way takes a
  whole message.
\<close>

fun calm :: "thread \<Rightarrow> bool" where
  "calm (Walks env offset sz p M) \<longleftrightarrow> (\<forall>j. get_bread env j)"
| "calm (Reads env offset sz el) \<longleftrightarrow> (\<forall>j. get_bread env j)"
| "calm (InvWaits br offset) \<longleftrightarrow> (\<forall>j. br j)"
| "calm (Done r) \<longleftrightarrow> \<not> unexpected r"
| "calm (RWalks rd p) \<longleftrightarrow> read_env_ok (rd_env rd) \<and> rd_offset rd = 10 \<and> rd_len rd = 4086"
| "calm (RFound rd el) \<longleftrightarrow> read_env_ok (rd_env rd) \<and> rd_offset rd = 10 \<and> el_valid_bytes el \<le> rd_len rd"
| "calm (RNext rd ret out el) \<longleftrightarrow> unat ret \<le> 4086"
| "calm (FileDone (Opened r)) \<longleftrightarrow> \<not> isl r"
| "calm (FileDone (Delivered r)) \<longleftrightarrow> (case r of Inl e \<Rightarrow> False | Inr (n, out) \<Rightarrow> unat n \<le> 4086)"
| "calm _ \<longleftrightarrow> True"

text \<open>The positions a reader comes to: the start of the file, the start of a message, the end.\<close>

definition reader_pos :: "nat \<Rightarrow> u64 \<Rightarrow> bool" where
  "reader_pos n pos \<longleftrightarrow> pos = 0 \<or> (\<exists>k < 1000. pos = file_pos k 0) \<or> pos = word_of_nat (n * 4096)"

definition reader_session :: "nat \<Rightarrow> session option \<Rightarrow> bool" where
  "reader_session n s \<longleftrightarrow> (\<exists>f. s = Some f \<and> f_mode f = O_RDONLY \<and> reader_pos n (f_pos f))"

fun fits :: "nat \<Rightarrow> task \<Rightarrow> thread \<Rightarrow> session option \<Rightarrow> bool" where
  "fits n (Calls qs) th s \<longleftrightarrow> \<not> reads_step th"
| "fits n ReaderOpens th s \<longleftrightarrow> th = Idle \<and> s = None \<or> (\<exists>r. th = FileDone (Opened r)) \<and> reader_session n s"
| "fits n (ReaderLoop k) th s \<longleftrightarrow>
     reader_session n s \<and> (th = Idle \<or> 0 < k \<and> reads_step th \<and> (\<forall>r. th = FileDone r \<longrightarrow> (\<exists>b. r = Delivered b))) \<or>
     k = 0 \<and> (\<exists>r. th = FileDone (Closed r))"
| "fits n (ReaderSeeks k) th s \<longleftrightarrow> reader_session n s \<and> (th = Idle \<or> (\<exists>r. th = FileDone (Sought r)))"

definition stress_inv :: "stress \<Rightarrow> bool" where
  "stress_inv x \<longleftrightarrow> cinv (sys x) \<and> total_errors x = 0 \<and> (\<forall>i. calm (threads (sys x) i)) \<and>
     (\<forall>i. \<forall>q \<in> set (pending (todo x i)). request_ok (md_array_size (drv (sys x))) q) \<and>
     (\<forall>i. fits (md_array_size (drv (sys x))) (todo x i) (threads (sys x) i) (sessions (sys x) i))"

lemma calm_frame [simp]: "calm (forget i th) = calm th" "calm (unlist a th) = calm th"
  by (cases th; simp)+

lemma fits_frame [simp]: "fits n t (forget i th) s = fits n t th s" "fits n t (unlist a th) s = fits n t th s"
  by (cases t; cases th; simp)+

text \<open>What a step of a thread has to show: the thread itself is as the invariant says.\<close>

lemma stress_cstep:
  assumes x: "stress_inv x" and step: "cstep (sys x) i r"
    and mine: "\<And>c'. r = Inr c' \<Longrightarrow>
      calm (threads c' i) \<and> fits (md_array_size (drv (sys x))) t (threads c' i) (sessions c' i)"
    and t: "set (pending t) \<subseteq> set (pending (todo x i))"
  shows "\<exists>x'. worker_calls i t r x = Inr x' \<and> stress_inv x'"
proof -
  have c: "cinv (sys x)" using x by (simp add: stress_inv_def)
  obtain c' where c': "r = Inr c'" "cinv c'" using cstep_ok [OF step c] by blast
  note st = step [unfolded c'(1)] and n = cstep_size [OF c step [unfolded c'(1)]]
  have "calm (threads c' j)" for j
    using step_frame [OF c st, of j] mine [OF c'(1)] x by (cases "j = i") (auto simp: stress_inv_def)
  moreover have "\<forall>q \<in> set (pending (((todo x)(i := t)) j)). request_ok (md_array_size (drv c')) q" for j
    using x t n by (auto simp: stress_inv_def)
  moreover have "fits (md_array_size (drv c')) (((todo x)(i := t)) j) (threads c' j) (sessions c' j)" for j
    using step_frame [OF c st, of j] other_sessions [OF st, of j] mine [OF c'(1)] x n
    by (cases "j = i") (auto simp: stress_inv_def)
  ultimately show ?thesis using c' x by (simp add: stress_inv_def worker_calls_def)
qed

lemma takes_reply_inv:
  assumes x: "stress_inv x" and th: "finished (threads (sys x) i)"
    and t: "fits (md_array_size (drv (sys x))) t Idle (sessions (sys x) i)" "set (pending t) \<subseteq> set (pending (todo x i))"
  shows "stress_inv (takes_reply i t False x)"
proof -
  have "cstep (sys x) i (Inr (move i Idle (sys x)))"
    using th cstep.step_return cstep.step_file_return by (cases "threads (sys x) i") auto
  from stress_cstep [OF x this, of t] t show ?thesis by (simp add: worker_calls_def takes_reply_def)
qed

section \<open>System calls\<close>

lemma calls_inside:
  assumes c: "cinv c" and step: "cstep c i (Inr c')" and calm: "calm (threads c i)"
    and th: "threads c i \<noteq> Idle" "\<not> reads_step (threads c i)"
  shows "calm (threads c' i) \<and> \<not> reads_step (threads c' i)"
  using step
proof (cases rule: cstep_cases)
  case (put_lock env source b e m)
  show ?thesis
    using c put_lock(1,2) by (cases rule: put_lock_cases) (use put_lock(3) in auto)
next
  case (inv_lock br offset)
  show ?thesis
    using c inv_lock(1,2) by (cases rule: inv_lock_cases) (use inv_lock calm in \<open>auto split: if_splits\<close>)
next
  case (walk env offset sz p M)
  then show ?thesis
    using calm by (auto simp: get_walk_def andThen_eq_Inr leave_def split: option.splits if_splits)
next
  case (read env offset sz el)
  then show ?thesis
    using calm by (auto simp: get_read_def get_copy_def Let_def andThen_eq_Inr leave_def split: if_splits)
qed (use th in \<open>auto simp: file_step_def put_unlock_def inv_wait_def inv_free_def andThen_eq_Inr Let_def\<close>)

lemma put_call_calm:
  assumes "cinv c" "length source \<le> 4086" "put_env_error env = None" "put_call i env source c = Inr c'"
  shows "calm (threads c' i) \<and> \<not> reads_step (threads c' i)"
  using assms cinv_shape [OF assms(1)]
  by (auto simp: put_call_def put_enter_def put_env_error_def kzalloc_def Let_def layout_consts split: option.splits if_splits)

lemma next_request:
  assumes "stress_inv x" "todo x i = Calls (q # qs)"
  shows "cinv (sys x)" "request_ok (md_array_size (drv (sys x))) q" "set (pending (Calls qs)) \<subseteq> set (pending (todo x i))"
proof -
  show "cinv (sys x)" using assms(1) by (simp add: stress_inv_def)
  have "\<forall>q \<in> set (pending (todo x i)). request_ok (md_array_size (drv (sys x))) q" using assms(1) by (simp add: stress_inv_def)
  then show "request_ok (md_array_size (drv (sys x))) q" by (simp add: assms(2))
  show "set (pending (Calls qs)) \<subseteq> set (pending (todo x i))" by (auto simp: assms(2))
qed

section \<open>The reader\<close>

lemma reader_clamp:
  assumes n: "n \<le> 1000" and pos: "reader_pos n pos"
    and r: "read_clamp (word_of_nat (n * 4096)) pos 4086 = Some (off, offset, len)"
  obtains k where "k < 1000" "pos = 0 \<and> k = 0 \<or> pos = file_pos k 0" "off = file_pos k 0" "offset = 10" "len = 4086"
proof -
  have F: "n * 4096 < 2 ^ 62" "n * 4096 mod 4096 = 0" "(4086 :: nat) < 2 ^ 63" using n by simp_all
  have "\<not> (word_of_nat (n * 4096) :: u64) \<le> pos + 8192" using r by (simp add: read_clamp_def split: if_splits)
  then have lt: "x + 8192 < n * 4096" if "pos = word_of_nat x" "x < 2 ^ 62" for x
    unfolding that(1) u64_numerals u64_arith using that(2) F(1) by (subst (asm) u64_order) simp_all
  have result: "off = word_of_nat (x + (10 - x mod 4096)) \<and> offset = 10 \<and> len = 4086"
    if x: "pos = word_of_nat x" "x < 2 ^ 62" "x mod 4096 \<le> 10" for x
  proof -
    have "(10 :: nat) = max (x mod 4096) 10" using x(3) by simp
    from read_clamp_nat [OF x(2) F(1,3) lt [OF x(1,2)] F(2) refl this] r show ?thesis
      by (simp add: x(1) del: of_nat_mult of_nat_add)
  qed
  consider "pos = 0" | k where "k < 1000" "pos = file_pos k 0" | "pos = word_of_nat (n * 4096)"
    using pos by (auto simp: reader_pos_def)
  then show thesis
  proof cases
    case 1
    then show thesis using result [of 0] by (intro that [of 0]) (simp_all add: file_pos_def)
  next
    case (2 k)
    then show thesis
      using result [of "k * 4096 + 10"] file_pos_mod(1) [of 0 k]
      by (intro that [of k]) (simp_all add: file_pos_def del: of_nat_add of_nat_mult)
  next
    case 3
    then show thesis using lt [of "n * 4096"] F(1) by simp
  qed
qed

text \<open>A thread inside a \<open>read\<close>, or after it, of which the kernel does not fail.\<close>

definition reads_calmly :: "nat \<Rightarrow> thread \<Rightarrow> session option \<Rightarrow> bool" where
  "reads_calmly n th s \<longleftrightarrow> calm th \<and> reads_step th \<and> (\<forall>r. th = FileDone r \<longrightarrow> (\<exists>b. r = Delivered b)) \<and> reader_session n s"

lemma reads_calmly_fits: "reads_calmly n th s \<Longrightarrow> calm th \<and> fits n (ReaderLoop (Suc k)) th s"
  by (simp add: reads_calmly_def)

lemma reads_calmly_reply:
  assumes "f_mode f = O_RDONLY" "reader_pos n off" "unat m \<le> 4086"
  shows "reads_calmly n (threads (read_reply i (Inr m, out) off f c) i) (sessions (read_reply i (Inr m, out) off f c) i)"
  using assms by (simp add: reads_calmly_def read_reply_def reader_session_def)

lemma file_end [simp]: "reader_pos (md_array_size s) (file_bytes s)"
  by (simp add: reader_pos_def file_bytes_def)

lemma read_call_calm:
  assumes c: "cinv c" and s: "sessions c i = Some f" "reader_session (md_array_size (drv c)) (Some f)" and env: "read_env_ok env"
    and r: "read_call i env STRESS_MSG_SIZE f c = Inr c'"
  shows "reads_calmly (md_array_size (drv c)) (threads c' i) (sessions c' i)"
proof -
  let ?n = "md_array_size (drv c)"
  have n: "?n \<le> 1000" using cinv_shape(4) [OF c] by (simp add: layout_consts)
  have f: "f_mode f = O_RDONLY" "reader_pos ?n (f_pos f)" using s(2) by (simp_all add: reader_session_def)
  show ?thesis
  proof (cases "read_clamp (file_bytes (drv c)) (f_pos f) STRESS_MSG_SIZE")
    case None
    then show ?thesis using r s f by (auto simp: read_call_def reads_calmly_def reader_session_def)
  next
    case (Some y)
    obtain off offset len where y: "read_clamp (word_of_nat (?n * 4096)) (f_pos f) 4086 = Some (off, offset, len)"
      using Some by (cases y) (simp add: file_bytes_def STRESS_MSG_SIZE_def BLK_SIZE_def del: of_nat_mult)
    have "offset = 10" "len = 4086" using reader_clamp [OF n f(2) y] by blast+
    then show ?thesis
      using y r s f env
      by (auto simp: read_call_def file_bytes_def STRESS_MSG_SIZE_def BLK_SIZE_def reads_calmly_def reader_session_def
          simp del: of_nat_mult)
  qed
qed

lemma elem_fits: "elem_ok el \<Longrightarrow> el_valid_bytes el \<le> 4086"
  by (simp add: elem_ok_def layout_consts word_le_nat_alt)

lemma read_walk_calm:
  assumes c: "cinv c" and th: "threads c i = RWalks rd p" "calm (RWalks rd p)"
    and s: "sessions c i = Some f" "reader_session (md_array_size (drv c)) (Some f)" and r: "read_walk i rd p f c = Inr c'"
  shows "reads_calmly (md_array_size (drv c)) (threads c' i) (sessions c' i)"
proof -
  let ?n = "md_array_size (drv c)"
  have f: "f_mode f = O_RDONLY" using s(2) by (simp add: reader_session_def)
  have v: "p = None \<or> p \<in> Some ` visible c i" using thread_okD [OF c th(1)] by simp
  show ?thesis
  proof (cases "nxt c p")
    case None
    then have "c' = read_reply i (Inr 0, []) (file_bytes (drv c)) f c"
      using r by (auto simp: read_walk_def andThen_eq_Inr)
    then show ?thesis using reads_calmly_reply [OF f, of ?n "file_bytes (drv c)" 0] by simp
  next
    case (Some a)
    have el: "el_valid_bytes (heap c a) \<le> 4086"
      using visible_elem_ok(1) [OF c visible_closed [OF c v Some]] by (rule elem_fits)
    obtain els blk off offset len where
      find: "read_find (live (drv c)) (private_data f) (rd_blk rd) (rd_off rd) (rd_offset rd) (rd_len rd) [heap c a] =
        Inr (els, blk, off, offset, len)" and
      c': "c' = move i (if els = [] then RWalks rd (Some a)
               else RFound (rd\<lparr>rd_blk := blk, rd_off := off, rd_offset := offset, rd_len := len\<rparr>) (heap c a)) c"
      using r Some by (auto simp: read_walk_def andThen_eq_Inr split: if_splits)
    have "offset = 10 \<and> el_valid_bytes (heap c a) \<le> len" if "els \<noteq> []"
      using find that th(2) el by (auto split: if_splits option.splits prod.splits)
    then show ?thesis using th(2) s by (simp add: c' reads_calmly_def)
  qed
qed

lemma read_block_calm:
  assumes "calm (RFound rd el)" "elem_ok el"
  shows "read_block (rd_env rd) el (rd_blk rd) (rd_off rd) (rd_offset rd) (rd_len rd) d =
     Inr (Inr (ucast (el_valid_bytes el),
       take (unat (el_valid_bytes el)) (drop 10 (d (unat (rd_blk rd + word_of_nat NUM_METADATA_BLKS))))))"
proof -
  have len: "rd_len rd = el_valid_bytes el" if "\<not> el_valid_bytes el < rd_len rd" using assms(1) that by simp
  have "10 + unat (el_valid_bytes el) \<le> 4096" using assms(2) by (simp add: elem_ok_def layout_consts)
  moreover have "unat (rd_offset rd) = 10" "rd_offset rd = 10" using assms(1) by simp_all
  moreover have "\<not> 10 + el_valid_bytes el < el_valid_bytes el + 10" by (simp add: add.commute)
  ultimately show ?thesis
    using assms(1) len
    by (cases "el_valid_bytes el < rd_len rd") (simp_all add: read_block_def read_env_ok_def Let_def DEFAULT_BLOCK_SIZE_def)
qed

lemma read_copy_calm:
  assumes c: "cinv c" and th: "threads c i = RFound rd el" "calm (RFound rd el)"
    and s: "sessions c i = Some f" "reader_session (md_array_size (drv c)) (Some f)" and r: "read_copy i rd el f c = Inr c'"
  obtains out where "c' = move i (RNext rd (ucast (el_valid_bytes el)) out el) c"
    "reads_calmly (md_array_size (drv c)) (threads c' i) (sessions c' i)"
proof -
  have "el_addr el \<in> visible c i" "heap c (el_addr el) = el" using thread_okD [OF c th(1)] by simp_all
  then have el: "elem_ok el" using visible_elem_ok(1) [OF c, of "el_addr el"] by simp
  obtain out where c': "c' = move i (RNext rd (ucast (el_valid_bytes el)) out el) c"
    using r read_block_calm [OF th(2) el] by (auto simp: read_copy_def)
  have "unat (el_valid_bytes el) \<le> 4086" using el by (simp add: elem_ok_def layout_consts)
  then have "unat (ucast (el_valid_bytes el) :: u32) \<le> 4086" by (subst unat_ucast_64_32) simp_all
  then show thesis using c' s by (intro that [OF c']) (simp add: reads_calmly_def)
qed

lemma small_ret:
  assumes "unat (ret :: u32) \<le> 4086"
  shows "unat (scast ret :: u64) = unat ret" "unat (if 0 < sint ret then scast ret else 0 :: u64) \<le> 4086"
  using unat_scast_nonneg [of ret] assms by simp_all

lemma read_advance_calm:
  assumes c: "cinv c" and th: "threads c i = RNext rd ret out el" "calm (RNext rd ret out el)"
    and s: "sessions c i = Some f" "reader_session (md_array_size (drv c)) (Some f)" and a: "fresh (drv c) b"
    and r: "read_advance i (Some b) rd ret out el f c = Inr c'"
  shows "reads_calmly (md_array_size (drv c)) (threads c' i) (sessions c' i)"
proof -
  let ?n = "md_array_size (drv c)"
  have f: "f_mode f = O_RDONLY" using s(2) by (simp add: reader_session_def)
  have v: "el_addr el \<in> visible c i" using thread_okD [OF c th(1)] by simp
  note ret = small_ret [of ret]
  show ?thesis
  proof (cases "nxt c (Some (el_addr el))")
    case None
    then have "c' = read_reply i (Inr (if 0 < sint ret then scast ret else 0), out) (file_bytes (drv c)) f c"
      using r by (auto simp: read_advance_def set_next_blk_def split: if_splits)
    then show ?thesis using reads_calmly_reply [OF f, of ?n "file_bytes (drv c)"] ret(2) th(2) by simp
  next
    case (Some x)
    have "x \<in> visible c i" using visible_closed [OF c _ Some, of i] v by simp
    then have x: "elem_ok (heap c x)" by (rule visible_elem_ok(1) [OF c])
    obtain g s' where c': "c' = read_reply i (Inr (scast ret), out) (ucast (ndx (heap c x) * 4096) + 10) g (c\<lparr>drv := s'\<rparr>)"
      and g: "g = f\<lparr>private_data := Some (b, el_nsec (heap c x))\<rparr>"
      using r Some by (auto simp: read_advance_def set_next_blk_def andThen_eq_Inr split: if_splits)
    have "reader_pos ?n (ucast (ndx (heap c x) * 4096) + 10)"
      using x pos_of_block [of "unat (ndx (heap c x))"] by (auto simp: reader_pos_def elem_ok_def)
    then show ?thesis using reads_calmly_reply [of g] f g ret(1) th(2) by (simp add: c')
  qed
qed

lemma open_call_calm:
  assumes "cinv c" "open_call i (Some a) O_RDONLY c = Inr c'"
  shows "threads c' i = FileDone (Opened (Inr ()))" "reader_session n (sessions c' i)"
  using assms cinv_shape(1) [OF assms(1)]
  by (auto simp: open_call_def bldms_open_def readable_def Let_def reader_session_def reader_pos_def)

lemma seek_call_calm:
  assumes c: "cinv c" and s: "sessions c i = Some f" "reader_session n (Some f)"
    and r: "seek_call i (Some a) 0 SEEK_SET f c = Inr c'"
  shows "\<exists>q. threads c' i = FileDone (Sought q)" "reader_session n (sessions c' i)"
proof -
  have "private_data f \<noteq> None" using descriptor_okD [OF c s(1)] s(2) by (auto simp: descriptor_ok_def reader_session_def readable_def)
  then show "\<exists>q. threads c' i = FileDone (Sought q)" "reader_session n (sessions c' i)"
    using r s(2) cinv_shape(1) [OF c]
    by (auto simp: seek_call_def bldms_llseek_def andThen_eq_Inr reader_session_def reader_pos_def)
qed

lemma close_call_calm: "close_call i f c = Inr c' \<Longrightarrow> \<exists>q. threads c' i = FileDone (Closed q)"
  by (auto simp: close_call_def andThen_eq_Inr)

section \<open>All steps\<close>

lemma stress_facts:
  assumes "stress_inv x"
  shows "cinv (sys x)" "\<And>i. calm (threads (sys x) i)"
    "\<And>i. fits (md_array_size (drv (sys x))) (todo x i) (threads (sys x) i) (sessions (sys x) i)"
  using assms by (simp_all add: stress_inv_def)

text \<open>A thread that reads is the reader, in one of its rounds.\<close>

lemma reader_task:
  assumes "fits n t th s" "reads_step th" "\<not> finished th"
  obtains k where "t = ReaderLoop (Suc k)" "reader_session n s"
proof -
  have "\<exists>k. t = ReaderLoop (Suc k)" "reader_session n s"
    using assms by (cases t; auto simp: gr0_conv_Suc)+
  then show thesis using that by blast
qed

lemma reader_inside:
  assumes x: "stress_inv x" and step: "cstep (sys x) i (Inr c')" and th: "reads_step (threads (sys x) i)" "\<not> finished (threads (sys x) i)"
    and not: "\<And>rd ret out el. threads (sys x) i \<noteq> RNext rd ret out el"
  shows "calm (threads c' i) \<and> fits (md_array_size (drv (sys x))) (todo x i) (threads c' i) (sessions c' i)"
proof -
  note f = stress_facts [OF x]
  obtain k where t: "todo x i = ReaderLoop (Suc k)" and s: "reader_session (md_array_size (drv (sys x))) (sessions (sys x) i)"
    by (rule reader_task [OF f(3) th])
  have "reads_calmly (md_array_size (drv (sys x))) (threads c' i) (sessions c' i)"
    using step
  proof (cases rule: cstep.cases)
    case (step_read_walk rd p g)
    then show ?thesis using read_walk_calm [OF f(1) step_read_walk(2) _ step_read_walk(3)] f(2) [of i] s by auto
  next
    case (step_read_copy rd el g)
    have "read_copy i rd el g (sys x) = Inr c'" "calm (RFound rd el)" using step_read_copy f(2) [of i] by simp_all
    with s step_read_copy(3) show ?thesis
      by (auto intro: read_copy_calm [OF f(1) step_read_copy(2) _ step_read_copy(3)])
  qed (use th not in auto)
  from reads_calmly_fits [OF this] show ?thesis by (simp add: t)
qed

lemma unused_Some [simp]: "unused (Some a) s = fresh s a"
  by (simp add: unused_def)

lemma reader_ready:
  assumes x: "stress_inv x" and s: "sessions (sys x) i = Some f"
    and t: "todo x i = ReaderLoop k \<or> todo x i = ReaderSeeks k" and th: "\<And>r. threads (sys x) i \<noteq> FileDone (Closed r)"
  shows "reader_session (md_array_size (drv (sys x))) (Some f)" "readable f"
  using stress_facts(3) [OF x, of i] s t th by (auto simp: reader_session_def readable_def)

lemma reader_after_ok:
  assumes calm: "calm (FileDone r)" and fit: "fits n t (FileDone r) s"
  shows "\<not> snd (reader_after r t)" "fits n (fst (reader_after r t)) Idle s" "pending (fst (reader_after r t)) = []"
proof -
  have "\<not> snd (reader_after r t) \<and> fits n (fst (reader_after r t)) Idle s \<and> pending (fst (reader_after r t)) = []"
  proof (cases r)
    case (Delivered b)
    then obtain m out where m: "b = Inr (m, out)" "unat m \<le> 4086" using calm by (auto split: sum.splits)
    obtain k where t: "t = ReaderLoop (Suc k)" "reader_session n s"
      using fit Delivered by (cases t) (auto simp: gr0_conv_Suc)
    have u: "unat (ucast m :: u32) \<le> 4086" using m(2) by (subst unat_ucast_64_32) simp_all
    obtain y where y: "unat (ucast m :: u32) = y" "uint (ucast m :: u32) = int y" by (rule u32_cases)
    have "\<not> sint (ucast m :: u32) < 0" using u unfolding sint_u32 y by simp
    then show ?thesis using Delivered m t by (simp add: Let_def)
  qed (use calm fit in \<open>cases t; auto\<close>)+
  then show "\<not> snd (reader_after r t)" "fits n (fst (reader_after r t)) Idle s" "pending (fst (reader_after r t)) = []"
    by simp_all
qed

lemma calls_fit: "calm th \<and> \<not> reads_step th \<Longrightarrow> calm th \<and> fits n (Calls qs) th s"
  by simp

text \<open>The longer cases of a step.\<close>

lemma call_get_inv:
  assumes x: "stress_inv x" and i: "threads (sys x) i = Idle" "todo x i = Calls (GetReq offset sz # qs)"
    and env: "call_ok (Get env offset sz) (drv (sys x))" "\<And>j. get_bread env j"
  shows "\<exists>x'. worker_calls i (Calls qs) (get_call i env offset sz (sys x)) x = Inr x' \<and> stress_inv x'"
proof -
  note q = next_request [OF x i(2)]
  have "calm (threads c' i) \<and> \<not> reads_step (threads c' i)" if "get_call i env offset sz (sys x) = Inr c'" for c'
    using that q(2) cinv_shape [OF q(1)] env(2) by (auto simp: get_call_def get_enter_def)
  then show ?thesis by (intro stress_cstep [OF x cstep.step_get [OF i(1) env(1)] _ q(3)] calls_fit)
qed

lemma call_read_inv:
  assumes x: "stress_inv x" and i: "threads (sys x) i = Idle" "todo x i = ReaderLoop (Suc k)" "sessions (sys x) i = Some f"
    and env: "read_env_ok env"
  shows "\<exists>x'. worker_calls i (ReaderLoop (Suc k)) (read_call i env STRESS_MSG_SIZE f (sys x)) x = Inr x' \<and> stress_inv x'"
proof -
  note c = stress_facts(1) [OF x] and s = reader_ready [OF x i(3), of "Suc k"]
  have "read_ok env STRESS_MSG_SIZE f"
    using s i env by (simp add: read_ok_def read_env_ok_def STRESS_MSG_SIZE_def BLK_SIZE_def)
  from cstep.step_read_call [OF i(1,3) this] show ?thesis
    using s i reads_calmly_fits [OF read_call_calm [OF c i(3) _ env]] by (intro stress_cstep [OF x]) simp_all
qed

lemma inside_inv:
  assumes x: "stress_inv x" and i: "threads (sys x) i \<noteq> Idle" "\<not> finished (threads (sys x) i)"
      "\<And>rd ret out el. threads (sys x) i \<noteq> RNext rd ret out el" "cstep (sys x) i r"
  shows "\<exists>x'. worker_calls i (todo x i) r x = Inr x' \<and> stress_inv x'"
proof (rule stress_cstep [OF x i(4) _ order_refl])
  fix c' assume c': "r = Inr c'"
  note step = i(4) [unfolded c'] and f = stress_facts [OF x]
  show "calm (threads c' i) \<and> fits (md_array_size (drv (sys x))) (todo x i) (threads c' i) (sessions c' i)"
  proof (cases "reads_step (threads (sys x) i)")
    case True
    show ?thesis by (rule reader_inside [OF x step True i(2,3)])
  next
    case False
    moreover have "\<exists>qs. todo x i = Calls qs" using f(3) [of i] False i(1) by (cases "todo x i") auto
    ultimately show ?thesis using calls_inside [OF f(1) step f(2) i(1)] by auto
  qed
qed

lemma inside_next_inv:
  assumes x: "stress_inv x" and i: "threads (sys x) i = RNext rd ret out el" "sessions (sys x) i = Some f" "fresh (drv (sys x)) a"
  shows "\<exists>x'. worker_calls i (todo x i) (read_advance i (Some a) rd ret out el f (sys x)) x = Inr x' \<and> stress_inv x'"
proof -
  note c = stress_facts [OF x]
  obtain k where t: "todo x i = ReaderLoop (Suc k)" and s: "reader_session (md_array_size (drv (sys x))) (sessions (sys x) i)"
    by (rule reader_task [OF c(3), of i]) (simp_all add: i(1))
  have "calm (RNext rd ret out el)" "reader_session (md_array_size (drv (sys x))) (Some f)"
    using c(2) [of i] s by (simp_all add: i)
  from cstep.step_read_next [OF i(1,2), of "Some a"] i(3) show ?thesis
    unfolding t
    using reads_calmly_fits [OF read_advance_calm [OF c(1) i(1) _ i(2) _ i(3)], where k = k]
      \<open>calm (RNext rd ret out el)\<close> \<open>reader_session _ (Some f)\<close>
    by (intro stress_cstep [OF x]) (simp_all add: t)
qed

lemma stress_step_inv:
  assumes x: "stress_inv x" and step: "stress_step x r"
  shows "\<exists>x'. r = Inr x' \<and> stress_inv x'"
  using step
proof (cases rule: stress_step.cases)
  case (call_put i source qs env)
  note q = next_request [OF x call_put(3)]
  show ?thesis
    unfolding call_put(1) using q(2) put_call_calm [OF q(1) _ call_put(5)]
    by (intro stress_cstep [OF x cstep.step_put [OF call_put(2,4)] _ q(3)] calls_fit) simp
next
  case (call_get i offset sz qs env)
  then show ?thesis using call_get_inv [OF x] by simp
next
  case (call_invalidate i offset qs)
  note q = next_request [OF x call_invalidate(3)]
  have "calm (threads c' i) \<and> \<not> reads_step (threads c' i)" if "inv_call i (\<lambda>_. True) offset (sys x) = Inr c'" for c'
    using that q(2) cinv_shape [OF q(1)] by (auto simp: inv_call_def inv_enter_def)
  then show ?thesis
    unfolding call_invalidate(1) by (intro stress_cstep [OF x cstep.step_inv [OF call_invalidate(2)] _ q(3)] calls_fit)
next
  case (call_open i a)
  have "sessions (sys x) i = None" using stress_facts(3) [OF x, of i] call_open(2,3) by simp
  from cstep.step_open [OF call_open(2) this, of "Some a"] call_open(4) show ?thesis
    unfolding call_open(1) using open_call_calm [OF stress_facts(1) [OF x]]
    by (intro stress_cstep [OF x]) (simp_all add: call_open(3))
next
  case (call_read i k f env)
  then show ?thesis using call_read_inv [OF x] by simp
next
  case (call_seek i k f a)
  note c = stress_facts(1) [OF x] and s = reader_ready [OF x call_seek(4), of k]
  from cstep.step_seek [OF call_seek(2,4), of "Some a" 0 SEEK_SET] call_seek(5) show ?thesis
    unfolding call_seek(1) using s call_seek seek_call_calm [OF c call_seek(4)]
    by (intro stress_cstep [OF x]) (simp, fastforce, simp)
next
  case (call_close i f)
  from cstep.step_close [OF call_close(2,4)] show ?thesis
    unfolding call_close(1) using close_call_calm [of i f "sys x"]
    by (intro stress_cstep [OF x]) (simp, fastforce, simp)
next
  case (inside i r')
  then show ?thesis using inside_inv [OF x] by simp
next
  case (inside_next i rd ret out el f a)
  then show ?thesis using inside_next_inv [OF x] by simp
next
  case (reply i r')
  have "\<not> unexpected r'" using stress_facts(2) [OF x, of i] reply(2) by simp
  moreover have "fits (md_array_size (drv (sys x))) (todo x i) Idle (sessions (sys x) i)"
    using stress_facts(3) [OF x, of i] reply(2) by (cases "todo x i") auto
  ultimately show ?thesis using reply(1) takes_reply_inv [OF x, of i] reply(2) by simp
next
  case (reply_file i r')
  note a = reader_after_ok [OF stress_facts(2,3) [OF x, of i, unfolded reply_file(2)]]
  then show ?thesis using reply_file(1) takes_reply_inv [OF x _ a(2)] reply_file(2) by simp
qed

section \<open>The workers' calls\<close>

lemma slot_request: "k < n \<Longrightarrow> n \<le> 1000 \<Longrightarrow> unat (scast (word_of_nat k :: u32) :: u64) < n"
  using unat_scast_nonneg [of "word_of_nat k"] by simp

lemma ucast_slot: "unat v < n \<Longrightarrow> n \<le> 1000 \<Longrightarrow> (ucast (v :: u64) :: u32) = word_of_nat (unat v)"
proof -
  assume v: "unat v < n" "n \<le> 1000"
  then have "unat (ucast v :: u32) = unat v" by (intro unat_ucast_64_32) simp
  then show "(ucast v :: u32) = word_of_nat (unat v)" by (metis of_nat_unat)
qed

lemma requests_in_range:
  assumes n: "n \<le> 1000" and q: "q \<in> set (requests (word_of_nat n) w)"
  shows "request_ok n q"
proof -
  have u: "unat (word_of_nat n :: u64) = n" using n by simp
  show ?thesis
  proof (cases w)
    case (Getter param)
    then obtain i where i: "i < n" "q = GetReq (if param mod 2 \<noteq> 0 then word_of_nat i
        else ucast (word_of_nat n - 1 - word_of_nat i :: u64)) STRESS_MSG_SIZE"
      using q by (auto simp: getter_def u)
    have "(word_of_nat n - 1 - word_of_nat i :: u64) = word_of_nat (n - 1 - i)" using i(1) by (simp add: of_nat_diff)
    then have "unat (word_of_nat n - 1 - word_of_nat i :: u64) = n - 1 - i" using n by simp
    then show ?thesis
      using i n slot_request [of i n] slot_request [of "n - 1 - i" n] ucast_slot [of "word_of_nat n - 1 - word_of_nat i" n] by auto
  next
    case (Writer param)
    then obtain v :: u64 where "q = PutReq (cstring (quotes ! unat (v mod word_of_nat NUM_MESSAGES)))"
      using q by (auto simp: writer_def)
    moreover have "unat (v mod word_of_nat NUM_MESSAGES) < NUM_MESSAGES" by (simp add: unat_mod NUM_MESSAGES_def)
    ultimately show ?thesis using quote_fits by simp
  next
    case (Invalidator param)
    then obtain i where i: "i < unat (word_of_nat n div 8 :: u64)" "q = InvReq (ucast ((param + word_of_nat i) mod word_of_nat n))"
      using q by (auto simp: invalidator_def)
    let ?v = "(param + word_of_nat i) mod word_of_nat n :: u64"
    have "0 < n" using i(1) by (cases "n = 0") simp_all
    then have v: "unat ?v < n" unfolding unat_mod u by (rule mod_less_divisor)
    show ?thesis unfolding i(2) ucast_slot [OF v n] request_ok.simps by (rule slot_request [OF v n])
  qed
qed

lemma stress_start_inv: "stress_start x \<Longrightarrow> stress_inv x"
proof -
  assume "stress_start x"
  then obtain tids s where s: "driver_ok s" "x = stress_spawn tids (file_bytes s) (conc_of s)" by (rule stress_start_spawned)
  have n: "md_array_size s \<le> 1000" using s(1) by (simp add: driver_ok_def shape_ok_def layout_consts)
  have "unat (file_bytes s div BLK_SIZE) = md_array_size s"
    using n by (simp add: unat_div file_bytes_def BLK_SIZE_def del: of_nat_mult)
  then have "file_bytes s div BLK_SIZE = word_of_nat (md_array_size s)" by (metis of_nat_unat ucast_id)
  moreover have "cinv (conc_of s)" using s(1) by (intro start_cinv) (auto simp: conc_start_def)
  ultimately show ?thesis
    using requests_in_range [OF n]
    by (auto simp: stress_inv_def s(2) stress_spawn_def conc_of_def spawned_def simp del: requests.simps)
qed

interpretation stress: safe_system stress_start stress_step stress_inv
  using stress_start_inv stress_step_inv by unfold_locales

end
