(* ===== verification/User_Example.thy ===== *)
theory User_Example
  imports Stress_Test Example
begin

text \<open>
  A kernel that never fails, and an empty device of \<open>n\<close> blocks, on which the client programs run.
\<close>

section \<open>A kernel\<close>

text \<open>An address above all that are in use.\<close>

definition next_addr :: "bldms \<Rightarrow> addr" where
  "next_addr s = Suc (Max (insert 0 (live s)))"

definition demo_kernel :: client where
  "demo_kernel = \<lparr>routine_of = [134 \<mapsto> PutData, 174 \<mapsto> GetData, 182 \<mapsto> InvalidateData], stray = (\<lambda>_ s. (Inl ENOSYS, s)),
     put_of = (\<lambda>s. demo_put (next_addr s) (Ktime 9)), get_of = (\<lambda>_. demo_get), inv_of = (\<lambda>_ _. True),
     open_of = (\<lambda>s. Some (next_addr s)), seek_of = (\<lambda>s. Some (next_addr s)),
     read_of = (\<lambda>s. \<lparr>read_bread = (\<lambda>_. True), to_user = (\<lambda>_. 0), ts_alloc = Some (next_addr s), uninit_ret = 0\<rparr>),
     put_data_nr = 0, get_data_nr = 0, invalidate_data_nr = 0\<rparr>"

definition demo_argv :: "string list" where
  "demo_argv = [''test'', ''the_file'', ''134'', ''174'', ''182'']"

lemma demo_numbers:
  "set_numbers demo_argv k = k\<lparr>put_data_nr := 134, get_data_nr := 174, invalidate_data_nr := 182\<rparr>"
  by (simp add: set_numbers_def demo_argv_def atol_def decimal_def isspace_def isdigit_def)

lemma next_addr_unused: "finite (live s) \<Longrightarrow> next_addr s + i \<notin> live s"
proof
  assume "finite (live s)" "next_addr s + i \<in> live s"
  then have "next_addr s + i \<le> Max (insert 0 (live s))" by simp
  then show False by (simp add: next_addr_def)
qed

lemma demo_kernel_ok: "kernel_ok (set_numbers demo_argv demo_kernel)"
proof -
  have "next_addr s \<notin> live s" "next_addr s + 1 \<notin> live s" "next_addr s + 2 \<notin> live s" if "finite (live s)" for s
    using next_addr_unused [OF that, of 0] next_addr_unused [OF that, of 1] next_addr_unused [OF that, of 2] by simp_all
  then show ?thesis
    by (simp add: demo_numbers kernel_ok_def reliable_def demo_kernel_def demo_put_def demo_get_def put_env_ok_def allocs_def put_env_error_def
        read_env_ok_def less_ktime_def)
qed

section \<open>An empty device\<close>

definition wide :: "nat \<Rightarrow> bldms" where
  "wide n = \<lparr>live = insert 1 {100..<100 + n}, rcu_write_lock = False, rcu_readers = 0, slept_locked = False,
     valid_blk_list = [], bldms_mounted = True,
     metadata_array = Some \<lparr>arr_addr = 1, arr_elems = map (\<lambda>i. \<lparr>md_addr = 100 + i, md_blk = zero_block\<rparr>) [0..<n]\<rparr>,
     md_array_size = n, last_written_block = 0, the_dev_superblock = True, disk = (\<lambda>_. replicate 4096 0)\<rparr>"

lemma wide_md: "md_objs (wide n) = map (\<lambda>i. \<lparr>md_addr = 100 + i, md_blk = zero_block\<rparr>) [0..<n]"
  "i < n \<Longrightarrow> md_at (wide n) i = zero_block"
  by (simp_all add: md_objs_def md_at_def wide_def)

lemma wide_ok: "n \<le> 1000 \<Longrightarrow> driver_ok (wide n)"
proof -
  assume n: "n \<le> 1000"
  have "shape_ok (wide n)" using n by (simp add: shape_ok_def wide_md) (simp add: wide_def layout_consts)
  moreover have "mem_ok (wide n)"
    by (auto simp: mem_ok_def owned_def wide_def comp_def distinct_map inj_on_def)
  moreover have "index_inv (wide n)"
    by (simp add: index_inv_def index_ok_def wide_md) (simp add: wide_def entry_ok_def list_lookup_def zero_block_def BLK_INVALID_def)
  moreover have "block_ok (replicate 4096 0) zero_block" using demo_blocks(2) by (simp add: demo_disk_def)
  then have "disk_inv (wide n)" by (simp add: disk_inv_def wide_md) (simp add: wide_def)
  ultimately show ?thesis by (simp add: driver_ok_def)
qed

lemma wide_messages: "messages (wide n) = Map.empty"
proof
  fix i show "messages (wide n) i = None"
    by (cases "i < n") (simp_all add: messages_def wide_md zero_block_def BLK_VALID_def BLK_INVALID_def)
qed

lemma wide_alive: "n \<le> 1000 \<Longrightarrow> alive n (wide n)" "stamped (wide n)" "free_slots (wide n) = {..<n}"
  using wide_ok [of n] by (auto simp: alive_def stamped_def free_slots_def wide_messages) (simp_all add: wide_def)

section \<open>The stress test\<close>

definition demo_stress :: stress where
  "demo_stress = stress_spawn (\<lambda>_. 1) (file_bytes demo) (conc_of demo)"

lemma demo_stress_start: "stress_start demo_stress"
  unfolding stress_start_def demo_stress_def
proof (intro exI conjI)
  show "driver_ok demo" "(5 :: int) \<le> 5" "fresh demo 6" by (simp_all add: demo_ok fresh_def demo_fields)
  then show "stress_main 5 (Some 6) (\<lambda>_. 1) demo = Inr (Inr (stress_spawn (\<lambda>_. 1) (file_bytes demo) (conc_of demo)))"
    by (rule stress_main_spawns)
qed

lemma demo_stress_step: "\<exists>x'. stress_step demo_stress (Inr x') \<and> threads (sys x') 0 = Walks demo_get 0 4086 None {5}"
proof -
  have "file_bytes demo div BLK_SIZE = 3" by (simp add: file_bytes_def demo_fields BLK_SIZE_def)
  then have todo: "todo demo_stress 0 = Calls (GetReq 0 4086 # tl (pending (todo demo_stress 0)))"
    by (simp add: demo_stress_def stress_spawn_def spawned_def NUM_SPAWNS_def READERS_def GETTERS_def getter_def upt_rec
        STRESS_MSG_SIZE_def BLK_SIZE_def)
  have sys: "sys demo_stress = conc_of demo" by (simp add: demo_stress_def stress_spawn_def)
  have idle: "threads (sys demo_stress) 0 = Idle" by (simp add: sys conc_of_def)
  have "get_call 0 demo_get 0 4086 (sys demo_stress) = Inr (move 0 (Walks demo_get 0 4086 None {5}) (conc_of demo))"
    by (simp add: get_call_def sys get_enter_def listed_def conc_of_def demo_def)
  with stress_step.call_get [OF idle todo, of demo_get] show ?thesis
    by (auto simp: demo_get_def worker_calls_def)
qed

end
