(* ===== verification/Stress_Ends.thy ===== *)
theory Stress_Ends
  imports Stress_Test
begin

text \<open>
  The stress test ends: every run of its threads, however they are interleaved, makes finitely many
  steps. A step of a call that is not a walk along the list uses up one of finitely many calls and
  their phases; between such steps the list does not change, and then a walk comes nearer to the
  end of the list, and a read brings the reader's session nearer to the last message.
\<close>

section \<open>Paths\<close>

text \<open>From every node that a reader can stand on, the links lead to the end of the list.\<close>

definition path_inv :: "conc \<Rightarrow> bool" where
  "path_inv c \<longleftrightarrow> (\<forall>i. \<forall>a \<in> visible c i. ends_at (nxt c) (Some a))"

lemma listed_ends: "cinv c \<Longrightarrow> a \<in> listed c \<Longrightarrow> ends_at (nxt c) (Some a)"
  using chain_suffix [of "nxt c" None "map el_addr (valid_blk_list (drv c))" a]
  by (simp add: cinv_def ptr_inv_def listed_def)

lemma path_inv_step:
  assumes c: "cinv c" "path_inv c" and step: "cstep c j (Inr c')"
  shows "path_inv c'"
proof -
  have c': "cinv c'" using cstep_ok [OF step c(1)] by simp
  have "ends_at (nxt c') (Some a)" if a: "a \<in> visible c i" for a i
  proof -
    have e: "ends_at (nxt c) (Some a)" using c(2) a by (auto simp: path_inv_def)
    from c(1) step show ?thesis
    proof (cases rule: link_cases)
      case (added e prev)
      have "prev = None \<or> prev \<in> Some ` visible c i" using added(3) by (auto simp: visible_def)
      then show ?thesis
        unfolding added(1) using a visible_closed [OF c(1)] by (intro ends_at_add [OF e _ added(2)]) blast+
    next
      case (deleted b prev)
      then show ?thesis unfolding deleted(1) by (intro ends_at_del [OF e])
    qed (use e in simp)
  qed
  then have "ends_at (nxt c') (Some a)" if "a \<in> visible c' i" for a i
    using visible_step [OF c(1) step that] listed_ends [OF c', of a] by blast
  then show ?thesis by (simp add: path_inv_def)
qed

text \<open>The elements a walk from \<open>p\<close> has before it.\<close>

definition path :: "conc \<Rightarrow> addr option \<Rightarrow> rcu_elem list" where
  "path c p = map (heap c) (THE ys. chain (nxt c) p ys)"

lemma path_chain: "chain (nxt c) p ys \<Longrightarrow> path c p = map (heap c) ys"
  unfolding path_def by (subst the_equality) (auto intro: chain_unique)

lemma path_end: "nxt c p = None \<Longrightarrow> path c p = []"
  using path_chain [of c p "[]"] by simp

lemma path_next:
  assumes "nxt c p = Some a" "ends_at (nxt c) (Some a)"
  shows "path c p = heap c a # path c (Some a)"
proof -
  obtain ys where "chain (nxt c) (Some a) ys" using assms(2) by (auto simp: ends_at_def)
  then show ?thesis using path_chain [of c p "a # ys"] path_chain [of c "Some a" ys] assms(1) by simp
qed

lemma path_list: "cinv c \<Longrightarrow> path c None = valid_blk_list (drv c)"
  using path_chain [of c None "map el_addr (valid_blk_list (drv c))"]
  by (simp add: cinv_def ptr_inv_def map_idI)

section \<open>What is left to do\<close>

text \<open>The phases of a call that are still to come, and those of all calls of a thread.\<close>

fun phase :: "thread \<Rightarrow> nat" where
  "phase (InvWaits br offset) = 4"
| "phase (PutWaits env source b e m) = 3"
| "phase (Walks env offset sz p M) = 3"
| "phase (Removed el S) = 3"
| "phase (PutWrote env source b e m t) = 2"
| "phase (Reads env offset sz el) = 2"
| "phase (Syncs el S W) = 2"
| "phase (Done r) = 1"
| "phase _ = 0"

fun calls_left :: "task \<Rightarrow> thread \<Rightarrow> nat" where
  "calls_left (Calls qs) th = 5 * length qs + phase th"
| "calls_left _ th = 0"

text \<open>
  The elements that the reader still has to read: those from the one that a search for the block
  and the timestamp finds.
\<close>

definition passes :: "u32 \<Rightarrow> ktime \<Rightarrow> rcu_elem \<Rightarrow> bool" where
  "passes blk ts el \<longleftrightarrow> ndx el \<noteq> blk \<and> \<not> ts < el_nsec el"

definition unread :: "conc \<Rightarrow> u32 \<Rightarrow> ktime \<Rightarrow> nat" where
  "unread c blk ts = length (dropWhile (passes blk ts) (valid_blk_list (drv c)))"

text \<open>
  The number of reads a session makes until one returns 0, from its position, and after an element
  or after a search.
\<close>

definition session_ts :: "session \<Rightarrow> ktime" where
  "session_ts f = snd (the (private_data f))"

definition reads_left :: "conc \<Rightarrow> session \<Rightarrow> nat" where
  "reads_left c f =
     (case read_clamp (file_bytes (drv c)) (f_pos f) STRESS_MSG_SIZE of
        None \<Rightarrow> 1
      | Some (off, offset, len) \<Rightarrow> Suc (unread c (word_of_int (sint off sdiv 4096)) (session_ts f)))"

definition reads_after :: "conc \<Rightarrow> rcu_elem \<Rightarrow> nat" where
  "reads_after c el =
     (case nxt c (Some (el_addr el)) of
        None \<Rightarrow> 1
      | Some a \<Rightarrow> Suc (unread c (ndx (heap c a)) (el_nsec (heap c a))))"

definition reads_found :: "conc \<Rightarrow> u32 \<Rightarrow> ktime \<Rightarrow> addr option \<Rightarrow> nat" where
  "reads_found c blk ts p = (case dropWhile (passes blk ts) (path c p) of [] \<Rightarrow> 0 | el # _ \<Rightarrow> reads_after c el)"

definition read_cost :: "conc \<Rightarrow> nat" where
  "read_cost c = length (valid_blk_list (drv c)) + 10"

definition round_cost :: "conc \<Rightarrow> nat" where
  "round_cost c = read_cost c * (length (valid_blk_list (drv c)) + 2) + 10"

fun round_left :: "conc \<Rightarrow> session \<Rightarrow> thread \<Rightarrow> nat" where
  "round_left c f (RWalks rd p) = read_cost c * reads_found c (rd_blk rd) (session_ts f) p + length (path c p) + 5"
| "round_left c f (RFound rd el) = read_cost c * reads_after c el + 4"
| "round_left c f (RNext rd ret out el) = read_cost c * reads_after c el + 3"
| "round_left c f (FileDone (Delivered (Inr (n, out)))) =
     (if (ucast n :: u32) = 0 then 0 else read_cost c * reads_left c f + 1)"
| "round_left c f th = read_cost c * reads_left c f"

fun reader_left :: "conc \<Rightarrow> task \<Rightarrow> thread \<Rightarrow> session \<Rightarrow> nat" where
  "reader_left c ReaderOpens th f = num_loops * round_cost c + (if th = Idle then 20 else 19)"
| "reader_left c (ReaderLoop 0) th f = (if th = Idle then 3 else 2)"
| "reader_left c (ReaderLoop (Suc k)) th f = k * round_cost c + 10 + round_left c f th"
| "reader_left c (ReaderSeeks k) th f = k * round_cost c + (if th = Idle then 9 else 8)"
| "reader_left c (Calls qs) th f = (case th of Walks env offset sz p M \<Rightarrow> length (path c p) | _ \<Rightarrow> 0)"

text \<open>These numbers depend on the list and on nothing else of the shared state.\<close>

definition same_list :: "conc \<Rightarrow> conc \<Rightarrow> bool" where
  "same_list c c' \<longleftrightarrow> valid_blk_list (drv c') = valid_blk_list (drv c) \<and> md_array_size (drv c') = md_array_size (drv c) \<and>
     nxt c' = nxt c \<and> heap c' = heap c"

lemma same_list_eqs:
  assumes "same_list c c'"
  shows "path c' = path c" "unread c' = unread c" "reads_left c' = reads_left c" "reads_after c' = reads_after c"
    "reads_found c' = reads_found c" "read_cost c' = read_cost c" "round_cost c' = round_cost c"
proof -
  note e = assms [unfolded same_list_def]
  show p: "path c' = path c" and u: "unread c' = unread c" by (intro ext, simp add: path_def unread_def e)+
  show r: "reads_after c' = reads_after c" by (intro ext) (simp add: reads_after_def u e split: option.split)
  show "reads_left c' = reads_left c" by (intro ext) (simp add: reads_left_def u e file_bytes_def split: option.split)
  show "reads_found c' = reads_found c" by (intro ext) (unfold reads_found_def p r, rule refl)
  show "read_cost c' = read_cost c" "round_cost c' = round_cost c" by (simp_all add: read_cost_def round_cost_def e)
qed

lemma same_list_left: "same_list c c' \<Longrightarrow> reader_left c' t th f = reader_left c t th f"
proof -
  assume "same_list c c'"
  note eqs = same_list_eqs [OF this]
  have "round_left c' f th = round_left c f th" by (cases "(c, f, th)" rule: round_left.cases) (simp_all add: eqs)
  then show ?thesis by (cases "(c, t, th, f)" rule: reader_left.cases) (simp_all add: eqs cong: thread.case_cong)
qed

lemma quiet_same_list: "quiet i c c' \<Longrightarrow> same_list c c'"
  by (auto simp: quiet_def same_list_def)

lemma left_frame [simp]:
  "calls_left t (forget i th) = calls_left t th" "calls_left t (unlist a th) = calls_left t th"
  "reader_left c t (forget i th) f = reader_left c t th f" "reader_left c t (unlist a th) f = reader_left c t th f"
proof -
  show "calls_left t (forget i th) = calls_left t th" "calls_left t (unlist a th) = calls_left t th"
    by (cases t; cases th; simp)+
  have "round_left c f (forget i th) = round_left c f th" "round_left c f (unlist a th) = round_left c f th"
    by (cases th; simp)+
  moreover have "forget i th = Idle \<longleftrightarrow> th = Idle" "unlist a th = Idle \<longleftrightarrow> th = Idle" by (cases th; simp)+
  moreover have "reader_left c (Calls qs) (forget i th) f = reader_left c (Calls qs) th f"
    "reader_left c (Calls qs) (unlist a th) f = reader_left c (Calls qs) th f" for qs
    by (cases th; simp)+
  ultimately show "reader_left c t (forget i th) f = reader_left c t th f" "reader_left c t (unlist a th) f = reader_left c t th f"
    by (cases "(c, t, th, f)" rule: reader_left.cases; simp)+
qed

section \<open>The reader comes nearer to the end\<close>

lemma unread_bound: "unread c blk ts \<le> length (valid_blk_list (drv c))"
  by (simp add: unread_def length_dropWhile_le)

lemma reads_left_bound: "reads_left c f \<le> length (valid_blk_list (drv c)) + 1"
  using unread_bound by (auto simp: reads_left_def split: option.split)

lemma reads_left_pos: "0 < reads_left c f"
  by (auto simp: reads_left_def split: option.split)

text \<open>The search for an element of the list, with its own timestamp, finds it.\<close>

lemma dropWhile_at:
  assumes "index_ok (pre @ y # rest)"
  shows "dropWhile (passes (ndx y) (el_nsec y)) (pre @ y # rest) = y # rest"
proof -
  have "passes (ndx y) (el_nsec y) x" if "x \<in> set pre" for x
    using assms that by (auto simp: index_ok_def passes_def sorted_append) (metis imageI)
  then have "dropWhile (passes (ndx y) (el_nsec y)) (pre @ y # rest) =
      dropWhile (passes (ndx y) (el_nsec y)) (y # rest)" by (simp add: dropWhile_append2)
  then show ?thesis by (simp add: passes_def)
qed

text \<open>A search of the whole list leaves as many reads as elements from the one it finds.\<close>

lemma reads_found_list:
  assumes c: "cinv c"
  shows "reads_found c blk ts None = unread c blk ts"
proof (cases "dropWhile (passes blk ts) (valid_blk_list (drv c))")
  case Nil
  show ?thesis unfolding reads_found_def unread_def path_list [OF c] Nil by simp
next
  case (Cons el rest)
  let ?pre = "takeWhile (passes blk ts) (valid_blk_list (drv c))"
  have xs: "valid_blk_list (drv c) = ?pre @ el # rest" using takeWhile_dropWhile_id [of "passes blk ts"] Cons by metis
  have ptr: "chain (nxt c) None (map el_addr (?pre @ el # rest))" "\<forall>x \<in> set (?pre @ el # rest). heap c (el_addr x) = x"
    using c xs by (simp_all add: cinv_def ptr_inv_def)
  have "reads_after c el = length (el # rest)"
  proof (cases rest)
    case Nil
    then show ?thesis using chain_nth [OF ptr(1)] by (simp add: reads_after_def)
  next
    case (Cons y ys)
    have "index_ok ((?pre @ [el]) @ y # ys)" using cinv_list(4) [OF c] xs Cons by simp
    from dropWhile_at [OF this] have "unread c (ndx y) (el_nsec y) = length (y # ys)"
      using xs Cons by (simp add: unread_def)
    moreover have "heap c (el_addr y) = y" using ptr(2) Cons by simp
    ultimately show ?thesis using chain_nth [OF ptr(1)] Cons by (simp add: reads_after_def)
  qed
  then show ?thesis using Cons by (simp add: reads_found_def unread_def path_list [OF c])
qed

text \<open>The position at the start of a block leaves the reads that a search for the block leaves.\<close>

lemma reads_left_end: "cinv c \<Longrightarrow> reads_left c (f\<lparr>f_pos := file_bytes (drv c)\<rparr>) = 1"
proof -
  assume c: "cinv c"
  have "md_array_size (drv c) \<le> 1000" using cinv_shape(4) [OF c] by (simp add: layout_consts)
  then have "file_bytes (drv c) \<le> file_bytes (drv c) + 8192"
    unfolding file_bytes_def u64_numerals u64_arith by (subst u64_order) simp_all
  then show ?thesis by (simp add: reads_left_def read_clamp_def)
qed

lemma reads_left_block:
  assumes c: "cinv c" and el: "elem_ok el"
  shows "reads_left c (g\<lparr>private_data := Some (b, el_nsec el), f_pos := ucast (ndx el * 4096) + 10\<rparr>) \<le>
     Suc (unread c (ndx el) (el_nsec el))"
proof -
  let ?n = "md_array_size (drv c)" and ?pos = "ucast (ndx el * 4096) + 10 :: u64"
  have k: "unat (ndx el) < 1000" using el by (simp add: elem_ok_def)
  then have pos: "?pos = file_pos (unat (ndx el)) 0" using pos_of_block [of "unat (ndx el)"] by simp
  have n: "?n \<le> 1000" using cinv_shape(4) [OF c] by (simp add: layout_consts)
  show ?thesis
  proof (cases "read_clamp (word_of_nat (?n * 4096)) ?pos 4086")
    case None
    then show ?thesis
      by (simp add: reads_left_def file_bytes_def STRESS_MSG_SIZE_def BLK_SIZE_def del: of_nat_mult)
  next
    case (Some y)
    obtain off offset len where y: "read_clamp (word_of_nat (?n * 4096)) ?pos 4086 = Some (off, offset, len)"
      using Some by (cases y) simp
    have "reader_pos ?n ?pos" using pos k by (auto simp: reader_pos_def)
    from reader_clamp [OF n this y] obtain j where j: "j < 1000" "?pos = 0 \<and> j = 0 \<or> ?pos = file_pos j 0" "off = file_pos j 0"
      by metis
    have "j = unat (ndx el)"
    proof -
      have "unat ?pos = unat (ndx el) * 4096 + 10" by (rule block_start [OF k])
      moreover have "unat (file_pos j 0) = j * 4096 + 10" using j(1) by (simp add: file_pos_def del: of_nat_add of_nat_mult)
      ultimately show ?thesis using j(2) by auto
    qed
    then have "(word_of_int (sint off sdiv 4096) :: u32) = ndx el" using file_pos_block [OF j(1), of 0] j(3) by simp
    then show ?thesis
      using y by (simp add: reads_left_def session_ts_def file_bytes_def STRESS_MSG_SIZE_def BLK_SIZE_def del: of_nat_mult)
  qed
qed

section \<open>Every step advances\<close>

definition advances :: "conc \<Rightarrow> task \<Rightarrow> conc \<Rightarrow> task \<Rightarrow> nat \<Rightarrow> bool" where
  "advances c t c' t' i \<longleftrightarrow>
     calls_left t' (threads c' i) < calls_left t (threads c i) \<or>
     calls_left t' (threads c' i) = calls_left t (threads c i) \<and> same_list c c' \<and>
     reader_left c t' (threads c' i) (the (sessions c' i)) < reader_left c t (threads c i) (the (sessions c i))"

lemma advances_reader:
  assumes "quiet i c c'" "calls_left t' (threads c' i) = calls_left t (threads c i)"
    "reader_left c t' (threads c' i) (the (sessions c' i)) < reader_left c t (threads c i) (the (sessions c i))"
  shows "advances c t c' t' i"
  using assms quiet_same_list by (auto simp: advances_def)

lemma reply_fields [simp]:
  "threads (read_reply i (Inr n, out) off f c) i = FileDone (Delivered (Inr (n, out)))"
  "sessions (read_reply i (Inr n, out) off f c) i = Some (f\<lparr>f_pos := off\<rparr>)"
  by (simp_all add: read_reply_def)

lemma read_call_advances:
  assumes c: "cinv c" and th: "threads c i = Idle" and s: "sessions c i = Some f"
    and r: "read_call i env STRESS_MSG_SIZE f c = Inr c'"
  shows "advances c (ReaderLoop (Suc k)) c' (ReaderLoop (Suc k)) i"
proof (rule advances_reader [OF file_steps_quiet(4) [OF r]])
  have "round_left c f (threads c' i) < round_left c f Idle"
  proof (cases "read_clamp (file_bytes (drv c)) (f_pos f) STRESS_MSG_SIZE")
    case None
    then have "threads c' i = FileDone (Delivered (Inr (0, [])))" using r by (auto simp: read_call_def)
    then show ?thesis using reads_left_pos [of c f] by (simp add: read_cost_def)
  next
    case (Some y)
    obtain off offset len where y: "read_clamp (file_bytes (drv c)) (f_pos f) STRESS_MSG_SIZE = Some (off, offset, len)"
      using Some by (cases y) simp
    then obtain rd where "threads c' i = RWalks rd None" "rd_blk rd = word_of_int (sint off sdiv 4096)"
      using r by (auto simp: read_call_def)
    then show ?thesis
      using y by (simp add: reads_left_def reads_found_list [OF c] path_list [OF c] read_cost_def)
  qed
  moreover have "sessions c' i = Some f" using r s by (auto simp: read_call_def split: option.splits)
  ultimately show "reader_left c (ReaderLoop (Suc k)) (threads c' i) (the (sessions c' i)) <
      reader_left c (ReaderLoop (Suc k)) (threads c i) (the (sessions c i))" by (simp add: th s)
qed simp

lemma read_find_passes:
  assumes "b \<in> lv" "read_find lv (Some (b, ts)) blk off offset len [el] = Inr (els, blk', off', offset', len')"
  shows "els = [] \<longleftrightarrow> passes blk ts el"
  using assms by (auto simp: passes_def split: if_splits)

lemma read_walk_advances:
  assumes c: "cinv c" "path_inv c" and th: "threads c i = RWalks rd p" and s: "sessions c i = Some f"
    and r: "read_walk i rd p f c = Inr c'"
  shows "advances c (ReaderLoop (Suc k)) c' (ReaderLoop (Suc k)) i"
proof (rule advances_reader [OF file_steps_quiet(5) [OF r]])
  have t: "p = None \<or> p \<in> Some ` visible c i" "reads_file c i" using thread_okD [OF c(1) th] by simp_all
  obtain b ts where f: "private_data f = Some (b, ts)" "b \<in> live (drv c)" by (rule reads_session [OF c(1) s t(2)])
  have "round_left c (the (sessions c' i)) (threads c' i) < round_left c f (RWalks rd p)"
  proof (cases "nxt c p")
    case None
    then have "c' = read_reply i (Inr 0, []) (file_bytes (drv c)) f c" using r by (auto simp: read_walk_def andThen_eq_Inr)
    then show ?thesis by simp
  next
    case (Some a)
    have a: "a \<in> visible c i" by (rule visible_closed [OF c(1) t(1) Some])
    then have pa: "path c p = heap c a # path c (Some a)" using c(2) by (intro path_next [OF Some]) (auto simp: path_inv_def)
    obtain els blk off offset len where
      find: "read_find (live (drv c)) (private_data f) (rd_blk rd) (rd_off rd) (rd_offset rd) (rd_len rd) [heap c a] =
        Inr (els, blk, off, offset, len)" and
      c': "c' = move i (if els = [] then RWalks rd (Some a)
               else RFound (rd\<lparr>rd_blk := blk, rd_off := off, rd_offset := offset, rd_len := len\<rparr>) (heap c a)) c"
      using r Some by (auto simp: read_walk_def andThen_eq_Inr split: if_splits)
    have "els = [] \<longleftrightarrow> passes (rd_blk rd) (session_ts f) (heap c a)"
      using read_find_passes [OF f(2) find [unfolded f(1)]] by (simp add: session_ts_def f(1))
    then show ?thesis using s by (simp add: c' reads_found_def pa)
  qed
  then show "reader_left c (ReaderLoop (Suc k)) (threads c' i) (the (sessions c' i)) <
      reader_left c (ReaderLoop (Suc k)) (threads c i) (the (sessions c i))" by (simp add: th s)
qed simp

lemma read_copy_advances:
  assumes c: "cinv c" and th: "threads c i = RFound rd el" "calm (RFound rd el)"
    and s: "sessions c i = Some f" "reader_session (md_array_size (drv c)) (Some f)" and r: "read_copy i rd el f c = Inr c'"
  shows "advances c (ReaderLoop (Suc k)) c' (ReaderLoop (Suc k)) i"
proof (rule advances_reader [OF file_steps_quiet(6) [OF r]])
  obtain out where "c' = move i (RNext rd (ucast (el_valid_bytes el)) out el) c"
    by (rule read_copy_calm [OF c th s r])
  then show "reader_left c (ReaderLoop (Suc k)) (threads c' i) (the (sessions c' i)) <
      reader_left c (ReaderLoop (Suc k)) (threads c i) (the (sessions c i))" by (simp add: th)
qed simp

lemma read_advance_advances:
  assumes c: "cinv c" and th: "threads c i = RNext rd ret out el" and s: "sessions c i = Some f"
    and r: "read_advance i (Some b) rd ret out el f c = Inr c'"
  shows "advances c (ReaderLoop (Suc k)) c' (ReaderLoop (Suc k)) i"
proof (rule advances_reader [OF file_steps_quiet(7) [OF r]])
  have v: "el_addr el \<in> visible c i" using thread_okD [OF c th] by simp
  have "\<exists>g n. threads c' i = FileDone (Delivered (Inr (n, out))) \<and> sessions c' i = Some g \<and> reads_left c g \<le> reads_after c el"
  proof (cases "nxt c (Some (el_addr el))")
    case None
    then have "c' = read_reply i (Inr (if 0 < sint ret then scast ret else 0), out) (file_bytes (drv c)) f c"
      using r by (auto simp: read_advance_def set_next_blk_def split: if_splits)
    then show ?thesis using None reads_left_end [OF c, of f] by (simp add: reads_after_def)
  next
    case (Some x)
    have "x \<in> visible c i" using visible_closed [OF c _ Some, of i] v by simp
    then have x: "elem_ok (heap c x)" by (rule visible_elem_ok(1) [OF c])
    obtain s' where "c' = read_reply i (Inr (scast ret), out) (ucast (ndx (heap c x) * 4096) + 10)
        (f\<lparr>private_data := Some (b, el_nsec (heap c x))\<rparr>) (c\<lparr>drv := s'\<rparr>)"
      using r Some by (auto simp: read_advance_def set_next_blk_def andThen_eq_Inr split: if_splits)
    then show ?thesis using Some reads_left_block [OF c x, where g = f and b = b] by (simp add: reads_after_def)
  qed
  then obtain g n where g: "threads c' i = FileDone (Delivered (Inr (n, out)))" "sessions c' i = Some g"
    "reads_left c g \<le> reads_after c el" by blast
  have "read_cost c * reads_left c g + 1 < read_cost c * reads_after c el + 3"
    using mult_le_mono2 [OF g(3), of "read_cost c"] by linarith
  then show "reader_left c (ReaderLoop (Suc k)) (threads c' i) (the (sessions c' i)) <
      reader_left c (ReaderLoop (Suc k)) (threads c i) (the (sessions c i))" by (simp add: th g(1,2))
qed simp

lemma loop_bound: "reader_left c (ReaderLoop k) Idle f < k * round_cost c + 8"
proof (cases k)
  case (Suc j)
  have "read_cost c * reads_left c f \<le> read_cost c * (length (valid_blk_list (drv c)) + 1)"
    by (intro mult_le_mono2 reads_left_bound)
  then have "read_cost c * reads_left c f + 2 < round_cost c" by (simp add: round_cost_def)
  then show ?thesis using Suc by simp
qed simp

lemma file_reply_advances:
  assumes calm: "calm (FileDone r)" and fit: "fits n t (FileDone r) (sessions c i)" and th: "threads c i = FileDone r"
  shows "advances c t (move i Idle c) (fst (reader_after r t)) i"
proof (rule advances_reader [OF quiet_move])
  let ?f = "the (sessions c i)"
  have "calls_left (fst (reader_after r t)) Idle = calls_left t (FileDone r) \<and>
      reader_left c (fst (reader_after r t)) Idle ?f < reader_left c t (FileDone r) ?f"
  proof (cases r)
    case (Opened q)
    then have "t = ReaderOpens" "\<not> isl q" using calm fit by (cases t; auto)+
    then show ?thesis using loop_bound [of c num_loops ?f] Opened by simp
  next
    case (Delivered b)
    then obtain m out where m: "b = Inr (m, out)" using calm by (auto split: sum.splits)
    obtain k where t: "t = ReaderLoop (Suc k)" using fit Delivered by (cases t) (auto simp: gr0_conv_Suc)
    then show ?thesis using Delivered m by (simp add: Let_def)
  next
    case (Sought q)
    then obtain k where "t = ReaderSeeks k" using fit by (cases t) auto
    then show ?thesis using loop_bound [of c k ?f] Sought by simp
  next
    case (Closed q)
    then have "t = ReaderLoop 0" using fit by (cases t) auto
    then show ?thesis using Closed by simp
  qed
  then show "calls_left (fst (reader_after r t)) (threads (move i Idle c) i) = calls_left t (threads c i)"
    "reader_left c (fst (reader_after r t)) (threads (move i Idle c) i) (the (sessions (move i Idle c) i)) <
     reader_left c t (threads c i) (the (sessions c i))" by (simp_all add: th)
qed simp

lemma phase_bound: "phase th < 5"
  by (cases th) simp_all

lemma call_advances: "threads c i = Idle \<Longrightarrow> advances c (Calls (q # qs)) c' (Calls qs) i"
  using phase_bound [of "threads c' i"] by (simp add: advances_def)

text \<open>Inside a system call, the phase moves on, or a walk moves one node on.\<close>

lemma walk_advances:
  assumes c: "cinv c" "path_inv c" and th: "threads c i = Walks env offset sz p M"
    and r: "get_walk i env offset sz p M c = Inr c'"
  shows "advances c (Calls qs) c' (Calls qs) i"
proof (cases "nxt c p")
  case None
  then have "c' = leave i (Done (Fetched (Inl ENODATA))) c" using r by (auto simp: get_walk_def andThen_eq_Inr)
  then show ?thesis using th by (simp add: advances_def)
next
  case (Some a)
  have "p = None \<or> p \<in> Some ` visible c i" using thread_okD [OF c(1) th] by simp
  then have a: "a \<in> visible c i" by (rule visible_closed [OF c(1) _ Some])
  then have pa: "path c p = heap c a # path c (Some a)" using c(2) by (intro path_next [OF Some]) (auto simp: path_inv_def)
  consider "c' = move i (Reads env offset sz (heap c a)) c" | "c' = move i (Walks env offset sz (Some a) M) c"
    using r Some by (auto simp: get_walk_def andThen_eq_Inr split: if_splits)
  then show ?thesis by cases (simp_all add: advances_def th pa same_list_def)
qed

lemma calls_advance:
  assumes c: "cinv c" "path_inv c" and step: "cstep c i (Inr c')" and th: "threads c i \<noteq> Idle" "\<not> reads_step (threads c i)"
  shows "advances c (Calls qs) c' (Calls qs) i"
  using step
proof (cases rule: cstep_cases)
  case (walk env offset sz p M)
  then show ?thesis by (rule walk_advances [OF c])
next
  case (put_lock env source b e m)
  show ?thesis
    using c(1) put_lock(1,2) by (cases rule: put_lock_cases) (use put_lock in \<open>auto simp: advances_def\<close>)
next
  case (inv_lock br offset)
  show ?thesis
    using c(1) inv_lock(1,2) by (cases rule: inv_lock_cases) (use inv_lock in \<open>auto simp: advances_def\<close>)
qed (use th in \<open>auto simp: advances_def file_step_def put_unlock_def get_read_def inv_wait_def inv_free_def andThen_eq_Inr
    Let_def\<close>)


lemma open_advances:
  assumes c: "cinv c" and th: "threads c i = Idle" and r: "open_call i (Some a) O_RDONLY c = Inr c'"
  shows "advances c ReaderOpens c' ReaderOpens i"
  using open_call_calm(1) [OF c r] by (intro advances_reader [OF file_steps_quiet(1) [OF r]]) (simp_all add: th)

lemma seek_advances:
  assumes c: "cinv c" and th: "threads c i = Idle" and s: "sessions c i = Some f" "reader_session n (Some f)"
    and r: "seek_call i (Some a) 0 SEEK_SET f c = Inr c'"
  shows "advances c (ReaderSeeks k) c' (ReaderSeeks k) i"
  using seek_call_calm(1) [OF c s r] by (intro advances_reader [OF file_steps_quiet(2) [OF r]]) (auto simp: th)

lemma close_advances:
  assumes th: "threads c i = Idle" and r: "close_call i f c = Inr c'"
  shows "advances c (ReaderLoop 0) c' (ReaderLoop 0) i"
  using close_call_calm [OF r] by (intro advances_reader [OF file_steps_quiet(3) [OF r]]) (auto simp: th)

section \<open>A turn of a thread\<close>

text \<open>Every step of the stress test is a step of one thread of the concurrent driver, and it advances.\<close>

definition turn :: "stress \<Rightarrow> nat \<Rightarrow> stress \<Rightarrow> bool" where
  "turn x i x' \<longleftrightarrow> cstep (sys x) i (Inr (sys x')) \<and> advances (sys x) (todo x i) (sys x') (todo x' i) i \<and>
     (\<forall>j. j \<noteq> i \<longrightarrow> todo x' j = todo x j)"

lemma worker_turn:
  assumes "worker_calls i t r x = Inr x'" "cstep (sys x) i r"
    "\<And>c'. r = Inr c' \<Longrightarrow> advances (sys x) (todo x i) c' t i"
  shows "turn x i x'"
  using assms by (auto simp: turn_def worker_calls_def andThen_eq_Inr)

lemma reader_turn:
  assumes x: "stress_inv x" "path_inv (sys x)" and step: "cstep (sys x) i (Inr c')"
    and th: "reads_step (threads (sys x) i)" "\<not> finished (threads (sys x) i)"
    and not: "\<And>rd ret out el. threads (sys x) i \<noteq> RNext rd ret out el"
  shows "advances (sys x) (todo x i) c' (todo x i) i"
proof -
  note f = stress_facts [OF x(1)]
  obtain k where t: "todo x i = ReaderLoop (Suc k)" and s: "reader_session (md_array_size (drv (sys x))) (sessions (sys x) i)"
    by (rule reader_task [OF f(3) th])
  have "advances (sys x) (ReaderLoop (Suc k)) c' (ReaderLoop (Suc k)) i"
    using step
  proof (cases rule: cstep.cases)
    case (step_read_walk rd p g)
    then show ?thesis by (intro read_walk_advances [OF f(1) x(2) step_read_walk(2,3)]) simp
  next
    case (step_read_copy rd el g)
    then show ?thesis using f(2) [of i] s by (intro read_copy_advances [OF f(1) step_read_copy(2) _ step_read_copy(3)]) simp_all
  qed (use th not in auto)
  then show ?thesis by (simp add: t)
qed

lemma inside_turn:
  assumes x: "stress_inv x" "path_inv (sys x)" and i: "threads (sys x) i \<noteq> Idle" "\<not> finished (threads (sys x) i)"
      "\<And>rd ret out el. threads (sys x) i \<noteq> RNext rd ret out el" "cstep (sys x) i r"
    and x': "Inr x' = worker_calls i (todo x i) r x"
  shows "turn x i x'"
proof (rule worker_turn [OF x' [symmetric] i(4)])
  fix c' assume c': "r = Inr c'"
  note step = i(4) [unfolded c'] and f = stress_facts [OF x(1)]
  show "advances (sys x) (todo x i) c' (todo x i) i"
  proof (cases "reads_step (threads (sys x) i)")
    case True
    show ?thesis by (rule reader_turn [OF x step True i(2,3)])
  next
    case False
    moreover have "\<exists>qs. todo x i = Calls qs" using f(3) [of i] False i(1) by (cases "todo x i") auto
    ultimately show ?thesis using calls_advance [OF f(1) x(2) step i(1)] by auto
  qed
qed

lemma stress_turn:
  assumes x: "stress_inv x" "path_inv (sys x)" and step: "stress_step x (Inr x')"
  shows "\<exists>i. turn x i x'"
  using step
proof (cases rule: stress_step.cases)
  case (call_put i source qs env)
  then show ?thesis by (intro exI [of _ i] worker_turn [OF _ cstep.step_put]) (auto intro: call_advances)
next
  case (call_get i offset sz qs env)
  then show ?thesis by (intro exI [of _ i] worker_turn [OF _ cstep.step_get]) (auto intro: call_advances)
next
  case (call_invalidate i offset qs)
  then show ?thesis by (intro exI [of _ i] worker_turn [OF _ cstep.step_inv]) (auto intro: call_advances)
next
  case (call_open i a)
  have "sessions (sys x) i = None" using stress_facts(3) [OF x(1), of i] call_open(2,3) by simp
  then show ?thesis
    using call_open open_advances [OF stress_facts(1) [OF x(1)] call_open(2), of a]
    by (intro exI [of _ i] worker_turn [OF call_open(1) [symmetric]] cstep.step_open) auto
next
  case (call_read i k f env)
  note s = reader_ready [OF x(1) call_read(4), of "Suc k"]
  have "read_ok env STRESS_MSG_SIZE f"
    using s call_read by (simp add: read_ok_def read_env_ok_def STRESS_MSG_SIZE_def BLK_SIZE_def)
  then show ?thesis
    using call_read read_call_advances [OF stress_facts(1) [OF x(1)] call_read(2,4), of env]
    by (intro exI [of _ i] worker_turn [OF call_read(1) [symmetric]] cstep.step_read_call) auto
next
  case (call_seek i k f a)
  note s = reader_ready [OF x(1) call_seek(4), of k]
  then show ?thesis
    using call_seek seek_advances [OF stress_facts(1) [OF x(1)] call_seek(2,4), of _ a]
    by (intro exI [of _ i] worker_turn [OF call_seek(1) [symmetric]] cstep.step_seek) auto
next
  case (call_close i f)
  then show ?thesis
    using close_advances [OF call_close(2), of f]
    by (intro exI [of _ i] worker_turn [OF call_close(1) [symmetric]] cstep.step_close) auto
next
  case (inside i r')
  then show ?thesis using inside_turn [OF x] by blast
next
  case (inside_next i rd ret out el f a)
  obtain k where t: "todo x i = ReaderLoop (Suc k)"
    by (rule reader_task [OF stress_facts(3) [OF x(1), of i]]) (simp_all add: inside_next(2))
  show ?thesis
    using inside_next read_advance_advances [OF stress_facts(1) [OF x(1)] inside_next(2,3)]
    by (intro exI [of _ i] worker_turn [OF inside_next(1) [symmetric]] cstep.step_read_next) (auto simp: t)
next
  case (reply i r')
  have "\<exists>qs. todo x i = Calls qs" using stress_facts(3) [OF x(1), of i] reply(2) by (cases "todo x i") auto
  then have "turn x i (takes_reply i (todo x i) (unexpected r') x)"
    using cstep.step_return [OF reply(2)] reply(2) by (auto simp: turn_def takes_reply_def advances_def)
  then show ?thesis using reply(1) by auto
next
  case (reply_file i r')
  then have "turn x i x'"
    using cstep.step_file_return [OF reply_file(2)] file_reply_advances [OF stress_facts(2,3) [OF x(1), of i, unfolded reply_file(2)] reply_file(2)]
    by (simp add: turn_def takes_reply_def)
  then show ?thesis ..
qed


section \<open>The measure\<close>

text \<open>Only the spawned threads run.\<close>

definition spawned_only :: "stress \<Rightarrow> bool" where
  "spawned_only x \<longleftrightarrow> (\<forall>i. NUM_SPAWNS \<le> i \<longrightarrow> todo x i = Calls [] \<and> threads (sys x) i = Idle)"

definition runs :: "stress \<Rightarrow> bool" where
  "runs x \<longleftrightarrow> stress_inv x \<and> path_inv (sys x) \<and> spawned_only x"

definition calls_total :: "stress \<Rightarrow> nat" where
  "calls_total x = (\<Sum>i < NUM_SPAWNS. calls_left (todo x i) (threads (sys x) i))"

definition steps_total :: "stress \<Rightarrow> nat" where
  "steps_total x = (\<Sum>i < NUM_SPAWNS. reader_left (sys x) (todo x i) (threads (sys x) i) (the (sessions (sys x) i)))"

lemma turn_spawned: "spawned_only x \<Longrightarrow> turn x i x' \<Longrightarrow> i < NUM_SPAWNS"
  by (rule ccontr) (auto simp: spawned_only_def turn_def advances_def)

lemma turn_others:
  assumes c: "cinv (sys x)" and t: "turn x i x'" and j: "j \<noteq> i"
  shows "calls_left (todo x' j) (threads (sys x') j) = calls_left (todo x j) (threads (sys x) j)"
    "same_list (sys x) (sys x') \<Longrightarrow>
     reader_left (sys x') (todo x' j) (threads (sys x') j) (the (sessions (sys x') j)) =
     reader_left (sys x) (todo x j) (threads (sys x) j) (the (sessions (sys x) j))"
proof -
  have step: "cstep (sys x) i (Inr (sys x'))" and todo: "todo x' j = todo x j" using t j by (simp_all add: turn_def)
  note fr = step_frame [OF c step j] other_sessions [OF step j]
  show "calls_left (todo x' j) (threads (sys x') j) = calls_left (todo x j) (threads (sys x) j)"
    using fr(1) by (auto simp: todo)
  assume "same_list (sys x) (sys x')"
  then show "reader_left (sys x') (todo x' j) (threads (sys x') j) (the (sessions (sys x') j)) =
     reader_left (sys x) (todo x j) (threads (sys x) j) (the (sessions (sys x) j))"
    using fr by (auto simp: todo same_list_left)
qed

lemma sum_one_less:
  fixes f :: "nat \<Rightarrow> nat"
  assumes "i < n" "f' i < f i" "\<And>j. j \<noteq> i \<Longrightarrow> f' j = f j"
  shows "(\<Sum>j < n. f' j) < (\<Sum>j < n. f j)"
  using assms by (intro sum_strict_mono_ex1) (auto, metis order.order_iff_strict)

lemma sum_one_same:
  fixes f :: "nat \<Rightarrow> nat"
  assumes "f' i = f i" "\<And>j. j \<noteq> i \<Longrightarrow> f' j = f j"
  shows "(\<Sum>j < n. f' j) = (\<Sum>j < n. f j)"
  using assms by (intro sum.cong) (auto, metis)

lemma turn_decreases:
  assumes x: "runs x" and t: "turn x i x'"
  shows "(x', x) \<in> measures [calls_total, steps_total]"
proof -
  have c: "cinv (sys x)" and i: "i < NUM_SPAWNS" using x turn_spawned [OF _ t] by (auto simp: runs_def stress_facts(1))
  note others = turn_others [OF c t]
  consider (calls) "calls_left (todo x' i) (threads (sys x') i) < calls_left (todo x i) (threads (sys x) i)"
    | (reads) "calls_left (todo x' i) (threads (sys x') i) = calls_left (todo x i) (threads (sys x) i)"
        "same_list (sys x) (sys x')"
        "reader_left (sys x) (todo x' i) (threads (sys x') i) (the (sessions (sys x') i)) <
         reader_left (sys x) (todo x i) (threads (sys x) i) (the (sessions (sys x) i))"
    using t by (auto simp: turn_def advances_def)
  then show ?thesis
  proof cases
    case calls
    then have "calls_total x' < calls_total x" unfolding calls_total_def by (intro sum_one_less [OF i]) (auto simp: others(1))
    then show ?thesis by simp
  next
    case reads
    have "calls_total x' = calls_total x"
      unfolding calls_total_def using reads(1) by (intro sum_one_same [where i = i]) (auto simp: others(1))
    moreover have "steps_total x' < steps_total x"
      unfolding steps_total_def using reads(3) others(2) [OF _ reads(2)]
      by (intro sum_one_less [OF i]) (simp_all add: same_list_left [OF reads(2)])
    ultimately show ?thesis by simp
  qed
qed

lemma runs_step:
  assumes x: "runs x" and step: "stress_step x (Inr x')"
  shows "runs x'" "(x', x) \<in> measures [calls_total, steps_total]"
proof -
  have inv: "stress_inv x" "path_inv (sys x)" "spawned_only x" using x by (simp_all add: runs_def)
  obtain i where t: "turn x i x'" using stress_turn [OF inv(1,2) step] by blast
  note c = stress_facts(1) [OF inv(1)]
  have cs: "cstep (sys x) i (Inr (sys x'))" and i: "i < NUM_SPAWNS" using t turn_spawned [OF inv(3) t] by (simp_all add: turn_def)
  have "spawned_only x'"
    unfolding spawned_only_def
  proof (intro allI impI)
    fix j assume j: "NUM_SPAWNS \<le> j"
    then have "j \<noteq> i" using i by simp
    then show "todo x' j = Calls [] \<and> threads (sys x') j = Idle"
      using step_frame [OF c cs, of j] t inv(3) j by (auto simp: turn_def spawned_only_def)
  qed
  then show "runs x'" using stress_step_inv [OF inv(1) step] path_inv_step [OF c inv(2) cs] by (simp add: runs_def)
  show "(x', x) \<in> measures [calls_total, steps_total]" by (rule turn_decreases [OF x t])
qed

lemma start_runs: "stress_start x \<Longrightarrow> runs x"
proof -
  assume x: "stress_start x"
  then obtain tids s where s: "x = stress_spawn tids (file_bytes s) (conc_of s)" by (rule stress_start_spawned)
  have th: "threads (sys x) i = Idle" for i by (simp add: s stress_spawn_def conc_of_def)
  note inv = stress_start_inv [OF x]
  have "path_inv (sys x)"
    using listed_ends [OF stress_facts(1) [OF inv]] by (auto simp: path_inv_def visible_def th)
  then show ?thesis using inv th by (simp add: runs_def spawned_only_def) (simp add: s stress_spawn_def)
qed


section \<open>The memory stays finite\<close>

lemma kfree_finite: "kfree a s = Inr s' \<Longrightarrow> finite (live s) \<Longrightarrow> finite (live s')"
  by (auto simp: kfree_def split: if_splits)

lemma kfree_all_finite: "kfree_all as s = Inr s' \<Longrightarrow> finite (live s) \<Longrightarrow> finite (live s')"
  by (induction as arbitrary: s) (auto simp: andThen_eq_Inr dest: kfree_finite)

lemma free_private_finite: "free_private f s = Inr s' \<Longrightarrow> finite (live s) \<Longrightarrow> finite (live s')"
  by (auto simp: free_private_def dest: kfree_finite split: option.splits)

lemma lock_live [simp]:
  "live (spin_unlock s) = live s" "live (rcu_read_unlock s) = live s" "live (rcu_read_lock s) = live s"
  "spin_lock s = Inr s' \<Longrightarrow> live s' = live s"
  by (auto simp: spin_unlock_def rcu_read_unlock_def rcu_read_lock_def spin_lock_def split: if_splits)

lemma set_next_blk_finite:
  "set_next_blk env n ret out rest off f s = Inr (r, pos, f', s') \<Longrightarrow> finite (live s) \<Longrightarrow> finite (live s')"
  by (auto simp: set_next_blk_def andThen_eq_Inr dest!: free_private_finite split: list.splits option.splits)

lemma read_reply_drv [simp]: "drv (read_reply i r off f c) = drv c"
  by (simp add: read_reply_def split: sum.split)

lemma calls_finite:
  "put_call i env source c = Inr c' \<Longrightarrow> finite (live (drv c)) \<Longrightarrow> finite (live (drv c'))"
  "put_unlock i env source b e m t c = Inr c' \<Longrightarrow> finite (live (drv c)) \<Longrightarrow> finite (live (drv c'))"
  "inv_free i el c = Inr c' \<Longrightarrow> finite (live (drv c)) \<Longrightarrow> finite (live (drv c'))"
  subgoal
    by (auto simp: put_call_def put_enter_def Let_def andThen_eq_Inr dest!: kfree_finite kfree_all_finite split: if_splits option.splits)
  subgoal
    by (auto simp: put_unlock_def put_publish_def add_valid_block_in_order_secure_def Let_def andThen_eq_Inr
        dest!: kfree_finite split: option.splits)
  subgoal by (auto simp: inv_free_def andThen_eq_Inr dest: kfree_finite)
  done

lemma file_finite:
  "open_call i alloc m c = Inr c' \<Longrightarrow> finite (live (drv c)) \<Longrightarrow> finite (live (drv c'))"
  "seek_call i alloc pos wh f c = Inr c' \<Longrightarrow> finite (live (drv c)) \<Longrightarrow> finite (live (drv c'))"
  "close_call i f c = Inr c' \<Longrightarrow> finite (live (drv c)) \<Longrightarrow> finite (live (drv c'))"
  "read_advance i alloc rd ret out el f c = Inr c' \<Longrightarrow> finite (live (drv c)) \<Longrightarrow> finite (live (drv c'))"
  by (auto simp: open_call_def bldms_open_def seek_call_def bldms_llseek_def close_call_def bldms_release_def
      read_advance_def Let_def andThen_eq_Inr
      dest!: free_private_finite set_next_blk_finite split: if_splits option.splits sum.splits)

lemma same_drv:
  "get_call i env offset sz c = Inr c' \<Longrightarrow> drv c' = drv c"
  "get_walk i env offset sz p M c = Inr c' \<Longrightarrow> drv c' = drv c"
  "get_read i env offset sz el c = Inr c' \<Longrightarrow> drv c' = drv c"
  "inv_call i br offset c = Inr c' \<Longrightarrow> drv c' = drv c"
  "inv_wait i el S c = Inr c' \<Longrightarrow> drv c' = drv c"
  "read_call i renv sz f c = Inr c' \<Longrightarrow> drv c' = drv c"
  "read_walk i rd p f c = Inr c' \<Longrightarrow> drv c' = drv c"
  "read_copy i rd el f c = Inr c' \<Longrightarrow> drv c' = drv c"
proof -
  show "read_copy i rd el f c = Inr c' \<Longrightarrow> drv c' = drv c"
    by (auto simp: read_copy_def andThen_eq_Inr) (simp split: sum.split)
qed (auto simp: get_call_def get_walk_def get_read_def inv_call_def inv_wait_def read_call_def read_walk_def
      andThen_eq_Inr split: if_splits option.splits)

lemma cstep_finite:
  assumes c: "cinv c" and step: "cstep c i (Inr c')" and fin: "finite (live (drv c))"
  shows "finite (live (drv c'))"
  using step
proof (cases rule: cstep.cases)
  case (step_put_lock env source b e m)
  show ?thesis
    using c step_put_lock(2,3) by (cases rule: put_lock_cases) (use step_put_lock(1) fin in auto)
next
  case (step_inv_lock br offset)
  show ?thesis
    using c step_inv_lock(2,3) by (cases rule: inv_lock_cases) (use step_inv_lock(1) fin in auto)
qed (use fin in \<open>auto dest!: calls_finite [OF sym] file_finite [OF sym] same_drv [OF sym]\<close>)


section \<open>Progress\<close>

lemma fresh_exists: "finite (live s) \<Longrightarrow> \<exists>a. fresh s a"
  using ex_new_if_finite [OF infinite_UNIV_nat] by (auto simp: fresh_def)

text \<open>A call that put_data can make: three objects that are not in use.\<close>

lemma put_can_start:
  assumes fin: "finite (live s)"
  shows "\<exists>env. call_ok (Put env source) s \<and> put_env_error env = None"
proof -
  obtain a where a: "a \<notin> live s" using ex_new_if_finite [OF infinite_UNIV_nat fin] by blast
  obtain b where b: "b \<notin> insert a (live s)" using ex_new_if_finite [OF infinite_UNIV_nat, of "insert a (live s)"] fin by blast
  obtain d where d: "d \<notin> {a, b} \<union> live s" using ex_new_if_finite [OF infinite_UNIV_nat, of "{a, b} \<union> live s"] fin by blast
  let ?env = "\<lparr>buffer_alloc = Some a, elem_alloc = Some b, md_alloc = Some d, not_copied = 0, now = Ktime 0, bread = \<lambda>_. True\<rparr>"
  have "call_ok (Put ?env source) s \<and> put_env_error ?env = None"
    using a b d by (auto simp: put_env_ok_def allocs_def put_env_error_def)
  then show ?thesis by blast
qed

lemma busy_stress_step:
  assumes x: "stress_inv x" and fin: "finite (live (drv (sys x)))" and i: "threads (sys x) i \<noteq> Idle"
  shows "\<exists>r. stress_step x r"
proof -
  note c = stress_facts(1) [OF x]
  obtain j c' where j: "threads (sys x) j \<noteq> Idle" and step: "cstep (sys x) j (Inr c')" using busy_can_step [OF c i] by blast
  note goes_on = exI [where P = "stress_step x", OF stress_step.inside [OF j _ _ step]]
  show ?thesis
  proof (cases "threads (sys x) j")
    case (RNext rd ret out el)
    then obtain f where "sessions (sys x) j = Some f" using thread_okD [OF c RNext] by (auto simp: reads_file_def)
    then show ?thesis using stress_step.inside_next [OF RNext] fresh_exists [OF fin] by blast
  next
    case (Done r)
    then show ?thesis using stress_step.reply by blast
  next
    case (FileDone r)
    then show ?thesis using stress_step.reply_file by blast
  qed (use j goes_on in auto)
qed

lemma idle_stress_step:
  assumes x: "stress_inv x" and fin: "finite (live (drv (sys x)))"
    and i: "threads (sys x) i = Idle" "todo x i \<noteq> Calls []"
  shows "\<exists>r. stress_step x r"
proof -
  note fit = stress_facts(3) [OF x, of i]
  obtain a where a: "fresh (drv (sys x)) a" using fresh_exists [OF fin] ..
  show ?thesis
  proof (cases "todo x i")
    case (Calls qs)
    then obtain q qs' where q: "todo x i = Calls (q # qs')" using i(2) by (cases qs) auto
    show ?thesis
    proof (cases q)
      case (PutReq source)
      then show ?thesis using stress_step.call_put [OF i(1) q [unfolded PutReq]] put_can_start [OF fin] by blast
    next
      case (GetReq offset sz)
      then show ?thesis
        using stress_step.call_get [OF i(1) q [unfolded GetReq], of "\<lparr>get_bread = \<lambda>_. True, uncopied = \<lambda>_. 0\<rparr>"] by auto
    next
      case (InvReq offset)
      then show ?thesis using stress_step.call_invalidate [OF i(1) q [unfolded InvReq]] by blast
    qed
  next
    case ReaderOpens
    then show ?thesis using stress_step.call_open [OF i(1) _ a] by blast
  next
    case (ReaderLoop k)
    then obtain f where f: "sessions (sys x) i = Some f" using fit i(1) by (auto simp: reader_session_def)
    have "read_env_ok \<lparr>read_bread = \<lambda>_. True, to_user = \<lambda>_. 0, ts_alloc = None, uninit_ret = 0\<rparr>"
      by (simp add: read_env_ok_def)
    then show ?thesis
      using stress_step.call_read [OF i(1) _ f] stress_step.call_close [OF i(1) _ f] ReaderLoop by (cases k) blast+
  next
    case (ReaderSeeks k)
    then obtain f where f: "sessions (sys x) i = Some f" using fit by (auto simp: reader_session_def)
    then show ?thesis using stress_step.call_seek [OF i(1) ReaderSeeks f a] by blast
  qed
qed

section \<open>Systems that come to an end\<close>

text \<open>
  A safe system whose steps go down a well-founded order, and which can make a step as long as it
  is not over, comes to its end whatever steps it makes.
\<close>

locale ending_system = safe_system start step inv
  for start :: "'s \<Rightarrow> bool" and step :: "'s \<Rightarrow> fault + 's \<Rightarrow> bool" and inv :: "'s \<Rightarrow> bool" +
  fixes order :: "('s \<times> 's) set"
    and over :: "'s \<Rightarrow> bool"
  assumes wf_order: "wf order"
    and step_down: "inv s \<Longrightarrow> step s (Inr s') \<Longrightarrow> (s', s) \<in> order"
    and progress: "inv s \<Longrightarrow> \<not> over s \<Longrightarrow> \<exists>r. step s r"
begin

lemma no_infinite_run: "start (trace 0) \<Longrightarrow> \<exists>n. \<not> step (trace n) (Inr (trace (Suc n)))"
proof (rule ccontr)
  assume s: "start (trace 0)" and "\<nexists>n. \<not> step (trace n) (Inr (trace (Suc n)))"
  then have trace: "step (trace n) (Inr (trace (Suc n)))" for n by blast
  have "reachable start step (trace n)" for n by (induction n) (use s trace in \<open>auto intro: reachable.intros\<close>)
  then have "(trace (Suc n), trace n) \<in> order" for n using reachable_inv trace step_down by blast
  then show False using wf_order by (auto simp: wf_iff_no_infinite_down_chain)
qed

lemma steps_until_over: "reachable start step s \<Longrightarrow> \<not> over s \<Longrightarrow> \<exists>s'. step s (Inr s')"
  using progress reachable_inv step_inv by metis

lemma can_end: "reachable start step s \<Longrightarrow> \<exists>s'. (\<lambda>s s'. step s (Inr s'))\<^sup>*\<^sup>* s s' \<and> over s'"
proof (induction s rule: wf_induct_rule [OF wf_order])
  case (1 s)
  show ?case
  proof (cases "over s")
    case False
    then obtain s' where s': "step s (Inr s')" using steps_until_over [OF 1(2)] by blast
    then have "(s', s) \<in> order" "reachable start step s'"
      using step_down reachable_inv [OF 1(2)] reach_step [OF 1(2)] by auto
    then show ?thesis using 1(1) converse_rtranclp_into_rtranclp [of "\<lambda>s s'. step s (Inr s')"] s' by metis
  qed blast
qed

end

definition stress_begins :: "stress \<Rightarrow> bool" where
  "stress_begins x \<longleftrightarrow> stress_start x \<and> finite (live (drv (sys x)))"

lemma runs_finite:
  assumes x: "runs x" "finite (live (drv (sys x)))" and step: "stress_step x (Inr x')"
  shows "finite (live (drv (sys x')))"
proof -
  have inv: "stress_inv x" "path_inv (sys x)" using x by (simp_all add: runs_def)
  obtain i where "turn x i x'" using stress_turn [OF inv step] by blast
  then show ?thesis using cstep_finite [OF stress_facts(1) [OF inv(1)] _ x(2)] by (auto simp: turn_def)
qed

lemma unjoined_step:
  assumes x: "stress_inv x" "finite (live (drv (sys x)))" and j: "\<not> joined x"
  shows "\<exists>r. stress_step x r"
proof -
  obtain i where "todo x i \<noteq> Calls [] \<or> threads (sys x) i \<noteq> Idle" using j by (auto simp: joined_def list_all_iff)
  then show ?thesis using busy_stress_step [OF x, of i] idle_stress_step [OF x, of i] by blast
qed

interpretation stress_ends: ending_system stress_begins stress_step "\<lambda>x. runs x \<and> finite (live (drv (sys x)))"
  "measures [calls_total, steps_total]" joined
proof unfold_locales
  fix x r assume x: "runs x \<and> finite (live (drv (sys x)))" and step: "stress_step x r"
  then obtain x' where "r = Inr x'" using stress_step_inv [of x r] by (auto simp: runs_def)
  with x step show "\<exists>x'. r = Inr x' \<and> runs x' \<and> finite (live (drv (sys x')))"
    using runs_step(1) [of x x'] runs_finite [of x x'] by auto
qed (use start_runs runs_step(2) unjoined_step in \<open>auto simp: stress_begins_def runs_def simp del: in_measures\<close>)

end
