(* ===== verification/Teardown.thy ===== *)
theory Teardown
  imports Concurrency_Spec
begin

text \<open>
  An unmount that overlaps system calls. The kernel unmounts a file system only when none of its
  files is open, but nothing keeps the callers of the system calls out: they may be at any point of
  their calls when \<open>bldms_fs_kill_sb\<close> shuts the superblock down and \<open>free_data_structures\<close> takes the lock,
  empties the list element by element and clears the globals. The unmount is cut into the steps
  that the callers can see and interleaved with theirs.
\<close>

section \<open>The steps of an unmount\<close>

text \<open>
  \<open>InUse\<close> is before the unmount, \<open>ShutDown\<close> after \<open>kill_block_super\<close> and before the lock is taken,
  \<open>Emptying\<close> inside \<open>free_data_structures\<close>, \<open>Gone\<close> after it. The unmount is made by a thread of its own,
  \<open>u\<close>, which is \<open>Removed\<close> and \<open>Syncs\<close> like a caller of \<open>invalidate_data\<close> while it waits for the readers
  of an element that it has taken out of the list.
\<close>

datatype stage = InUse | ShutDown | Emptying | Gone

record teardown =
  body :: conc
  stage :: stage

definition kill_lock :: "teardown \<Rightarrow> fault + teardown" where
  "kill_lock x =
     andThen (spin_lock (drv (body x))) (\<lambda>s. Inr (x\<lparr>body := (body x)\<lparr>drv := s\<rparr>, stage := Emptying\<rparr>))"

text \<open>The body of the loop: the element is unlinked,\<close>

definition kill_remove :: "nat \<Rightarrow> rcu_elem \<Rightarrow> teardown \<Rightarrow> fault + teardown" where
  "kill_remove u el x =
     (let c = body x; l = valid_blk_list (drv c); a = el_addr el in
      Inr (x\<lparr>body := move u (Removed el (readers c))
        (c\<lparr>drv := (drv c)\<lparr>valid_blk_list := remove1 el l\<rparr>,
           nxt := list_del_rcu a (prev_in None a (map el_addr l)) (nxt c),
           threads := (\<lambda>j. unlist a (threads c j))\<rparr>)\<rparr>))"

text \<open>a grace period is waited for, with the lock held,\<close>

definition kill_wait :: "nat \<Rightarrow> rcu_elem \<Rightarrow> nat set \<Rightarrow> teardown \<Rightarrow> fault + teardown" where
  "kill_wait u el S x =
     (let c = body x in
      Inr (x\<lparr>body := move u (Syncs el S (readers c)) (c\<lparr>drv := (drv c)\<lparr>slept_locked := True\<rparr>\<rparr>)\<rparr>))"

text \<open>
  and the element is freed. Its link, which leads to the next element, is read at once, while the
  freed memory still holds it.
\<close>

definition kill_free :: "nat \<Rightarrow> rcu_elem \<Rightarrow> teardown \<Rightarrow> fault + teardown" where
  "kill_free u el x =
     andThen (kfree (el_addr el) (drv (body x))) (\<lambda>s. Inr (x\<lparr>body := move u Idle ((body x)\<lparr>drv := s\<rparr>)\<rparr>))"

definition kill_finish :: "teardown \<Rightarrow> fault + teardown" where
  "kill_finish x =
     andThen (drop_structures (drv (body x))) (\<lambda>s. Inr (x\<lparr>body := (body x)\<lparr>drv := s\<rparr>, stage := Gone\<rparr>))"

text \<open>The callers go on, but no file operation starts: the file system is no longer reachable.\<close>

fun in_file :: "thread \<Rightarrow> bool" where
  "in_file (RWalks rd p) = True"
| "in_file (RFound rd el) = True"
| "in_file (RNext rd ret out el) = True"
| "in_file (FileDone r) = True"
| "in_file _ = False"

inductive teardown_step :: "nat \<Rightarrow> teardown \<Rightarrow> fault + teardown \<Rightarrow> bool" for u x where
  use: "stage x = InUse \<Longrightarrow> i \<noteq> u \<Longrightarrow> cstep (body x) i r \<Longrightarrow> teardown_step u x (map_sum id (\<lambda>c. x\<lparr>body := c\<rparr>) r)"
| call: "stage x \<noteq> InUse \<Longrightarrow> i \<noteq> u \<Longrightarrow> cstep (body x) i r \<Longrightarrow> (\<And>c'. r = Inr c' \<Longrightarrow> \<not> in_file (threads c' i)) \<Longrightarrow>
    teardown_step u x (map_sum id (\<lambda>c. x\<lparr>body := c\<rparr>) r)"
| shut: "stage x = InUse \<Longrightarrow> (\<forall>i. sessions (body x) i = None) \<Longrightarrow> teardown_step u x (Inr (x\<lparr>stage := ShutDown\<rparr>))"
| lock: "stage x = ShutDown \<Longrightarrow> \<not> rcu_write_lock (drv (body x)) \<Longrightarrow> teardown_step u x (kill_lock x)"
| remove: "stage x = Emptying \<Longrightarrow> threads (body x) u = Idle \<Longrightarrow> valid_blk_list (drv (body x)) = el # rest \<Longrightarrow>
    teardown_step u x (kill_remove u el x)"
| wait: "stage x = Emptying \<Longrightarrow> threads (body x) u = Removed el S \<Longrightarrow> teardown_step u x (kill_wait u el S x)"
| free: "stage x = Emptying \<Longrightarrow> threads (body x) u = Syncs el S {} \<Longrightarrow> teardown_step u x (kill_free u el x)"
| finish: "stage x = Emptying \<Longrightarrow> threads (body x) u = Idle \<Longrightarrow> valid_blk_list (drv (body x)) = [] \<Longrightarrow>
    teardown_step u x (kill_finish x)"

text \<open>The unmount starts on a concurrent system in which its thread has not been used.\<close>

definition teardown_start :: "teardown \<Rightarrow> bool" where
  "teardown_start x \<longleftrightarrow> stage x = InUse \<and> conc_start (body x)"

section \<open>A shadow of the system\<close>

text \<open>
  While the list is being emptied the metadata array still says that the messages are valid, and
  the lock is held by no caller. The shadow is a state in which the same elements have been
  taken out of the list by calls of \<open>invalidate_data\<close>; there the invariant of the concurrent system
  holds. It agrees with the system in all that a caller outside the lock looks at. \<open>X\<close> is the
  memory that the unmount has freed and the shadow still has.
\<close>

definition at_rest :: "thread \<Rightarrow> bool" where
  "at_rest th \<longleftrightarrow> th = Idle \<or> finished th"

definition same_place :: "thread \<Rightarrow> thread \<Rightarrow> bool" where
  "same_place th th' \<longleftrightarrow> th = th' \<or> at_rest th \<and> at_rest th'"

definition shadows :: "addr set \<Rightarrow> conc \<Rightarrow> conc \<Rightarrow> bool" where
  "shadows X g c \<longleftrightarrow> cinv g \<and> \<not> rcu_write_lock (drv g) \<and> nxt g = nxt c \<and> heap g = heap c \<and>
     (\<forall>i. sessions g i = None \<and> sessions c i = None) \<and> (\<forall>i. same_place (threads g i) (threads c i)) \<and>
     valid_blk_list (drv g) = valid_blk_list (drv c) \<and> live (drv c) = live (drv g) - X \<and>
     X \<subseteq> set (owned (drv g)) \<and> X \<inter> listed g = {}"

lemma at_rest_fields: "at_rest th \<Longrightarrow> held th = [] \<and> wrote th = None \<and> removed th = None \<and> \<not> in_section th \<and> thread_ok c i th"
  using finished_fields [of th] by (auto simp: at_rest_def)

lemma at_rest_simps [simp]: "at_rest Idle" "at_rest (Done r)" "at_rest (FileDone fr)"
  by (simp_all add: at_rest_def)

lemma at_rest_forget [simp]: "at_rest th \<Longrightarrow> forget i th = th" "at_rest th \<Longrightarrow> unlist a th = th"
  by (auto simp: at_rest_def elim: finished.elims)

lemma same_place_refl [simp]: "same_place th th"
  by (simp add: same_place_def)

lemma same_place_rest: "at_rest th \<Longrightarrow> at_rest th' \<Longrightarrow> same_place th th'"
  by (simp add: same_place_def)

lemma same_place_busy: "same_place th th' \<Longrightarrow> \<not> at_rest th' \<Longrightarrow> th = th'"
  by (auto simp: same_place_def)

lemma same_place_section: "same_place th th' \<Longrightarrow> in_section th = in_section th'" "same_place th th' \<Longrightarrow> removed th = removed th'"
  using at_rest_fields by (auto simp: same_place_def)

lemma same_place_forget: "same_place th th' \<Longrightarrow> same_place (forget i th) (forget i th')"
  "same_place th th' \<Longrightarrow> same_place (unlist a th) (unlist a th')"
  by (auto simp: same_place_def)

lemma cinv_rest: "cinv g \<Longrightarrow> at_rest (threads g i) \<Longrightarrow> at_rest th \<Longrightarrow> cinv (move i th g)"
  using at_rest_fields [of th] at_rest_fields [of "threads g i"]
  by (intro cinv_move) (auto simp: at_rest_def)

lemma shadow_readers: "shadows X g c \<Longrightarrow> readers g = readers c"
  using same_place_section(1) unfolding shadows_def readers_def by blast

lemma shadow_thread:
  assumes "shadows X g c" "\<not> at_rest (threads c i)"
  shows "threads g i = threads c i"
  using assms same_place_busy by (auto simp: shadows_def)

lemma shadow_move:
  "shadows X g c \<Longrightarrow> cinv (move i th g) \<Longrightarrow> same_place th th' \<Longrightarrow> shadows X (move i th g) (move i th' c)"
  by (simp add: shadows_def)

lemma shadow_leave:
  "shadows X g c \<Longrightarrow> cinv (leave i th g) \<Longrightarrow> same_place th th' \<Longrightarrow> shadows X (leave i th g) (leave i th' c)"
  by (simp add: shadows_def same_place_forget)

lemma shadow_live:
  assumes "shadows X g c" "cinv (g\<lparr>drv := (drv g)\<lparr>live := L\<rparr>\<rparr>)" "L' = L - X"
  shows "shadows X (g\<lparr>drv := (drv g)\<lparr>live := L\<rparr>\<rparr>) (c\<lparr>drv := (drv c)\<lparr>live := L'\<rparr>\<rparr>)"
  using assms unfolding shadows_def listed_def by (elim conjE, intro conjI) simp_all

text \<open>What a reader can reach is allocated in the system too.\<close>

lemma shadow_visible:
  assumes s: "shadows X g c" and a: "a \<in> visible g i"
  shows "a \<in> live (drv c)"
proof -
  have c: "cinv g" and X: "live (drv c) = live (drv g) - X" "X \<subseteq> set (owned (drv g))" "X \<inter> listed g = {}"
    using s by (simp_all add: shadows_def)
  have "a \<notin> X"
  proof (cases "a \<in> listed g")
    case False
    then obtain j el S where "removed (threads g j) = Some (el, S)" "a = el_addr el" using a by (auto simp: visible_def)
    then have "a \<in> foreign (settled g)" using removed_foreign [of g j el S] c by (simp add: cinv_def)
    then show ?thesis using X(2) by (auto simp: foreign_settled)
  qed (use X in blast)
  then show ?thesis using visible_live [OF c a] X(1) by simp
qed

section \<open>Callers that are past the lock or outside it\<close>

text \<open>
  A step inside a call, other than the acquisition of the lock, is the same step in the shadow. It
  touches no more of the driver's state than the allocated memory.
\<close>

fun stores :: "thread \<Rightarrow> bool" where
  "stores (Done (Stored (Inr t))) = True"
| "stores _ = False"

definition matched :: "addr set \<Rightarrow> nat \<Rightarrow> conc \<Rightarrow> conc \<Rightarrow> conc \<Rightarrow> bool" where
  "matched X i g c c' \<longleftrightarrow> (\<exists>g' L L'. shadows X g' c' \<and> drv c' = (drv c)\<lparr>live := L\<rparr> \<and> drv g' = (drv g)\<lparr>live := L'\<rparr> \<and>
     (\<forall>j. j \<noteq> i \<longrightarrow> threads c' j = threads c j \<or> threads c' j = forget i (threads c j))) \<and> \<not> stores (threads c' i)"

lemma matched_move:
  "shadows X g c \<Longrightarrow> cinv (move i th g) \<Longrightarrow> same_place th th' \<Longrightarrow> \<not> stores th' \<Longrightarrow> matched X i g c (move i th' c)"
  unfolding matched_def using shadow_move [of X g c i th th']
  by (intro conjI exI [of _ "move i th g"] exI [of _ "live (drv c)"] exI [of _ "live (drv g)"]) simp_all

lemma matched_leave:
  "shadows X g c \<Longrightarrow> cinv (leave i th g) \<Longrightarrow> same_place th th' \<Longrightarrow> \<not> stores th' \<Longrightarrow> matched X i g c (leave i th' c)"
  unfolding matched_def using shadow_leave [of X g c i th th']
  by (intro conjI exI [of _ "leave i th g"] exI [of _ "live (drv c)"] exI [of _ "live (drv g)"]) simp_all

lemma matched_walk:
  assumes s: "shadows X g c" and th: "threads c i = Walks env offset sz p M"
  shows "\<exists>c'. get_walk i env offset sz p M c = Inr c' \<and> matched X i g c c'"
proof -
  have g: "cinv g" and eq: "nxt g = nxt c" "heap g = heap c" using s by (simp_all add: shadows_def)
  have tg: "threads g i = Walks env offset sz p M" using shadow_thread [OF s, of i] th by (simp add: at_rest_def)
  obtain g' where g': "get_walk i env offset sz p M g = Inr g'" "cinv g'" using get_walk_ok [OF g tg] by blast
  have p: "p = None \<or> p \<in> Some ` visible g i" using thread_okD [OF g tg] by simp
  have live: "(case p of Some a \<Rightarrow> if a \<notin> live (drv c') then Inl (UseAfterFree a) else Inr () | None \<Rightarrow> Inr ()) = Inr ()"
    if "c' = c \<or> c' = g" for c'
    using p that shadow_visible [OF s] visible_live [OF g] by auto
  show ?thesis
  proof (cases "nxt c p")
    case None
    then have "g' = leave i (Done (Fetched (Inl ENODATA))) g" using g'(1) by (simp add: get_walk_def live eq)
    then show ?thesis using g'(2) matched_leave [OF s, of i "Done (Fetched (Inl ENODATA))"] None by (simp add: get_walk_def live)
  next
    case (Some a)
    have a: "a \<in> visible g i" using visible_closed [OF g p] Some eq by simp
    let ?th = "if ndx (heap c a) = offset then Reads env offset sz (heap c a) else Walks env offset sz (Some a) M"
    have "g' = move i ?th g" using g'(1) visible_live [OF g a] Some eq by (auto simp: get_walk_def live)
    moreover have "get_walk i env offset sz p M c = Inr (move i ?th c)"
      using shadow_visible [OF s a] Some by (auto simp: get_walk_def live)
    ultimately show ?thesis using g'(2) matched_move [OF s, of i ?th ?th] by simp
  qed
qed

lemma matched_read:
  assumes s: "shadows X g c" and th: "threads c i = Reads env offset sz el"
  shows "\<exists>c'. get_read i env offset sz el c = Inr c' \<and> matched X i g c c'"
proof -
  have g: "cinv g" using s by (simp add: shadows_def)
  have tg: "threads g i = Reads env offset sz el" using shadow_thread [OF s, of i] th by (simp add: at_rest_def)
  have "elem_ok el" using thread_okD [OF g tg] by simp
  then obtain r where r: "get_copy env offset sz el (drv c) = Inr r" using get_copy_total by blast
  have "cinv (leave i (Done (Fetched r)) g)" using cinv_leave [OF g, of i] tg by simp
  then show ?thesis using matched_leave [OF s] r by (simp add: get_read_def)
qed

lemma matched_wait:
  assumes s: "shadows X g c" and th: "threads c i = Removed el S"
  shows "\<exists>c'. inv_wait i el S c = Inr c' \<and> matched X i g c c'"
proof -
  have g: "cinv g" using s by (simp add: shadows_def)
  have tg: "threads g i = Removed el S" using shadow_thread [OF s, of i] th by (simp add: at_rest_def)
  have "cinv (move i (Syncs el S (readers c)) g)"
    using inv_wait_ok [OF g tg] shadow_readers [OF s] by (simp add: inv_wait_def)
  then show ?thesis using matched_move [OF s] by (simp add: inv_wait_def)
qed

lemma matched_free:
  assumes s: "shadows X g c" and th: "threads c i = Syncs el S {}"
  shows "\<exists>s'. kfree (el_addr el) (drv c) = Inr s' \<and> (\<forall>th. at_rest th \<and> \<not> stores th \<longrightarrow> matched X i g c (move i th (c\<lparr>drv := s'\<rparr>)))"
proof -
  have g: "cinv g" and X: "live (drv c) = live (drv g) - X" "X \<subseteq> set (owned (drv g))" using s by (simp_all add: shadows_def)
  have tg: "threads g i = Syncs el S {}" using shadow_thread [OF s, of i] th by (simp add: at_rest_def)
  have el: "el_addr el \<in> live (drv g)" "el_addr el \<notin> set (owned (drv g))" using held_facts(2) [OF g, of i] tg by simp_all
  define g' where "g' = move i (Done (Invalidated (Inr ()))) (g\<lparr>drv := (drv g)\<lparr>live := live (drv g) - {el_addr el}\<rparr>\<rparr>)"
  have "cinv g'" using inv_free_ok [OF g tg] el(1) by (simp add: inv_free_def g'_def)
  then have "matched X i g c (move i th (c\<lparr>drv := (drv c)\<lparr>live := live (drv c) - {el_addr el}\<rparr>\<rparr>))" if "at_rest th" "\<not> stores th" for th
    unfolding matched_def using s that X
    by (intro conjI exI [of _ g'] exI [of _ "live (drv c) - {el_addr el}"] exI [of _ "live (drv g) - {el_addr el}"])
      (auto simp: shadows_def g'_def listed_def same_place_rest)
  moreover have "el_addr el \<in> live (drv c)" using el X by auto
  ultimately show ?thesis by simp
qed

lemma matched_return:
  assumes s: "shadows X g c" and th: "at_rest (threads c i)" "at_rest th" "\<not> stores th"
  shows "matched X i g c (move i th c)"
proof -
  have "same_place (threads g i) (threads c i)" using s by (simp add: shadows_def)
  then have "at_rest (threads g i)" using th(1) by (auto simp: same_place_def)
  then show ?thesis using s th(2,3) cinv_rest [of g i th] matched_move [OF s, of i th th] by (simp add: shadows_def)
qed

lemma inside_step:
  assumes s: "shadows X g c" and step: "cstep c i r"
    and busy: "threads c i \<noteq> Idle" "\<nexists>env source b e m. threads c i = PutWaits env source b e m"
      "\<nexists>br offset. threads c i = InvWaits br offset"
  shows "\<exists>c'. r = Inr c' \<and> matched X i g c c'"
  using step
proof (cases rule: cstep.cases)
  case (step_put_unlock env source b e m t)
  then have "threads g i = PutWrote env source b e m t" using shadow_thread [OF s, of i] by (simp add: at_rest_def)
  then show ?thesis using unlocked(3) [of g i] s by (simp add: shadows_def)
next
  case (step_walk env offset sz p M)
  then show ?thesis using matched_walk [OF s step_walk(2)] by simp
next
  case (step_read env offset sz el)
  then show ?thesis using matched_read [OF s step_read(2)] by simp
next
  case (step_inv_wait el S)
  then show ?thesis using matched_wait [OF s step_inv_wait(2)] by simp
next
  case (step_inv_free el S)
  then show ?thesis using matched_free [OF s step_inv_free(2)] by (auto simp: inv_free_def)
qed (use busy s matched_return [OF s, of i Idle] in \<open>auto simp: shadows_def\<close>)

section \<open>The phases\<close>

definition emptying :: "conc \<Rightarrow> conc \<Rightarrow> bool" where
  "emptying g c \<longleftrightarrow> rcu_write_lock (drv c) \<and> bldms_mounted (drv c) \<and> the_dev_superblock (drv c) \<and>
     md_array_size (drv c) = md_array_size (drv g) \<and>
     map_option arr_addr (metadata_array (drv c)) = map_option arr_addr (metadata_array (drv g))"

definition cleared :: "bldms \<Rightarrow> bool" where
  "cleared s \<longleftrightarrow> \<not> bldms_mounted s \<and> \<not> the_dev_superblock s \<and> metadata_array s = None \<and> md_array_size s = 0 \<and>
     valid_blk_list s = [] \<and> \<not> rcu_write_lock s"

lemma put_ready_shadow: "shadows {} g c \<Longrightarrow> put_ready env source (drv c) b e m = put_ready env source (drv g) b e m"
  by (simp add: shadows_def put_ready_def)

lemma matched_enter:
  assumes s: "shadows {} g c" and e: "emptying g c" and th: "threads c i = Idle" and env: "call_ok (Put env source) (drv c)"
  shows "\<exists>c'. put_call i env source c = Inr c' \<and> matched {} i g c c'"
proof -
  have up: "bldms_mounted (drv c)" "the_dev_superblock (drv c)" "put_env_ok env (drv c)" using e env by (simp_all add: emptying_def)
  show ?thesis
  proof (rule put_enter_cases [OF up, of source])
    fix err assume "put_enter env source (drv c) = Inr (Inl err, drv c)"
    moreover have "matched {} i g c (move i (Done (Stored (Inl err))) c)" using matched_return [OF s] th by simp
    ultimately show ?thesis by (simp add: put_call_def)
  next
    fix b e' m assume r: "put_ready env source (drv c) b e' m"
      "put_enter env source (drv c) = Inr (Inr (b, e', m), (drv c)\<lparr>live := insert m (insert e' (insert b (live (drv c))))\<rparr>)"
    let ?th = "PutWaits env source b e' m" and ?L = "insert m (insert e' (insert b (live (drv c))))"
    have l: "live (drv g) = live (drv c)" and g: "cinv g" "same_place (threads g i) Idle"
      using s th by (auto simp: shadows_def dest: spec [of _ i])
    have "at_rest (threads g i)" using g(2) by (auto simp: same_place_def)
    then have "cinv (move i Idle g)" using g cinv_rest by simp
    moreover have "call_ok (Put env source) (drv (move i Idle g))" using env e l by (simp add: put_env_ok_def emptying_def)
    ultimately have "cinv (move i ?th ((move i Idle g)\<lparr>drv := (drv g)\<lparr>live := ?L\<rparr>\<rparr>))"
      using cinv_ready [of "move i Idle g" i env source b e' m] r(1) put_ready_shadow [OF s] l by simp
    then have "cinv (move i ?th (g\<lparr>drv := (drv g)\<lparr>live := ?L\<rparr>\<rparr>))" by (simp add: move_def)
    then have "matched {} i g c (move i ?th (c\<lparr>drv := (drv c)\<lparr>live := ?L\<rparr>\<rparr>))"
      unfolding matched_def using s l
      by (intro conjI exI [of _ "move i ?th (g\<lparr>drv := (drv g)\<lparr>live := ?L\<rparr>\<rparr>)"] exI [of _ ?L]) (auto simp: shadows_def)
    then show ?thesis by (simp add: put_call_def r)
  qed
qed

lemma matched_get_call:
  assumes s: "shadows {} g c" and e: "emptying g c" and th: "threads c i = Idle" and env: "call_ok (Get env offset sz) (drv c)"
  shows "\<exists>c'. get_call i env offset sz c = Inr c' \<and> matched {} i g c c'"
proof (cases "get_enter offset (drv c)")
  case (Inl err)
  then show ?thesis using matched_return [OF s, of i] th by (simp add: get_call_def)
next
  case (Inr x)
  have g: "cinv g" "at_rest (threads g i)" using s th by (auto simp: shadows_def same_place_def dest: spec [of _ i])
  have l: "listed g = listed c" using s by (simp add: shadows_def listed_def)
  have "cinv (move i Idle g)" using g cinv_rest by simp
  moreover have "get_enter offset (drv g) = Inr ()"
    using Inr e cinv_shape(1,2) [OF g(1)] by (auto simp: get_enter_def emptying_def split: if_splits)
  moreover have "call_ok (Get env offset sz) (drv (move i Idle g))" using env by simp
  ultimately have "cinv (move i (Walks env offset sz None (listed g)) (move i Idle g))"
    using get_call_ok [of "move i Idle g" i env offset sz] by (simp add: get_call_def)
  then have "cinv (move i (Walks env offset sz None (listed c)) g)" by (simp add: move_def l)
  then show ?thesis using matched_move [OF s] Inr by (simp add: get_call_def)
qed

lemma matched_inv_call:
  assumes s: "shadows {} g c" and e: "emptying g c" and th: "threads c i = Idle"
  shows "\<exists>c'. inv_call i br offset c = Inr c' \<and> matched {} i g c c'"
proof (cases "inv_enter offset (drv c)")
  case (Inl err)
  then show ?thesis using matched_return [OF s, of i] th by (simp add: inv_call_def)
next
  case (Inr x)
  have g: "cinv g" "at_rest (threads g i)" using s th by (auto simp: shadows_def same_place_def dest: spec [of _ i])
  have "cinv (move i (InvWaits br offset) g)"
    using g Inr e at_rest_fields [OF g(2)] by (intro cinv_move) (auto simp: inv_enter_def emptying_def split: if_splits)
  then show ?thesis using matched_move [OF s] Inr by (simp add: inv_call_def)
qed

lemma emptying_step:
  assumes s: "shadows {} g c" and e: "emptying g c" and step: "cstep c i r" and nf: "\<And>c'. r = Inr c' \<Longrightarrow> \<not> in_file (threads c' i)"
  shows "\<exists>c'. r = Inr c' \<and> matched {} i g c c'"
proof (cases "threads c i = Idle \<or> (\<exists>env source b e m. threads c i = PutWaits env source b e m) \<or>
    (\<exists>br offset. threads c i = InvWaits br offset)")
  case True
  show ?thesis
    using step
  proof (cases rule: cstep.cases)
    case (step_put env source)
    then show ?thesis using matched_enter [OF s e] by simp
  next
    case (step_get env offset sz)
    then show ?thesis using matched_get_call [OF s e] by simp
  next
    case (step_inv br offset)
    then show ?thesis using matched_inv_call [OF s e] by simp
  next
    case (step_open alloc m)
    then show ?thesis using nf by (auto simp: open_call_def Let_def split: prod.splits)
  qed (use True s e in \<open>auto simp: shadows_def emptying_def\<close>)
qed (use inside_step [OF s step] in blast)

lemma cleared_step:
  assumes s: "shadows X g c" and e: "cleared (drv c)" and step: "cstep c i r" and nf: "\<And>c'. r = Inr c' \<Longrightarrow> \<not> in_file (threads c' i)"
  shows "\<exists>c'. r = Inr c' \<and> matched X i g c c'"
proof (cases "threads c i = Idle \<or> (\<exists>env source b e m. threads c i = PutWaits env source b e m) \<or>
    (\<exists>br offset. threads c i = InvWaits br offset)")
  case True
  have g: "cinv g" and X: "live (drv c) = live (drv g) - X" "X \<subseteq> set (owned (drv g))" using s by (simp_all add: shadows_def)
  have same: "(drv c)\<lparr>rcu_write_lock := False\<rparr> = drv c" using e by (auto simp: cleared_def intro!: bldms.equality)
  show ?thesis
    using step
  proof (cases rule: cstep.cases)
    case (step_put_lock env source b e m)
    then have tg: "threads g i = PutWaits env source b e m" using shadow_thread [OF s, of i] by (simp add: at_rest_def)
    have mem: "distinct [e, b, m]" "set [e, b, m] \<subseteq> live (drv c)" using held_facts(1,2) [OF g, of i] tg X by auto
    let ?L = "live (drv c) - {e, b, m}" and ?Lg = "live (drv g) - {e, b, m}" and ?th = "Done (Stored (Inl ENOMEM))"
    have "find_target ((drv c)\<lparr>rcu_write_lock := True\<rparr>) = Inr None"
      using \<open>cleared (drv c)\<close> by (simp add: find_target_def cleared_def)
    then have "put_lock i env source b e m c = Inr (move i ?th (c\<lparr>drv := (drv c)\<lparr>live := ?L\<rparr>\<rparr>))"
      using step_put_lock kfree_all_live [OF mem]
      by (simp add: put_lock_def put_write_def spin_unlock_def same del: kfree_all.simps)
    moreover have "cinv ((move i ?th g)\<lparr>drv := (drv g)\<lparr>live := ?Lg\<rparr>\<rparr>)" by (rule cinv_discard [OF g tg])
    then have "matched X i g c (move i ?th (c\<lparr>drv := (drv c)\<lparr>live := ?L\<rparr>\<rparr>))"
      unfolding matched_def using s X
      by (intro conjI exI [of _ "(move i ?th g)\<lparr>drv := (drv g)\<lparr>live := ?Lg\<rparr>\<rparr>"] exI [of _ ?L] exI [of _ ?Lg])
        (auto simp: shadows_def listed_def)
    ultimately show ?thesis using step_put_lock by simp
  next
    case (step_inv_lock br offset)
    then have tg: "threads g i = InvWaits br offset" using shadow_thread [OF s, of i] by (simp add: at_rest_def)
    have "cinv (move i (Done (Invalidated (Inl ENODATA))) g)" using g tg by (intro cinv_move) simp_all
    moreover have "inv_lock i br offset c = Inr (move i (Done (Invalidated (Inl ENODATA))) c)"
      using step_inv_lock e same
      by (simp add: inv_lock_def invalidate_critical_def cleared_def spin_unlock_def list_lookup_def)
    ultimately show ?thesis using matched_move [OF s] step_inv_lock by simp
  next
    case (step_open alloc m)
    then show ?thesis using nf by (auto simp: open_call_def Let_def split: prod.splits)
  qed (use True s e matched_return [OF s, of i] in
      \<open>auto simp: shadows_def cleared_def put_call_def put_enter_def get_call_def get_enter_def inv_call_def inv_enter_def\<close>)
qed (use inside_step [OF s step] in blast)

section \<open>The steps of the unmount itself\<close>

lemma remove_shadow:
  assumes s: "shadows {} g c" and e: "emptying g c" and u: "threads c u = Idle" and l: "valid_blk_list (drv c) = el # rest"
    and x: "body x = c"
  shows "\<exists>y g'. kill_remove u el x = Inr y \<and> stage y = stage x \<and> shadows {} g' (body y) \<and> emptying g' (body y) \<and>
     threads (body y) u = Removed el (readers c) \<and> disk (drv (body y)) = disk (drv c)"
proof -
  have g: "cinv g" "\<not> rcu_write_lock (drv g)" "at_rest (threads g u)" and lg: "valid_blk_list (drv g) = el # rest"
    using s u l by (auto simp: shadows_def same_place_def dest: spec [of _ u])
  note ok = unlocked(4) [OF g(1,2)]
  define k where "k = unat (ndx el)"
  have k: "k < md_array_size (drv g)" "word_of_nat k = ndx el"
    using ok lg by (auto simp: driver_ok_def index_inv_def shape_ok_def k_def)
  have look: "list_lookup (valid_blk_list (drv g)) (word_of_nat k) = Some el"
    using vl.elems_lookup [OF cinv_list(4) [OF g(1)], of el] lg k(2) by simp
  let ?w = "InvWaits (\<lambda>_. True) (word_of_nat k)" and ?a = "el_addr el"
  let ?n = "list_del_rcu ?a (prev_in None ?a (map el_addr (valid_blk_list (drv c)))) (nxt c)"
  define g' where "g' = move u (Removed el (readers (move u ?w g)))
    ((move u ?w g)\<lparr>drv := (inval_result k el (drv g))\<lparr>live := live (drv g)\<rparr>, nxt := ?n,
       threads := (\<lambda>j. unlist ?a (threads (move u ?w g) j))\<rparr>)"
  define c' where "c' = move u (Removed el (readers c))
    (c\<lparr>drv := (drv c)\<lparr>valid_blk_list := rest\<rparr>, nxt := ?n, threads := (\<lambda>j. unlist ?a (threads c j))\<rparr>)"
  have "cinv (move u ?w g)" using g(1) at_rest_fields [OF g(3)] offset_in_range(2) [OF ok k(1)] by (intro cinv_move) auto
  from remove_ok [OF this, where i = u and k = k and el = el, unfolded unlinked_def] have "cinv g'"
    using k(1) g(2) look s by (simp add: g'_def shadows_def)
  moreover have "readers (move u ?w g) = readers c"
    using shadow_readers [OF s] at_rest_fields [OF g(3)] by (auto simp: readers_def)
  then have th: "threads g' = (\<lambda>j. unlist ?a (threads g j))(u := Removed el (readers c))" by (auto simp: g'_def)
  have f: "heap g' = heap g" "nxt g' = ?n" "sessions g' = sessions g" "live (drv g') = live (drv g)"
    "valid_blk_list (drv g') = rest" "rcu_write_lock (drv g') = rcu_write_lock (drv g)"
    "md_array_size (drv g') = md_array_size (drv g)"
    "map_option arr_addr (metadata_array (drv g')) = map_option arr_addr (metadata_array (drv g))"
    using look lg by (simp_all add: g'_def inval_result_def Let_def list_delete_def option.map_comp comp_def)
  ultimately have "shadows {} g' c'"
    using s g(2) unfolding shadows_def f th c'_def by (simp add: same_place_forget)
  moreover have "emptying g' c'" using e unfolding emptying_def f by (simp add: c'_def)
  moreover have "kill_remove u el x = Inr (x\<lparr>body := c'\<rparr>)" using x l by (simp add: kill_remove_def Let_def c'_def)
  moreover have "threads c' u = Removed el (readers c)" "disk (drv c') = disk (drv c)" by (simp_all add: c'_def)
  ultimately show ?thesis by (intro exI [of _ "x\<lparr>body := c'\<rparr>"] exI [of _ g']) simp
qed

lemma shadow_slept: "shadows X g c \<Longrightarrow> shadows X g (c\<lparr>drv := (drv c)\<lparr>slept_locked := b\<rparr>\<rparr>)"
  by (simp add: shadows_def)

lemma finish_shadow:
  assumes s: "shadows {} g c" and e: "emptying g c" and l: "valid_blk_list (drv c) = []" and x: "body x = c"
  shows "\<exists>y X. kill_finish x = Inr y \<and> stage y = Gone \<and> shadows X g (body y) \<and> cleared (drv (body y)) \<and>
     threads (body y) = threads c \<and> disk (drv (body y)) = disk (drv c)"
proof -
  have g: "cinv g" "\<not> rcu_write_lock (drv g)" "valid_blk_list (drv g) = []" "live (drv g) = live (drv c)"
    using s l by (simp_all add: shadows_def)
  from unlocked(4) [OF g(1,2)] obtain arr' where arr': "metadata_array (drv g) = Some arr'"
    by (auto simp: driver_ok_def shape_ok_def)
  then obtain arr where arr: "metadata_array (drv c) = Some arr" "arr_addr arr = arr_addr arr'"
    using e by (auto simp: emptying_def)
  have a: "arr_addr arr \<in> set (owned (drv g))" using arr(2) arr' by (simp add: owned_def)
  then have live: "arr_addr arr \<in> live (drv c)" using owned_live [OF g(1)] g(4) by auto
  let ?s = "spin_unlock ((drv c)\<lparr>live := live (drv c) - {arr_addr arr}, metadata_array := None, md_array_size := 0,
    the_dev_superblock := False, bldms_mounted := False\<rparr>)"
  have "kill_finish x = Inr (x\<lparr>body := c\<lparr>drv := ?s\<rparr>, stage := Gone\<rparr>)"
    using x arr(1) live by (simp add: kill_finish_def drop_structures_def)
  then show ?thesis
    using s l a g(3,4)
    by (intro exI [of _ "x\<lparr>body := c\<lparr>drv := ?s\<rparr>, stage := Gone\<rparr>"] exI [of _ "{arr_addr arr}"])
      (simp add: shadows_def cleared_def spin_unlock_def listed_def)
qed

section \<open>The invariant\<close>

definition paused :: "thread \<Rightarrow> bool" where
  "paused th \<longleftrightarrow> th = Idle \<or> removed th \<noteq> None"

definition teardown_inv :: "nat \<Rightarrow> teardown \<Rightarrow> bool" where
  "teardown_inv u x \<longleftrightarrow> (case stage x of
     InUse \<Rightarrow> cinv (body x) \<and> threads (body x) u = Idle
   | ShutDown \<Rightarrow> cinv (body x) \<and> threads (body x) u = Idle \<and> (\<forall>i. sessions (body x) i = None)
   | Emptying \<Rightarrow> (\<exists>g. shadows {} g (body x) \<and> emptying g (body x)) \<and> paused (threads (body x) u)
   | Gone \<Rightarrow> (\<exists>g X. shadows X g (body x)) \<and> cleared (drv (body x)) \<and> threads (body x) u = Idle)"

text \<open>What a step leaves alone once the lock has been taken.\<close>

definition settles :: "teardown \<Rightarrow> teardown \<Rightarrow> bool" where
  "settles x y \<longleftrightarrow> stage y \<in> {Emptying, Gone} \<and> disk (drv (body y)) = disk (drv (body x)) \<and>
     (\<forall>i. stores (threads (body y) i) \<longrightarrow> threads (body y) i = threads (body x) i)"

lemma start_teardown_inv: "teardown_start x \<Longrightarrow> teardown_inv u x"
  using start_cinv [of "body x"] by (auto simp: teardown_start_def teardown_inv_def conc_start_def conc_of_def)

lemma use_step_ok:
  assumes c: "cinv c" and step: "cstep c i r" and u: "i \<noteq> u" "threads c u = Idle"
  shows "\<exists>c'. r = Inr c' \<and> cinv c' \<and> threads c' u = Idle"
proof -
  obtain c' where c': "r = Inr c'" "cinv c'" using cstep_ok [OF step c] by blast
  then show ?thesis using step_frame [OF c, of i c' u] step u by auto
qed

lemma put_sessions:
  "put_call i env source c = Inr c' \<Longrightarrow> sessions c' = sessions c"
  "put_lock i env source b e m c = Inr c' \<Longrightarrow> sessions c' = sessions c"
  "put_unlock i env source b e m t c = Inr c' \<Longrightarrow> sessions c' = sessions c"
  "inv_lock i br offset c = Inr c' \<Longrightarrow> sessions c' = sessions c"
  by (auto simp: put_call_def put_lock_def put_unlock_def inv_lock_def andThen_eq_Inr Let_def) (auto simp: Let_def split: sum.split)

lemma quiet_sessions:
  assumes "cstep c i (Inr c')" "\<not> in_file (threads c' i)" "\<forall>j. sessions c j = None"
  shows "sessions c' = sessions c"
  using assms(1)
proof (cases rule: cstep.cases)
  case (step_open alloc m)
  then show ?thesis using assms(2) by (auto simp: open_call_def Let_def split: prod.splits)
qed (use assms(3) put_sessions in \<open>auto simp: get_call_def get_walk_def get_read_def
    inv_call_def inv_wait_def inv_free_def Inr_eq_andThen dest!: sym [of "Inr c'"] split: option.splits if_splits\<close>)

lemma matched_settles:
  assumes m: "matched X i g (body x) c'" and p: "stage x \<in> {Emptying, Gone}"
  shows "settles x (x\<lparr>body := c'\<rparr>)"
proof -
  have "threads c' j = threads (body x) j" if "stores (threads c' j)" for j
    using that m by (cases "j = i"; cases "threads (body x) j") (auto simp: matched_def)
  then show ?thesis using m p by (auto simp: settles_def matched_def)
qed

lemma matched_paused: "matched X i g c c' \<Longrightarrow> i \<noteq> u \<Longrightarrow> paused (threads c u) \<Longrightarrow> paused (threads c' u)"
  by (auto simp: matched_def paused_def)

lemma teardown_call_ok:
  assumes x: "teardown_inv u x" and p: "stage x \<in> {Emptying, Gone}" and i: "i \<noteq> u" and step: "cstep (body x) i r"
    and nf: "\<And>c'. r = Inr c' \<Longrightarrow> \<not> in_file (threads c' i)"
  shows "\<exists>c'. r = Inr c' \<and> teardown_inv u (x\<lparr>body := c'\<rparr>) \<and> settles x (x\<lparr>body := c'\<rparr>)"
proof (cases "stage x = Emptying")
  case True
  with x obtain g where g: "shadows {} g (body x)" "emptying g (body x)" "paused (threads (body x) u)"
    by (auto simp: teardown_inv_def)
  obtain c' where c': "r = Inr c'" "matched {} i g (body x) c'" using emptying_step [OF g(1,2) step nf] by blast
  then show ?thesis
    using matched_settles [OF c'(2) p] matched_paused [OF c'(2) i g(3)] g(2) True
    by (auto simp: teardown_inv_def matched_def emptying_def)
next
  case False
  with x p obtain g X where g: "shadows X g (body x)" "cleared (drv (body x))" "threads (body x) u = Idle"
    by (auto simp: teardown_inv_def)
  obtain c' where c': "r = Inr c'" "matched X i g (body x) c'" using cleared_step [OF g(1,2) step nf] by blast
  then show ?thesis
    using matched_settles [OF c'(2) p] g(2,3) i False p
    by (auto simp: teardown_inv_def matched_def cleared_def)
qed

lemma same_threads_settle:
  "disk (drv (body y)) = disk (drv (body x)) \<Longrightarrow> stage y \<in> {Emptying, Gone} \<Longrightarrow>
     (\<And>i. stores (threads (body y) i) \<Longrightarrow> threads (body y) i = threads (body x) i) \<Longrightarrow> settles x y"
  by (simp add: settles_def)

lemma kill_lock_ok:
  assumes x: "teardown_inv u x" and p: "stage x = ShutDown" and l: "\<not> rcu_write_lock (drv (body x))"
  shows "\<exists>y. kill_lock x = Inr y \<and> teardown_inv u y \<and> stage y = Emptying \<and> settles x y"
proof -
  have c: "cinv (body x)" "threads (body x) u = Idle" "\<forall>i. sessions (body x) i = None"
    using x p by (simp_all add: teardown_inv_def)
  define y where "y = x\<lparr>body := (body x)\<lparr>drv := (drv (body x))\<lparr>rcu_write_lock := True\<rparr>\<rparr>, stage := Emptying\<rparr>"
  have "shadows {} (body x) (body y)" "emptying (body x) (body y)"
    using c l cinv_shape(1,2) [OF c(1)] by (simp_all add: y_def shadows_def emptying_def)
  then have "teardown_inv u y" using c(2) by (auto simp: teardown_inv_def y_def paused_def)
  moreover have "settles x y" by (rule same_threads_settle) (simp_all add: y_def)
  ultimately show ?thesis using l by (auto simp: kill_lock_def y_def)
qed

lemma teardown_own_ok:
  assumes x: "teardown_inv u x" and p: "stage x = Emptying"
  shows "threads (body x) u = Idle \<Longrightarrow> valid_blk_list (drv (body x)) = el # rest \<Longrightarrow>
      \<exists>y. kill_remove u el x = Inr y \<and> teardown_inv u y \<and> settles x y"
    and "threads (body x) u = Removed el S \<Longrightarrow> \<exists>y. kill_wait u el S x = Inr y \<and> teardown_inv u y \<and> settles x y"
    and "threads (body x) u = Syncs el S {} \<Longrightarrow> \<exists>y. kill_free u el x = Inr y \<and> teardown_inv u y \<and> settles x y"
    and "threads (body x) u = Idle \<Longrightarrow> valid_blk_list (drv (body x)) = [] \<Longrightarrow>
      \<exists>y. kill_finish x = Inr y \<and> teardown_inv u y \<and> settles x y"
proof -
  from x p obtain g where g: "shadows {} g (body x)" "emptying g (body x)" by (auto simp: teardown_inv_def)
  note st = same_threads_settle [of _ x]
  {
    assume u: "threads (body x) u = Idle" and l: "valid_blk_list (drv (body x)) = el # rest"
    obtain y g' where y: "kill_remove u el x = Inr y" "stage y = stage x" "shadows {} g' (body y)" "emptying g' (body y)"
      "threads (body y) u = Removed el (readers (body x))" "disk (drv (body y)) = disk (drv (body x))"
      using remove_shadow [OF g u l refl] by blast
    have "threads (body y) i = threads (body x) i" if "stores (threads (body y) i)" for i
      using y(1,5) that by (cases "i = u"; cases "threads (body x) i") (auto simp: kill_remove_def Let_def)
    then have "settles x y" using st [of y] y p by simp
    then show "\<exists>y. kill_remove u el x = Inr y \<and> teardown_inv u y \<and> settles x y"
      using y p by (auto simp: teardown_inv_def paused_def)
  next
    assume u: "threads (body x) u = Removed el S"
    let ?c = "(body x)\<lparr>drv := (drv (body x))\<lparr>slept_locked := True\<rparr>\<rparr>"
    have "matched {} u g ?c (move u (Syncs el S (readers ?c)) ?c)"
      using matched_wait [OF shadow_slept [OF g(1)], where i = u and el = el and S = S] u by (simp add: inv_wait_def)
    then obtain g' L where "shadows {} g' (move u (Syncs el S (readers ?c)) ?c)" "drv g' = (drv g)\<lparr>live := L\<rparr>"
      by (auto simp: matched_def)
    moreover have "settles x (x\<lparr>body := move u (Syncs el S (readers ?c)) ?c\<rparr>)"
      using p by (intro st) (auto split: if_splits)
    ultimately show "\<exists>y. kill_wait u el S x = Inr y \<and> teardown_inv u y \<and> settles x y"
      using g(2) p by (auto simp: kill_wait_def teardown_inv_def paused_def emptying_def readers_def Let_def)
  next
    assume u: "threads (body x) u = Syncs el S {}"
    obtain s' where s': "kfree (el_addr el) (drv (body x)) = Inr s'" "matched {} u g (body x) (move u Idle ((body x)\<lparr>drv := s'\<rparr>))"
      using matched_free [OF g(1) u] by auto
    have "settles x (x\<lparr>body := move u Idle ((body x)\<lparr>drv := s'\<rparr>)\<rparr>)" using matched_settles [OF s'(2)] p by simp
    then show "\<exists>y. kill_free u el x = Inr y \<and> teardown_inv u y \<and> settles x y"
      using s' g(2) p by (auto simp: kill_free_def teardown_inv_def paused_def emptying_def matched_def)
  next
    assume u: "threads (body x) u = Idle" and l: "valid_blk_list (drv (body x)) = []"
    obtain y X where y: "kill_finish x = Inr y" "stage y = Gone" "shadows X g (body y)" "cleared (drv (body y))"
      "threads (body y) = threads (body x)" "disk (drv (body y)) = disk (drv (body x))"
      using finish_shadow [OF g l refl] by blast
    then show "\<exists>y. kill_finish x = Inr y \<and> teardown_inv u y \<and> settles x y"
      using st [of y] u by (auto simp: teardown_inv_def)
  }
qed

lemma teardown_step_ok:
  assumes x: "teardown_inv u x" and step: "teardown_step u x r"
  shows "\<exists>y. r = Inr y \<and> teardown_inv u y \<and> (stage x \<in> {Emptying, Gone} \<longrightarrow> settles x y)"
  using step
proof (cases rule: teardown_step.cases)
  case (use i r')
  then show ?thesis using use_step_ok [of "body x" i r' u] x by (auto simp: teardown_inv_def)
next
  case (call i r')
  show ?thesis
  proof (cases "stage x = ShutDown")
    case True
    then obtain c' where c': "r' = Inr c'" "cinv c'" "threads c' u = Idle"
      using use_step_ok [of "body x" i r' u] x call by (auto simp: teardown_inv_def)
    moreover have "sessions c' = sessions (body x)"
      using quiet_sessions [of "body x" i c'] call c'(1) x True by (simp add: teardown_inv_def)
    ultimately show ?thesis using x True call(1) by (simp add: teardown_inv_def)
  next
    case False
    then have "stage x \<in> {Emptying, Gone}" using call(2) by (cases "stage x") simp_all
    from teardown_call_ok [OF x this call(3,4,5)] show ?thesis using call(1) by auto
  qed
next
  case lock
  then show ?thesis using kill_lock_ok [OF x] by auto
next
  case (remove el rest)
  then show ?thesis using teardown_own_ok(1) [OF x] by blast
next
  case (wait el S)
  then show ?thesis using teardown_own_ok(2) [OF x] by blast
next
  case (free el S)
  then show ?thesis using teardown_own_ok(3) [OF x] by blast
next
  case finish
  then show ?thesis using teardown_own_ok(4) [OF x] by blast
qed (use x in \<open>auto simp: teardown_inv_def\<close>)

interpretation tear: safe_system teardown_start "teardown_step u" "teardown_inv u" for u
  using start_teardown_inv teardown_step_ok by unfold_locales blast+

section \<open>The steps put together\<close>

text \<open>
  The steps of the unmount with nobody in between are \<open>free_data_structures\<close> of the theory \<open>Mount\<close>
  after it has taken the lock.
\<close>

fun kill_all :: "nat \<Rightarrow> rcu_elem list \<Rightarrow> teardown \<Rightarrow> fault + teardown" where
  "kill_all u [] x = kill_finish x"
| "kill_all u (el # els) x =
     andThen (kill_remove u el x) (\<lambda>x.
     andThen (kill_wait u el (readers (body x)) x) (\<lambda>x.
     andThen (kill_free u el x) (kill_all u els)))"

lemma kill_all_sequential:
  assumes "rcu_readers (drv (body x)) = 0" "rcu_write_lock (drv (body x))"
  shows "map_sum id (\<lambda>x. drv (body x)) (kill_all u els x) =
     andThen (remove_all_loop True els (drv (body x))) drop_structures"
  using assms
proof (induction els arbitrary: x)
  case Nil
  show ?case by (cases "drop_structures (drv (body x))") (simp_all add: kill_finish_def)
next
  case (Cons el els)
  then show ?case
    by (simp add: kill_remove_def kill_wait_def kill_free_def kfree_def Let_def)
qed

section \<open>After the lock has been taken\<close>

lemma locking_step:
  assumes x: "teardown_inv u x" "stage x = ShutDown" and y: "teardown_step u x (Inr y)" "stage y = Emptying"
  shows "\<not> rcu_write_lock (drv (body x))" "kill_lock x = Inr y"
proof -
  have Inr_map: "Inr b = map_sum id f r \<longleftrightarrow> (\<exists>a. r = Inr a \<and> b = f a)" for b f and r :: "fault + conc" by (cases r) auto
  have "\<not> rcu_write_lock (drv (body x)) \<and> kill_lock x = Inr y"
    using y(1) by (cases rule: teardown_step.cases) (use x(2) y(2) in \<open>auto simp: Inr_map\<close>)
  then show "\<not> rcu_write_lock (drv (body x))" "kill_lock x = Inr y" by simp_all
qed

lemma run_settles:
  assumes "reachable (\<lambda>w. w = y) (teardown_step u) z" "teardown_inv u y" "stage y \<in> {Emptying, Gone}"
  shows "teardown_inv u z \<and> stage z \<in> {Emptying, Gone} \<and> disk (drv (body z)) = disk (drv (body y))"
  using assms
proof (induction rule: reachable.induct)
  case (reach_step z z')
  then show ?case using teardown_step_ok [of u z "Inr z'"] by (auto simp: settles_def)
qed simp

text \<open>The unmount waits for callers that can go on.\<close>

lemma section_progress:
  assumes s: "shadows X g c" and j: "j \<in> readers c"
  obtains r where "cstep c j r" "\<And>c'. r = Inr c' \<Longrightarrow> \<not> in_file (threads c' j)"
proof -
  have sec: "in_section (threads c j)" using j by (simp add: readers_def)
  then have "\<not> at_rest (threads c j)" using at_rest_fields by blast
  then have tg: "threads g j = threads c j" using shadow_thread [OF s] by simp
  have g: "cinv g" "sessions g j = None" using s by (simp_all add: shadows_def)
  show thesis
  proof (cases "threads c j")
    case (Walks env offset sz p M)
    then show thesis
      by (intro that [OF cstep.step_walk]) (auto simp: get_walk_def andThen_eq_Inr split: option.splits if_splits)
  next
    case (Reads env offset sz el)
    then show thesis by (intro that [OF cstep.step_read]) (auto simp: get_read_def andThen_eq_Inr)
  qed (use sec thread_okD [OF g(1) tg] g(2) in \<open>auto simp: reads_file_def\<close>)
qed

text \<open>A step that brings the unmount nearer: one of its own, or one of a reader that it waits for.\<close>

definition nearer :: "nat \<Rightarrow> teardown \<Rightarrow> teardown \<Rightarrow> bool" where
  "nearer u x y \<longleftrightarrow> stage y = Gone \<or> threads (body y) u \<noteq> threads (body x) u \<or>
     (\<exists>el S W j. threads (body x) u = Syncs el S W \<and> j \<in> W \<and> in_section (threads (body x) j) \<and> cstep (body x) j (Inr (body y)))"

lemma teardown_progress:
  assumes x: "teardown_inv u x" and p: "stage x = Emptying"
  shows "\<exists>y. teardown_step u x (Inr y) \<and> nearer u x y"
proof -
  from x p obtain g where g: "shadows {} g (body x)" "paused (threads (body x) u)" by (auto simp: teardown_inv_def)
  note own = teardown_own_ok [OF x p]
  show ?thesis
  proof (cases "threads (body x) u")
    case Idle
    show ?thesis
    proof (cases "valid_blk_list (drv (body x))")
      case Nil
      then show ?thesis using own(4) [OF Idle] teardown_step.finish [OF p Idle] by (auto simp: nearer_def kill_finish_def andThen_eq_Inr)
    next
      case (Cons el rest)
      then show ?thesis
        using teardown_step.remove [OF p Idle Cons] Idle by (auto simp: nearer_def kill_remove_def Let_def)
    qed
  next
    case (Removed el S)
    then show ?thesis using teardown_step.wait [OF p Removed] by (auto simp: nearer_def kill_wait_def Let_def)
  next
    case (Syncs el S W)
    show ?thesis
    proof (cases "W = {}")
      case True
      then have u: "threads (body x) u = Syncs el S {}" using Syncs by simp
      then show ?thesis using own(3) [OF u] teardown_step.free [OF p u] by (auto simp: nearer_def kill_free_def andThen_eq_Inr)
    next
      case False
      then obtain j where W: "j \<in> W" by auto
      moreover have "threads g u = Syncs el S W" using shadow_thread [OF g(1), of u] Syncs by (simp add: at_rest_def)
      ultimately have j: "j \<in> readers (body x)"
        using grace_sync [of g u el S W] shadow_readers [OF g(1)] g(1) by (auto simp: shadows_def cinv_def)
      then have "j \<noteq> u" "in_section (threads (body x) j)" using Syncs by (auto simp: readers_def)
      moreover obtain r where r: "cstep (body x) j r" "\<And>c'. r = Inr c' \<Longrightarrow> \<not> in_file (threads c' j)"
        using section_progress [OF g(1) j] by blast
      moreover obtain c' where "r = Inr c'" using teardown_call_ok [OF x _ \<open>j \<noteq> u\<close> r] p by auto
      ultimately show ?thesis
        using teardown_step.call [of x j u r] p W Syncs
        by (intro exI [of _ "x\<lparr>body := c'\<rparr>"]) (auto simp: nearer_def)
    qed
  qed (use g(2) in \<open>auto simp: paused_def\<close>)
qed

text \<open>With an empty list there is nobody that the unmount waits for.\<close>

lemma unmount_of_empty_list:
  assumes x: "teardown_inv u x" "stage x = ShutDown" and l: "\<not> rcu_write_lock (drv (body x))" "valid_blk_list (drv (body x)) = []"
  obtains y z where "teardown_step u x (Inr y)" "stage y = Emptying" "teardown_step u y (Inr z)" "stage z = Gone"
    "cleared (drv (body z))" "threads (body z) = threads (body x)" "disk (drv (body z)) = disk (drv (body x))"
proof -
  obtain y where y: "kill_lock x = Inr y" "teardown_inv u y" "stage y = Emptying" "settles x y"
    using kill_lock_ok [OF x l(1)] by blast
  have f: "threads (body y) = threads (body x)" "valid_blk_list (drv (body y)) = []"
    using y(1) l by (auto simp: kill_lock_def)
  have u: "threads (body y) u = Idle" using x f(1) by (simp add: teardown_inv_def)
  obtain z where z: "kill_finish y = Inr z" "teardown_inv u z" "settles y z" using teardown_own_ok(4) [OF y(2,3) u f(2)] by blast
  then have "stage z = Gone" "threads (body z) = threads (body y)" by (auto simp: kill_finish_def andThen_eq_Inr)
  moreover from this have "cleared (drv (body z))" using z(2) by (simp add: teardown_inv_def)
  ultimately show thesis
    using that [of y z] teardown_step.lock [OF x(2) l(1)] teardown_step.finish [OF y(3) u f(2)] y z f by (auto simp: settles_def)
qed

text \<open>A reader that has found its element is not waited for then.\<close>

lemma reader_left_behind:
  assumes x: "teardown_inv u x" "stage x = ShutDown" and l: "\<not> rcu_write_lock (drv (body x))" "valid_blk_list (drv (body x)) = []"
    and th: "threads (body x) i = Reads env offset sz el"
  shows "\<exists>y z w r. teardown_step u x (Inr y) \<and> teardown_step u y (Inr z) \<and> stage z = Gone \<and>
     \<not> bldms_mounted (drv (body z)) \<and> \<not> the_dev_superblock (drv (body z)) \<and> threads (body z) i = Reads env offset sz el \<and>
     teardown_step u z (Inr w) \<and> get_copy env offset sz el (drv (body x)) = Inr r \<and> threads (body w) i = Done (Fetched r)"
proof -
  obtain y z where yz: "teardown_step u x (Inr y)" "stage y = Emptying" "teardown_step u y (Inr z)" "stage z = Gone"
    "cleared (drv (body z))" "threads (body z) = threads (body x)" "disk (drv (body z)) = disk (drv (body x))"
    by (rule unmount_of_empty_list [OF x l])
  have "cinv (body x)" "threads (body x) u = Idle" using x by (simp_all add: teardown_inv_def)
  then have el: "elem_ok el" and i: "i \<noteq> u" using thread_okD [of "body x" i, OF _ th] th by auto
  obtain r where r: "get_copy env offset sz el (drv (body x)) = Inr r" using get_copy_total [OF el] by blast
  moreover have "get_copy env offset sz el (drv (body z)) = get_copy env offset sz el (drv (body x))"
    using yz(7) by (simp only: get_copy_def)
  ultimately have rd: "get_read i env offset sz el (body z) = Inr (leave i (Done (Fetched r)) (body z))"
    by (simp add: get_read_def)
  have "cstep (body z) i (Inr (leave i (Done (Fetched r)) (body z)))"
    using cstep.step_read [of "body z" i env offset sz el] th yz(6) rd by simp
  then have "teardown_step u z (Inr (z\<lparr>body := leave i (Done (Fetched r)) (body z)\<rparr>))"
    using teardown_step.call [of z i u "Inr (leave i (Done (Fetched r)) (body z))"] yz(4) i by (simp add: leave_def)
  then show ?thesis
    using yz th r by (intro exI [of _ y] exI [of _ z] exI [of _ "z\<lparr>body := leave i (Done (Fetched r)) (body z)\<rparr>"] exI [of _ r])
      (auto simp: cleared_def leave_def)
qed

end
