(* ===== verification/Teardown_Example.thy ===== *)
theory Teardown_Example
  imports Teardown Concurrency_Example
begin

text \<open>
  Two unmounts by thread 3 on the device of one block: one begins when thread 0 has found the
  element of the block, the other after thread 1 has taken that element out of the list.
\<close>

definition unmount_during_read :: teardown where
  "unmount_during_read = \<lparr>body = race2, stage = ShutDown\<rparr>"

definition unmount_after_removal :: teardown where
  "unmount_after_removal = \<lparr>body = race4, stage = ShutDown\<rparr>"

lemma reach_use:
  "reachable teardown_start (teardown_step u) \<lparr>body = c, stage = InUse\<rparr> \<Longrightarrow> cstep c i (Inr c') \<Longrightarrow> i \<noteq> u \<Longrightarrow>
     reachable teardown_start (teardown_step u) \<lparr>body = c', stage = InUse\<rparr>"
  using teardown_step.use [of "\<lparr>body = c, stage = InUse\<rparr>" i u "Inr c'"] by (auto intro: reach_step)

lemma reach_shut:
  "reachable teardown_start (teardown_step u) \<lparr>body = c, stage = InUse\<rparr> \<Longrightarrow> \<forall>i. sessions c i = None \<Longrightarrow>
     reachable teardown_start (teardown_step u) \<lparr>body = c, stage = ShutDown\<rparr>"
  using teardown_step.shut [of "\<lparr>body = c, stage = InUse\<rparr>" u] by (auto intro: reach_step)

lemma race_sessions: "sessions race2 i = None" "sessions race4 i = None"
proof -
  show "sessions race2 i = None" by (simp add: race2_def race1_def race0_def conc_of_def)
  then have "sessions race3 i = None" by (simp add: race3_def)
  moreover have "inv_lock 1 (\<lambda>_. True) 0 race3 = Inr race4"
    using inv_lock_ok [OF conc.reachable_inv [OF race_reachable(4)], of 1] by (auto simp: race_threads race_drv tiny_fields race4_def)
  ultimately show "sessions race4 i = None" using put_sessions(4) [of 1 "\<lambda>_. True" 0 race3 race4] by simp
qed

lemma unmount_during_read_reachable: "reachable teardown_start (teardown_step 3) unmount_during_read"
  and unmount_after_removal_reachable: "reachable teardown_start (teardown_step 3) unmount_after_removal"
proof -
  have "reachable teardown_start (teardown_step 3) \<lparr>body = race0, stage = InUse\<rparr>"
    using tiny_ok by (intro reach_start) (auto simp: teardown_start_def conc_start_def race0_def)
  then have r: "reachable teardown_start (teardown_step 3) \<lparr>body = race2, stage = InUse\<rparr>"
    using reach_use [OF reach_use [OF _ race_steps(1)] race_steps(2)] by simp
  then show "reachable teardown_start (teardown_step 3) unmount_during_read"
    unfolding unmount_during_read_def using race_sessions(1) by (intro reach_shut) simp_all
  from r have "reachable teardown_start (teardown_step 3) \<lparr>body = race4, stage = InUse\<rparr>"
    using reach_use [OF reach_use [OF _ race_steps(3)] race4_facts(1)] by simp
  then show "reachable teardown_start (teardown_step 3) unmount_after_removal"
    unfolding unmount_after_removal_def using race_sessions(2) by (intro reach_shut) simp_all
qed

lemma unmount_during_read_locks: "\<exists>y. teardown_step 3 unmount_during_read (Inr y) \<and> stage y = Emptying"
proof -
  have "stage unmount_during_read = ShutDown" "\<not> rcu_write_lock (drv (body unmount_during_read))"
    by (simp_all add: unmount_during_read_def race_drv tiny_fields)
  with kill_lock_ok [OF tear.reachable_inv [OF unmount_during_read_reachable] this] teardown_step.lock [OF this, of 3] show ?thesis
    by auto
qed

lemma unmount_after_removal_fields:
  "stage unmount_after_removal = ShutDown" "\<not> rcu_write_lock (drv (body unmount_after_removal))" "valid_blk_list (drv (body unmount_after_removal)) = []"
  "threads (body unmount_after_removal) 0 = Reads demo_get 0 10 (rcu_fill 5 0 2 (Ktime 7))"
  by (simp_all add: unmount_after_removal_def race4_facts race_threads inval_result_def Let_def tiny_fields list_delete_def list_lookup_def)

end
