(* ===== verification/Syscall_Table.thy ===== *)
theory Syscall_Table
  imports Kernel
begin

text \<open>
  The hooks into the system-call table: the library that hands out free entries
  (\<^verbatim>\<open>lib/usctm.c\<close>), \<open>register_syscalls\<close> and \<open>unregister_syscalls\<close> (\<^verbatim>\<open>syscalls.c\<close>) and the
  module's \<open>bldms_init\<close> and \<open>bldms_exit\<close> (\<^verbatim>\<open>bldms.c\<close>). The table is a map from entry numbers to
  routine addresses; a write to it while the processor's write protection is on, or to an entry
  it does not have, is a fault. The library's parameters come from the discovery module.
\<close>

unbundle bit_operations_syntax

section \<open>Free entries\<close>

definition MAX_FREE :: nat where
  "MAX_FREE = 15"

definition MAX_ACQUIRES :: nat where
  "MAX_ACQUIRES = 4"

record usctm_lib =
  sys_call_table_address :: u64
  sys_ni_syscall_address :: u64
  free_entries :: "int list"
  num_entries_found :: int
  restore :: "int list"

definition restore_init :: "int list" where
  "restore_init = replicate MAX_ACQUIRES (-1)"

text \<open>
  The loop of \<open>get_entries\<close>, over the indexes that are left: how many entries it has given, and
  the arrays \<open>restore\<close>, \<open>ids\<close> and \<open>indexes\<close>. The three arrays have \<open>MAX_ACQUIRES\<close> places.
\<close>

fun acquire_loop ::
  "int list \<Rightarrow> int \<Rightarrow> nat list \<Rightarrow> int \<times> int list \<times> int list \<times> int list \<Rightarrow> fault + int \<times> int list \<times> int list \<times> int list" where
  "acquire_loop free num [] st = Inr st"
| "acquire_loop free num (i # is) (given, rs, ids, ixs) =
     (if \<not> given < num then Inr (given, rs, ids, ixs)
      else if i \<ge> length rs then Inl OutOfBounds
      else if rs ! i = -1 then
        if i \<ge> length free \<or> i \<ge> length ids then Inl OutOfBounds
        else acquire_loop free num is (given + 1, rs[i := free ! i], ids[i := free ! i], ixs[i := int i])
      else acquire_loop free num is (given, rs, ids, ixs))"

text \<open>The result: the number of entries given, the entries, their indexes, the table and \<open>sys_ni_syscall\<close>.\<close>

definition get_entries ::
  "int \<Rightarrow> usctm_lib \<Rightarrow> fault + (unit + int \<times> int list \<times> int list \<times> u64 \<times> u64) \<times> usctm_lib" where
  "get_entries num_acquires l =
     (if num_acquires > num_entries_found l \<or> num_acquires > int MAX_ACQUIRES then Inr (Inl (), l)
      else if num_acquires < 1 then Inr (Inl (), l)
      else
        andThen (acquire_loop (free_entries l) num_acquires [0..<nat (num_entries_found l)]
          (0, restore l, replicate MAX_ACQUIRES (-1), replicate MAX_ACQUIRES (-1))) (\<lambda>(given, rs, ids, ixs).
        let l = l\<lparr>restore := rs\<rparr> in
        if given \<noteq> num_acquires then Inr (Inl (), l)
        else Inr (Inr (given, take (nat given) ids, take (nat given) ixs,
                       sys_call_table_address l, sys_ni_syscall_address l), l)))"

fun reset_entries :: "int list \<Rightarrow> usctm_lib \<Rightarrow> fault + usctm_lib" where
  "reset_entries [] l = Inr l"
| "reset_entries (ix # ixs) l =
     (if ix < 0 \<or> nat ix \<ge> length (restore l) then Inl OutOfBounds
      else reset_entries ixs (l\<lparr>restore := (restore l)[nat ix := -1]\<rparr>))"

section \<open>The table\<close>

record syscall_table =
  lib :: usctm_lib
  table :: "nat \<Rightarrow> u64"
  table_size :: nat
  cr0_register :: u64
  cr0 :: u64
  the_syscall_table :: u64
  the_ni_syscall :: u64
  restore_entries :: "int list"
  indexes :: "int list"

definition HACKED_ENTRIES :: int where
  "HACKED_ENTRIES = 3"

text \<open>
  The control register of the processor, whose bit 16 protects read-only pages from writes by the
  kernel, and the variable in which the library keeps the register's value.
\<close>

definition X86_CR0_WP :: u64 where
  "X86_CR0_WP = 0x10000"

definition write_protect :: "syscall_table \<Rightarrow> bool" where
  "write_protect t \<longleftrightarrow> cr0_register t AND X86_CR0_WP \<noteq> 0"

definition write_cr0_forced :: "u64 \<Rightarrow> syscall_table \<Rightarrow> syscall_table" where
  "write_cr0_forced v t = t\<lparr>cr0_register := v\<rparr>"

definition protect_memory :: "syscall_table \<Rightarrow> syscall_table" where
  "protect_memory t = write_cr0_forced (cr0 t) t"

definition unprotect_memory :: "syscall_table \<Rightarrow> syscall_table" where
  "unprotect_memory t =
     (let t = t\<lparr>cr0 := cr0_register t\<rparr> in write_cr0_forced (cr0 t AND NOT X86_CR0_WP) t)"

fun write_entries :: "(int \<times> u64) list \<Rightarrow> syscall_table \<Rightarrow> fault + syscall_table" where
  "write_entries [] t = Inr t"
| "write_entries ((e, v) # evs) t =
     (if e < 0 \<or> nat e \<ge> table_size t then Inl OutOfBounds
      else if write_protect t then Inl WriteProtected
      else write_entries evs (t\<lparr>table := (table t)(nat e := v)\<rparr>))"

text \<open>\<open>calls\<close> are the addresses of \<open>put_data\<close>, \<open>get_data\<close> and \<open>invalidate_data\<close>.\<close>

definition register_syscalls :: "u64 list \<Rightarrow> syscall_table \<Rightarrow> fault + int \<times> syscall_table" where
  "register_syscalls calls t =
     andThen (get_entries HACKED_ENTRIES (lib t)) (\<lambda>(r, l).
     let t = t\<lparr>lib := l\<rparr> in
     case r of
       Inl _ \<Rightarrow> Inr (-1, t)
     | Inr (ret, ids, ixs, tbl, ni) \<Rightarrow>
         let t = t\<lparr>restore_entries := ids, indexes := ixs, the_syscall_table := tbl, the_ni_syscall := ni\<rparr> in
         if ret \<noteq> HACKED_ENTRIES then Inr (-1, t)
         else
           andThen (write_entries (zip ids calls) (unprotect_memory t)) (\<lambda>t. Inr (0, protect_memory t)))"

definition unregister_syscalls :: "syscall_table \<Rightarrow> fault + syscall_table" where
  "unregister_syscalls t =
     andThen (write_entries (map (\<lambda>e. (e, the_ni_syscall t)) (restore_entries t)) (unprotect_memory t)) (\<lambda>t.
     let t = protect_memory t in
     andThen (reset_entries (indexes t) (lib t)) (\<lambda>l. Inr (t\<lparr>lib := l\<rparr>)))"

text \<open>\<open>reg\<close> and \<open>unreg\<close> are the results of \<open>register_filesystem\<close> and \<open>unregister_filesystem\<close>.\<close>

definition bldms_init :: "u64 list \<Rightarrow> int \<Rightarrow> syscall_table \<Rightarrow> fault + int \<times> syscall_table" where
  "bldms_init calls reg t =
     andThen (register_syscalls calls t) (\<lambda>(ret, t). if ret < 0 then Inr (ret, t) else Inr (reg, t))"

definition bldms_exit :: "syscall_table \<Rightarrow> fault + syscall_table" where
  "bldms_exit t = unregister_syscalls t"

section \<open>Acquiring the first entries\<close>

lemma acquire_loop_prefix:
  assumes "k \<le> m" "m \<le> 4" "m \<le> length free" "length free \<le> 15" "m \<le> n"
  shows "acquire_loop free (int m) [k..<n]
     (int k, take k free @ replicate (4 - k) (-1), take k free @ replicate (4 - k) (-1), map int [0..<k] @ replicate (4 - k) (-1)) =
     Inr (int m, take m free @ replicate (4 - m) (-1), take m free @ replicate (4 - m) (-1), map int [0..<m] @ replicate (4 - m) (-1))"
  using assms
proof (induction "m - k" arbitrary: k)
  case 0
  then show ?case by (cases "[k..<n]") auto
next
  case (Suc j)
  then have k: "k < m" "k < n" "k < length free" by simp_all
  have rep: "replicate (4 - k) (-1) = (-1 :: int) # replicate (4 - Suc k) (-1)"
    using Suc.prems(2) k by (metis Suc_diff_Suc less_le_trans replicate_Suc)
  have upd: "(take k free @ replicate (4 - k) (-1))[k := free ! k] = take (Suc k) free @ replicate (4 - Suc k) (-1)"
    "(map int [0..<k] @ replicate (4 - k) (-1))[k := int k] = map int [0..<Suc k] @ replicate (4 - Suc k) (-1)"
    using k unfolding rep by (simp_all add: list_update_append take_Suc_conv_app_nth)
  have at: "(take k free @ replicate (4 - k) (-1)) ! k = -1" using k unfolding rep by (simp add: nth_append)
  have "acquire_loop free (int m) [k..<n]
     (int k, take k free @ replicate (4 - k) (-1), take k free @ replicate (4 - k) (-1), map int [0..<k] @ replicate (4 - k) (-1)) =
     acquire_loop free (int m) [Suc k..<n] (int (Suc k), take (Suc k) free @ replicate (4 - Suc k) (-1),
       take (Suc k) free @ replicate (4 - Suc k) (-1), map int [0..<Suc k] @ replicate (4 - Suc k) (-1))"
    using k Suc.prems at upd by (simp add: upt_conv_Cons add.commute)
  also have "\<dots> = Inr (int m, take m free @ replicate (4 - m) (-1), take m free @ replicate (4 - m) (-1), map int [0..<m] @ replicate (4 - m) (-1))"
    using Suc by (intro Suc.hyps(1)) simp_all
  finally show ?case .
qed

text \<open>What the discovery module hands over: at least three and at most \<open>MAX_FREE\<close> free entries.\<close>

definition lib_ok :: "usctm_lib \<Rightarrow> bool" where
  "lib_ok l \<longleftrightarrow> length (free_entries l) = MAX_FREE \<and> num_entries_found l \<le> int MAX_FREE \<and>
     HACKED_ENTRIES \<le> num_entries_found l \<and> restore l = restore_init"

lemma get_entries_first:
  assumes "lib_ok l"
  shows "get_entries HACKED_ENTRIES l =
     Inr (Inr (3, take 3 (free_entries l), [0, 1, 2], sys_call_table_address l, sys_ni_syscall_address l),
          l\<lparr>restore := take 3 (free_entries l) @ [-1]\<rparr>)"
proof -
  let ?n = "nat (num_entries_found l)"
  have n: "3 \<le> ?n" "int ?n = num_entries_found l" "length (free_entries l) = 15"
    using assms by (simp_all add: lib_ok_def HACKED_ENTRIES_def MAX_FREE_def le_nat_iff)
  have "acquire_loop (free_entries l) 3 [0..<?n] (0, replicate 4 (-1), replicate 4 (-1), replicate 4 (-1)) =
      Inr (3, take 3 (free_entries l) @ [-1], take 3 (free_entries l) @ [-1], [0, 1, 2, -1])"
    using acquire_loop_prefix [of 0 3 "free_entries l" ?n] n by (simp add: upt_rec)
  then show ?thesis
    using assms n
    by (simp add: get_entries_def lib_ok_def restore_init_def HACKED_ENTRIES_def MAX_ACQUIRES_def)
qed

text \<open>
  A second acquisition finds its entries behind the ones in use, and stores them by their place
  in \<open>restore\<close>, not by their number: what it hands out is \<open>-1\<close>.
\<close>

lemma get_entries_second:
  assumes "length (free_entries l) = MAX_FREE" "2 \<le> num_entries_found l" "restore l = [a, -1, -1, -1]" "a \<noteq> -1"
  shows "\<exists>l'. get_entries 1 l = Inr (Inr (1, [-1], [-1], sys_call_table_address l, sys_ni_syscall_address l), l') \<and>
     restore l' = [a, free_entries l ! 1, -1, -1]"
proof -
  have "2 \<le> nat (num_entries_found l)" using assms(2) by (simp add: le_nat_iff)
  then obtain n where n: "nat (num_entries_found l) = Suc (Suc n)"
    by (metis add_2_eq_Suc le_Suc_ex)
  have upt: "[0..<Suc (Suc n)] = 0 # 1 # [2..<Suc (Suc n)]" by (simp add: upt_conv_Cons numeral_2_eq_2 del: upt_Suc)
  have stop: "acquire_loop f 1 xs (1, r, i, x) = Inr (1, r, i, x)" for f xs r i x
    by (cases xs) simp_all
  show ?thesis
    using assms by (simp add: get_entries_def n upt stop MAX_ACQUIRES_def MAX_FREE_def eval_nat_numeral del: upt_Suc)
qed

section \<open>Installing and removing the system calls\<close>

lemma word_clear_mask: "(v AND NOT m) AND m = (0 :: 'a :: len word)"
  by (rule bit_word_eqI) (simp add: bit_simps)

text \<open>Between the two calls the table can be written, and after them the register is as before.\<close>

lemma unprotected [simp]: "\<not> write_protect (unprotect_memory t)" "cr0 (unprotect_memory t) = cr0_register t"
  by (simp_all add: write_protect_def unprotect_memory_def write_cr0_forced_def word_clear_mask)

lemma unprotected_fields [simp]:
  "table (unprotect_memory t) = table t" "table_size (unprotect_memory t) = table_size t" "lib (unprotect_memory t) = lib t"
  "write_protect (t\<lparr>table := tb\<rparr>) = write_protect t"
  by (simp_all add: unprotect_memory_def write_protect_def write_cr0_forced_def)

lemma protect_again [simp]:
  "protect_memory ((unprotect_memory t)\<lparr>table := tb\<rparr>) = t\<lparr>table := tb, cr0 := cr0_register t\<rparr>"
  by (simp add: protect_memory_def unprotect_memory_def write_cr0_forced_def)

text \<open>The first three free entries, distinct and inside the table.\<close>

definition three_entries :: "syscall_table \<Rightarrow> int \<Rightarrow> int \<Rightarrow> int \<Rightarrow> bool" where
  "three_entries t a b c \<longleftrightarrow> lib_ok (lib t) \<and> take 3 (free_entries (lib t)) = [a, b, c] \<and> distinct [a, b, c] \<and>
     (\<forall>e \<in> {a, b, c}. 0 \<le> e \<and> nat e < table_size t)"

lemma register_success:
  assumes "three_entries t a b c"
  shows "register_syscalls [p, g, v] t = Inr (0, t\<lparr>
     lib := (lib t)\<lparr>restore := [a, b, c, -1]\<rparr>,
     table := (table t)(nat a := p, nat b := g, nat c := v),
     the_syscall_table := sys_call_table_address (lib t),
     the_ni_syscall := sys_ni_syscall_address (lib t), restore_entries := [a, b, c], indexes := [0, 1, 2],
     cr0 := cr0_register t\<rparr>)"
proof -
  have l: "lib_ok (lib t)" "take 3 (free_entries (lib t)) = [a, b, c]"
    "\<forall>e \<in> {a, b, c}. 0 \<le> e \<and> nat e < table_size t"
    using assms by (simp_all add: three_entries_def)
  show ?thesis
    unfolding register_syscalls_def get_entries_first [OF l(1)] using l(3)
    by (simp add: l(2) HACKED_ENTRIES_def Let_def)
qed

lemma register_refused:
  assumes "num_entries_found (lib t) < HACKED_ENTRIES"
  shows "register_syscalls calls t = Inr (-1, t)"
  using assms by (simp add: register_syscalls_def get_entries_def HACKED_ENTRIES_def)

lemma unregister_success:
  assumes t: "three_entries t a b c"
  shows "\<exists>t'. andThen (register_syscalls [p, g, v] t) (\<lambda>(r, t). unregister_syscalls t) = Inr t' \<and>
     table t' = (table t)(nat a := sys_ni_syscall_address (lib t), nat b := sys_ni_syscall_address (lib t),
                          nat c := sys_ni_syscall_address (lib t)) \<and>
     lib t' = lib t \<and> cr0_register t' = cr0_register t"
proof -
  have e: "\<forall>e \<in> {a, b, c}. 0 \<le> e \<and> nat e < table_size t" "restore (lib t) = [-1, -1, -1, -1]" "distinct [a, b, c]"
    using t by (simp_all add: three_entries_def lib_ok_def restore_init_def MAX_ACQUIRES_def eval_nat_numeral)
  then have "nat a \<noteq> nat b" "nat a \<noteq> nat c" "nat b \<noteq> nat c" by auto
  then show ?thesis
    using e by (simp add: register_success [OF t] unregister_syscalls_def Let_def fun_upd_twist)
qed

end
