(* ===== verification/Table_Finder.thy ===== *)
theory Table_Finder
  imports Syscall_Table
begin

text \<open>
  The discovery module (\<^verbatim>\<open>usctm/usctm.c\<close>, \<^verbatim>\<open>usctm/lib/vtpmo.c\<close>): it walks the page tables to
  see which kernel pages are mapped, looks in the mapped ones for an array of eight-byte words
  that has the shape of the system-call table, and lists the table's entries that hold
  \<open>sys_ni_syscall\<close>. The machine is the content of its memory by virtual address, the register
  \<open>cr3\<close> and the kernel's \<open>phys_to_virt\<close>.
\<close>

unbundle bit_operations_syntax

section \<open>Page tables\<close>

record machine =
  cr3 :: u64
  phys_to_virt :: "u64 \<Rightarrow> u64"
  mem :: "u64 \<Rightarrow> u64"

definition ADDRESS_MASK :: u64 where
  "ADDRESS_MASK = 0xfffffffffffff000"

definition PT_ADDRESS_MASK :: u64 where
  "PT_ADDRESS_MASK = 0x7ffffffffffff000"

definition VALID :: u64 where
  "VALID = 0x1"

definition LH_MAPPING :: u64 where
  "LH_MAPPING = 0x80"

definition NO_MAP :: u32 where
  "NO_MAP = -1"

text \<open>\<open>PML4\<close>, \<open>PDP\<close>, \<open>PDE\<close> and \<open>PTE\<close> for the shifts 39, 30, 21 and 12.\<close>

definition pt_index :: "nat \<Rightarrow> u64 \<Rightarrow> u64" where
  "pt_index shift addr = signed_drop_bit shift addr AND 0x1ff"

definition pt_entry :: "machine \<Rightarrow> u64 \<Rightarrow> nat \<Rightarrow> u64 \<Rightarrow> u64" where
  "pt_entry m base shift addr = mem m (phys_to_virt m base + 8 * pt_index shift addr)"

definition sys_vtpmo :: "machine \<Rightarrow> u64 \<Rightarrow> u32" where
  "sys_vtpmo m vaddr =
     (let pml4 = pt_entry m (cr3 m AND ADDRESS_MASK) 39 vaddr in
      if pml4 AND VALID = 0 then NO_MAP
      else
        let pdp = pt_entry m (pml4 AND PT_ADDRESS_MASK) 30 vaddr in
        if pdp AND VALID = 0 then NO_MAP
        else
          let pde = pt_entry m (pdp AND PT_ADDRESS_MASK) 21 vaddr in
          if pde AND VALID = 0 then NO_MAP
          else if pde AND LH_MAPPING \<noteq> 0 then ucast (drop_bit 12 (pde AND PT_ADDRESS_MASK))
          else
            let pte = pt_entry m (pde AND PT_ADDRESS_MASK) 12 vaddr in
            if pte AND VALID = 0 then NO_MAP
            else ucast (drop_bit 12 (pte AND PT_ADDRESS_MASK)))"

section \<open>The search\<close>

definition START :: u64 where
  "START = 0xffffffff00000000"

definition MAX_ADDR :: u64 where
  "MAX_ADDR = 0xfffffffffff00000"

definition FIRST_NI_SYSCALL :: nat where
  "FIRST_NI_SYSCALL = 134"

definition NI_SYSCALLS :: "nat list" where
  "NI_SYSCALLS = [174, 182, 183, 214, 215, 236]"

definition SEVENTH_NI_SYSCALL :: nat where
  "SEVENTH_NI_SYSCALL = 236"

definition ENTRIES_TO_EXPLORE :: nat where
  "ENTRIES_TO_EXPLORE = 256"

text \<open>\<open>addr[i]\<close> for an array of longs.\<close>

definition slot :: "machine \<Rightarrow> u64 \<Rightarrow> nat \<Rightarrow> u64" where
  "slot m addr i = mem m (addr + word_of_nat (8 * i))"

definition good_area :: "machine \<Rightarrow> u64 \<Rightarrow> bool" where
  "good_area m addr = list_all (\<lambda>i. slot m addr i \<noteq> slot m addr FIRST_NI_SYSCALL) [1..<FIRST_NI_SYSCALL]"

definition pattern :: "machine \<Rightarrow> u64 \<Rightarrow> bool" where
  "pattern m addr =
     (let ni = slot m addr FIRST_NI_SYSCALL in
      ni AND 0x3 = 0 \<and> ni \<noteq> 0 \<and> ni > 0xffffffff00000000 \<and>
      list_all (\<lambda>i. ni = slot m addr i) NI_SYSCALLS \<and> good_area m addr)"

text \<open>The loop of \<open>validate_page\<close> over the offsets that are left; the result is the table's address.\<close>

fun validate_loop :: "machine \<Rightarrow> u64 \<Rightarrow> nat list \<Rightarrow> u64 option" where
  "validate_loop m page [] = None"
| "validate_loop m page (i # is) =
     (let new_page = page + word_of_nat i + word_of_nat (SEVENTH_NI_SYSCALL * 8) in
      if page + 4096 = new_page AND ADDRESS_MASK \<and> sys_vtpmo m new_page = NO_MAP then None
      else if pattern m (page + word_of_nat i) then Some (page + word_of_nat i)
      else validate_loop m page is)"

definition validate_page :: "machine \<Rightarrow> u64 \<Rightarrow> u64 option" where
  "validate_page m page = validate_loop m page (map (\<lambda>k. 8 * k) [0..<512])"

text \<open>The loop of \<open>syscall_table_finder\<close> over the page numbers that are left, counted from \<open>START\<close>.\<close>

fun finder_loop :: "machine \<Rightarrow> nat list \<Rightarrow> u64 option" where
  "finder_loop m [] = None"
| "finder_loop m (k # ks) =
     (let candidate = START + word_of_nat (4096 * k) in
      if sys_vtpmo m candidate \<noteq> NO_MAP then
        case validate_page m candidate of
          Some tbl \<Rightarrow> Some tbl
        | None \<Rightarrow> finder_loop m ks
      else finder_loop m ks)"

definition syscall_table_finder :: "machine \<Rightarrow> u64 option" where
  "syscall_table_finder m = finder_loop m [0..<unat ((MAX_ADDR - START) div 4096)]"

section \<open>The free entries\<close>

fun explore :: "machine \<Rightarrow> u64 \<Rightarrow> u64 \<Rightarrow> nat list \<Rightarrow> int list \<Rightarrow> int list" where
  "explore m tbl ni [] acc = acc"
| "explore m tbl ni (i # is) acc =
     (if slot m tbl i = ni then
        let acc = acc @ [int i] in if length acc \<ge> MAX_FREE then acc else explore m tbl ni is acc
      else explore m tbl ni is acc)"

text \<open>
  \<open>init_module\<close>: the module's parameters as the driver's library reads them, or \<open>None\<close> for the
  return value \<open>-1\<close>. The array of free entries is zero where nothing was stored.
\<close>

definition init_module :: "machine \<Rightarrow> usctm_lib option" where
  "init_module m =
     (case syscall_table_finder m of
        None \<Rightarrow> None
      | Some tbl \<Rightarrow>
          let ni = slot m tbl FIRST_NI_SYSCALL;
              found = explore m tbl ni [0..<ENTRIES_TO_EXPLORE] []
          in Some \<lparr>sys_call_table_address = tbl, sys_ni_syscall_address = ni,
                   free_entries = found @ replicate (MAX_FREE - length found) 0,
                   num_entries_found = int (length found), restore = restore_init\<rparr>)"

text \<open>The module's own \<open>get_entries\<close> and \<open>reset_entries\<close>, whose arrays have \<open>MAX_FREE\<close> places.\<close>

definition usctm_get_entries ::
  "int \<Rightarrow> int \<Rightarrow> usctm_lib \<Rightarrow> fault + (unit + int \<times> int list \<times> int list \<times> u64) \<times> usctm_lib" where
  "usctm_get_entries next_free_entry num_acquires l =
     (if num_acquires > num_entries_found l - next_free_entry then Inr (Inl (), l)
      else if num_acquires < 1 then Inr (Inl (), l)
      else
        andThen (acquire_loop (free_entries l) num_acquires [0..<nat (num_entries_found l)]
          (0, restore l, replicate MAX_FREE (-1), replicate MAX_FREE (-1))) (\<lambda>(given, rs, ids, ixs).
        let l = l\<lparr>restore := rs\<rparr> in
        if given \<noteq> num_acquires then Inr (Inl (), l)
        else Inr (Inr (given, take (nat given) ids, take (nat given) ixs, sys_ni_syscall_address l), l)))"

fun usctm_reset_entries :: "int list \<Rightarrow> usctm_lib \<Rightarrow> fault + usctm_lib" where
  "usctm_reset_entries [] l = Inr l"
| "usctm_reset_entries (ix # ixs) l =
     (if ix < 0 \<or> nat ix \<ge> length (restore l) then Inl OutOfBounds
      else usctm_reset_entries ixs (l\<lparr>restore := (restore l)[nat ix := -1]\<rparr>))"

section \<open>Mappings are those of whole pages\<close>

lemma ADDRESS_MASK_bits: "bit ADDRESS_MASK n \<longleftrightarrow> 12 \<le> n \<and> n < 64"
proof -
  have e: "ADDRESS_MASK = NOT (mask 12)" by (simp add: ADDRESS_MASK_def mask_eq_exp_minus_1)
  show ?thesis unfolding e by (auto simp: bit_simps)
qed

lemma pt_index_page:
  assumes "12 \<le> shift"
  shows "pt_index shift (v AND ADDRESS_MASK) = pt_index shift v"
  unfolding pt_index_def
  by (rule bit_word_eqI) (use assms in \<open>auto simp: bit_simps ADDRESS_MASK_bits\<close>)

lemma sys_vtpmo_page: "sys_vtpmo m (v AND ADDRESS_MASK) = sys_vtpmo m v"
  by (simp add: sys_vtpmo_def pt_entry_def pt_index_page Let_def)

section \<open>Soundness and completeness of the search\<close>

lemma validate_loop_sound:
  "validate_loop m page is = Some tbl \<Longrightarrow> pattern m tbl \<and> (\<exists>i \<in> set is. tbl = page + word_of_nat i)"
  by (induction "is") (auto simp: Let_def split: if_splits)

lemma finder_loop_sound:
  "finder_loop m ks = Some tbl \<Longrightarrow> pattern m tbl \<and>
     (\<exists>k \<in> set ks. sys_vtpmo m (START + word_of_nat (4096 * k)) \<noteq> NO_MAP \<and>
        validate_page m (START + word_of_nat (4096 * k)) = Some tbl)"
proof (induction ks)
  case (Cons k ks)
  then show ?case
    using validate_loop_sound [of m "START + word_of_nat (4096 * k)"]
    by (fastforce simp: Let_def validate_page_def split: if_splits option.splits)
qed simp

text \<open>A table in a page whose next page is mapped cannot be missed.\<close>

lemma validate_loop_complete:
  assumes "i \<in> set is" "pattern m (page + word_of_nat i)"
    and next_page: "sys_vtpmo m (page + 4096) \<noteq> NO_MAP"
  shows "validate_loop m page is \<noteq> None"
proof -
  have "\<not> (page + 4096 = x AND ADDRESS_MASK \<and> sys_vtpmo m x = NO_MAP)" for x
    using next_page sys_vtpmo_page [of m x] by auto
  then show ?thesis using assms(1,2) by (induction "is") (auto simp: Let_def)
qed

lemma finder_loop_complete:
  assumes "k \<in> set ks" "sys_vtpmo m (START + word_of_nat (4096 * k)) \<noteq> NO_MAP"
    and "validate_page m (START + word_of_nat (4096 * k)) \<noteq> None"
  shows "finder_loop m ks \<noteq> None"
  using assms by (induction ks) (auto simp: Let_def split: option.splits)

lemma explore_filter:
  assumes "length acc < MAX_FREE"
  shows "explore m tbl ni is acc =
     take MAX_FREE (acc @ map int (filter (\<lambda>i. slot m tbl i = ni) is))"
  using assms
proof (induction "is" arbitrary: acc)
  case (Cons i "is")
  show ?case
  proof (cases "length acc + 1 < MAX_FREE")
    case True
    with Cons.IH [of "acc @ [int i]"] Cons.IH [of acc] Cons.prems show ?thesis by (simp add: Let_def)
  next
    case False
    with Cons.prems have "MAX_FREE = length (acc @ [int i])" "MAX_FREE - length acc = 1" by simp_all
    with Cons.IH [of acc] Cons.prems show ?thesis by (auto simp: Let_def)
  qed
qed simp

section \<open>What the driver's library is given\<close>

definition ni_entries :: "machine \<Rightarrow> u64 \<Rightarrow> nat list" where
  "ni_entries m tbl = filter (\<lambda>i. slot m tbl i = slot m tbl FIRST_NI_SYSCALL) [0..<ENTRIES_TO_EXPLORE]"

lemma ni_entries_many:
  assumes "pattern m tbl"
  shows "7 \<le> length (ni_entries m tbl)"
proof -
  have "set (FIRST_NI_SYSCALL # NI_SYSCALLS) \<subseteq> set (ni_entries m tbl)"
    using assms
    by (auto simp: pattern_def ni_entries_def NI_SYSCALLS_def FIRST_NI_SYSCALL_def ENTRIES_TO_EXPLORE_def Let_def)
  moreover have "card (set (FIRST_NI_SYSCALL # NI_SYSCALLS)) = 7"
    by (simp add: NI_SYSCALLS_def FIRST_NI_SYSCALL_def)
  ultimately show ?thesis
    by (metis card_length card_mono finite_set le_trans)
qed

text \<open>No entry between the first and the hundred-thirty-fourth is free: \<open>good_area\<close> looked.\<close>

lemma ni_entries_late:
  assumes "pattern m tbl" "i \<in> set (ni_entries m tbl)"
  shows "i = 0 \<or> FIRST_NI_SYSCALL \<le> i"
proof (rule ccontr)
  assume "\<not> (i = 0 \<or> FIRST_NI_SYSCALL \<le> i)"
  then have "i \<in> set [1..<FIRST_NI_SYSCALL]" by simp
  with assms show False by (auto simp: pattern_def good_area_def ni_entries_def list_all_iff Let_def)
qed

lemma init_module_lib:
  assumes "init_module m = Some l"
  shows "pattern m (sys_call_table_address l)" "lib_ok l"
    "sys_ni_syscall_address l = slot m (sys_call_table_address l) FIRST_NI_SYSCALL"
    "take 3 (free_entries l) = map int (take 3 (ni_entries m (sys_call_table_address l)))"
proof -
  obtain tbl where tbl: "syscall_table_finder m = Some tbl"
    using assms by (auto simp: init_module_def split: option.splits)
  define found where "found = take 15 (map int (ni_entries m tbl))"
  have f: "explore m tbl (slot m tbl FIRST_NI_SYSCALL) [0..<ENTRIES_TO_EXPLORE] [] = found"
    by (simp add: explore_filter found_def ni_entries_def MAX_FREE_def)
  have l: "l = \<lparr>sys_call_table_address = tbl, sys_ni_syscall_address = slot m tbl FIRST_NI_SYSCALL,
      free_entries = found @ replicate (MAX_FREE - length found) 0, num_entries_found = int (length found),
      restore = restore_init\<rparr>"
    using assms tbl f by (simp add: init_module_def Let_def)
  show p: "pattern m (sys_call_table_address l)"
    using finder_loop_sound [of m _ tbl] tbl by (simp add: l syscall_table_finder_def)
  have "7 \<le> length (ni_entries m tbl)" using ni_entries_many [OF p] by (simp add: l)
  then have len: "7 \<le> length found" "length found \<le> 15" by (simp_all add: found_def)
  then show "lib_ok l" by (simp add: l lib_ok_def MAX_FREE_def HACKED_ENTRIES_def)
  show "sys_ni_syscall_address l = slot m (sys_call_table_address l) FIRST_NI_SYSCALL" by (simp add: l)
  show "take 3 (free_entries l) = map int (take 3 (ni_entries m (sys_call_table_address l)))"
    using len by (simp add: l) (simp add: found_def take_map)
qed

text \<open>The driver's state at \<open>insmod\<close>, with the table the discovery found and \<open>reg\<close> in the control register.\<close>

definition insmod_state :: "machine \<Rightarrow> usctm_lib \<Rightarrow> nat \<Rightarrow> u64 \<Rightarrow> syscall_table" where
  "insmod_state m l sz reg = \<lparr>lib = l, table = slot m (sys_call_table_address l), table_size = sz, cr0_register = reg,
     cr0 = 0, the_syscall_table = 0, the_ni_syscall = 0, restore_entries = [-1, -1, -1], indexes = [-1, -1, -1]\<rparr>"

lemma insmod_three_entries:
  assumes "init_module m = Some l" "ENTRIES_TO_EXPLORE \<le> sz"
  obtains i j k where "three_entries (insmod_state m l sz reg) (int i) (int j) (int k)"
    "set [i, j, k] \<subseteq> set (ni_entries m (sys_call_table_address l))"
proof -
  note l = init_module_lib [OF assms(1)]
  define xs where "xs = ni_entries m (sys_call_table_address l)"
  have "7 \<le> length xs" using ni_entries_many [OF l(1)] by (simp add: xs_def)
  then have "Suc (Suc (Suc 0)) \<le> length xs" by simp
  then obtain i j k r where xs: "xs = i # j # k # r" by (auto simp: Suc_le_length_iff)
  have "distinct xs" "set xs \<subseteq> {..<256}" by (auto simp: xs_def ni_entries_def ENTRIES_TO_EXPLORE_def)
  then have "three_entries (insmod_state m l sz reg) (int i) (int j) (int k)"
    using l(2,4) assms(2) unfolding xs_def [symmetric] xs
    by (auto simp: three_entries_def insmod_state_def ENTRIES_TO_EXPLORE_def)
  moreover have "set [i, j, k] \<subseteq> set xs" by (simp add: xs)
  ultimately show thesis using that unfolding xs_def by blast
qed

section \<open>Completeness\<close>

lemma finder_complete:
  assumes k: "k < unat ((MAX_ADDR - START) div 4096)" and j: "j < 512"
    and mapped: "sys_vtpmo m (START + word_of_nat (4096 * k)) \<noteq> NO_MAP"
      "sys_vtpmo m (START + word_of_nat (4096 * k) + 4096) \<noteq> NO_MAP"
    and pat: "pattern m (START + word_of_nat (4096 * k) + word_of_nat (8 * j))"
  shows "\<exists>l. init_module m = Some l"
proof -
  have "validate_page m (START + word_of_nat (4096 * k)) \<noteq> None"
    unfolding validate_page_def
    by (rule validate_loop_complete [OF _ pat]) (use j mapped in \<open>auto simp del: of_nat_mult\<close>)
  then have "syscall_table_finder m \<noteq> None"
    unfolding syscall_table_finder_def using k mapped(1)
    by (intro finder_loop_complete [of k]) (simp_all del: of_nat_mult)
  then show ?thesis by (auto simp: init_module_def Let_def)
qed

section \<open>A machine with a table\<close>

text \<open>Every address is mapped by a large page, and the first page of the search holds a table.\<close>

definition demo_ni :: u64 where
  "demo_ni = 0xffffffff81000000"

definition demo_machine :: machine where
  "demo_machine = \<lparr>cr3 = 0, phys_to_virt = (\<lambda>_. 0),
     mem = (\<lambda>a. if a < START then 0x81
       else if a \<in> (\<lambda>i. START + word_of_nat (8 * i)) ` set (FIRST_NI_SYSCALL # NI_SYSCALLS) then demo_ni else 4)\<rparr>"

lemma demo_mapped: "sys_vtpmo demo_machine v \<noteq> NO_MAP"
proof -
  have "8 * pt_index k v < START" for k
  proof -
    have "pt_index k v \<le> 0x1ff" unfolding pt_index_def by (rule word_and_le1)
    then have "unat (pt_index k v) \<le> 511" by (simp add: word_le_nat_alt)
    moreover have "8 * pt_index k v = word_of_nat (8 * unat (pt_index k v))" by simp
    ultimately have "unat (8 * pt_index k v) \<le> 4088" by (simp only:) (simp add: unat_of_nat del: of_nat_mult)
    then show ?thesis by (simp add: word_less_nat_alt START_def)
  qed
  then have "pt_entry demo_machine b k v = 0x81" for b k by (simp add: pt_entry_def demo_machine_def)
  then show ?thesis by (simp add: sys_vtpmo_def VALID_def LH_MAPPING_def PT_ADDRESS_MASK_def NO_MAP_def)
qed

lemma slot_offset_inj:
  assumes "i < 256" "j < 256"
  shows "START + word_of_nat (8 * i) = START + word_of_nat (8 * j) \<longleftrightarrow> i = j"
proof -
  have "unat (word_of_nat (8 * i) :: u64) = 8 * i" "unat (word_of_nat (8 * j) :: u64) = 8 * j"
    using assms by (simp_all add: unat_of_nat del: of_nat_mult)
  then show ?thesis by (metis add_left_cancel mult_left_cancel zero_neq_numeral)
qed

lemma demo_slot:
  assumes "i < 256"
  shows "slot demo_machine START i = (if i \<in> set (FIRST_NI_SYSCALL # NI_SYSCALLS) then demo_ni else 4)"
proof -
  have s: "START + word_of_nat (8 * i) = word_of_nat (unat START + 8 * i)" by simp
  have "unat (START + word_of_nat (8 * i)) = unat START + 8 * i"
    unfolding s using assms by (simp add: unat_of_nat START_def del: of_nat_add of_nat_mult)
  then have "\<not> START + word_of_nat (8 * i) < START" by (simp add: word_less_nat_alt)
  moreover have "START + word_of_nat (8 * i) \<in> (\<lambda>i. START + word_of_nat (8 * i)) ` set (FIRST_NI_SYSCALL # NI_SYSCALLS) \<longleftrightarrow>
      i \<in> set (FIRST_NI_SYSCALL # NI_SYSCALLS)"
  proof -
    have "\<forall>j \<in> set (FIRST_NI_SYSCALL # NI_SYSCALLS). j < 256" by (simp add: FIRST_NI_SYSCALL_def NI_SYSCALLS_def)
    then show ?thesis using slot_offset_inj [OF assms] by (auto simp del: of_nat_mult)
  qed
  ultimately show ?thesis by (simp add: slot_def demo_machine_def del: of_nat_mult)
qed

lemma demo_pattern: "pattern demo_machine START"
proof -
  have "slot demo_machine START FIRST_NI_SYSCALL = demo_ni" by (subst demo_slot) (simp_all add: FIRST_NI_SYSCALL_def)
  moreover have "\<forall>i \<in> set NI_SYSCALLS. slot demo_machine START i = demo_ni"
    by (auto simp: demo_slot NI_SYSCALLS_def)
  moreover have "\<forall>i \<in> set [1..<FIRST_NI_SYSCALL]. slot demo_machine START i \<noteq> demo_ni"
    by (auto simp: demo_slot NI_SYSCALLS_def FIRST_NI_SYSCALL_def demo_ni_def)
  ultimately show ?thesis
    by (auto simp: pattern_def good_area_def list_all_iff Let_def) (simp_all add: demo_ni_def)
qed

end
