(* ===== verification/Makefs.thy ===== *)
theory Makefs
  imports Mount
begin

text \<open>
  The formatter (\<^verbatim>\<open>bldmsmakefs.c\<close>), a user program that writes the superblock, the inode of
  the single file and every data block of an image, in that order, through \<open>write\<close>. The
  image is a byte list; \<open>wr k\<close> is the result of the \<open>k\<close>-th call of \<open>write\<close>, a number of bytes or
  \<open>-1\<close>. The contents of memory the program writes without setting it, the superblock's padding,
  the inode's padding and unused field and the rest of the inode's block, are parameters.
\<close>

section \<open>Writing\<close>

record mkfs =
  image :: bytes
  fpos :: nat
  writes :: nat

text \<open>A call of \<open>write\<close> that returns \<open>r\<close> has put the first \<open>r\<close> bytes of its buffer at the position.\<close>

definition write_fd :: "(nat \<Rightarrow> nat \<Rightarrow> int) \<Rightarrow> bytes \<Rightarrow> mkfs \<Rightarrow> int \<times> mkfs" where
  "write_fd wr bs st =
     (let r = wr (writes st) (length bs); n = nat r in
      (r, st\<lparr>image := memcpy_at (fpos st) (take n bs) (image st), fpos := fpos st + n, writes := writes st + 1\<rparr>))"

text \<open>
  \<open>write_all\<close>: the call and the comparison of its result with the length; \<open>Inl\<close> is the state in
  which the program gives up.
\<close>

definition write_all :: "(nat \<Rightarrow> nat \<Rightarrow> int) \<Rightarrow> bytes \<Rightarrow> mkfs \<Rightarrow> mkfs + mkfs" where
  "write_all wr bs st =
     (let (r, st') = write_fd wr bs st in if r \<noteq> int (length bs) then Inl st' else Inr st')"

definition proceed :: "mkfs + mkfs \<Rightarrow> (mkfs \<Rightarrow> mkfs + mkfs) \<Rightarrow> mkfs + mkfs" where
  "proceed r f = (case r of Inl st \<Rightarrow> Inl st | Inr st \<Rightarrow> f st)"

section \<open>Data blocks\<close>

text \<open>
  The structure \<open>blk\<close> has the layout of the driver's \<open>bldms_block\<close>. With \<open>FILL_DEV\<close> five blocks
  get a message; \<open>clk i\<close> is what \<open>clock_gettime\<close> returns for block \<open>i\<close>, seconds and nanoseconds.
\<close>

definition to_bytes :: "string \<Rightarrow> bytes" where
  "to_bytes str = map of_char str"

definition fill_string :: "nat \<Rightarrow> string option" where
  "fill_string i =
     (if i = 0 then Some (''This is the message present at the first block, but with a timestamp of 100 seconds greater than the original'' @ [CHR 0x0A])
      else if i = 5 then Some (''Hello, I am a message present in block number 5!'' @ [CHR 0x0A])
      else if i = 9 then Some (''This is message for block 9, with timestamp of 9 seconds greater than it should be :)'' @ [CHR 0x0A])
      else if i = 17 then Some (''Hi there, this is message from block number 17 and my timestamp has been increased exactly of 17 seconds ;)'' @ [CHR 0x0A])
      else if i = 22 then Some (''I'' @ [CHR 0x27] @ ''m just a normal message put in block 22, but at least by block number is palindrome :)'' @ [CHR 0x0A])
      else None)"

definition BILLION :: u64 where
  "BILLION = 1000000000"

definition fill_nsec :: "(nat \<Rightarrow> u64 \<times> u64) \<Rightarrow> nat \<Rightarrow> u64" where
  "fill_nsec clk i =
     (let (sec, nanos) = clk i; nsec = sec * BILLION + nanos in
      if i = 9 \<or> i = 17 then nsec + word_of_nat i * BILLION
      else if i = 0 then nsec + 100 * BILLION
      else nsec)"

definition write_block ::
  "(nat \<Rightarrow> nat \<Rightarrow> int) \<Rightarrow> bool \<Rightarrow> (nat \<Rightarrow> u64 \<times> u64) \<Rightarrow> nat \<Rightarrow> mkfs \<Rightarrow> mkfs + mkfs" where
  "write_block wr fill_dev clk i st =
     (let nbytes = DEFAULT_BLOCK_SIZE - METADATA_SIZE; block_padding = replicate nbytes 0 in
      case (if fill_dev then fill_string i else None) of
        Some str \<Rightarrow>
          let s = to_bytes str @ [0];
              my_blk = \<lparr>nsec = Ktime (fill_nsec clk i), is_valid = BLK_VALID, valid_bytes = word_of_nat (length s)\<rparr>;
              vb = unat (valid_bytes my_blk)
          in proceed (write_all wr (encode_block my_blk) st) (\<lambda>st.
             proceed (write_all wr (take vb s) st) (\<lambda>st.
             write_all wr (take (nbytes - vb) block_padding) st))
      | None \<Rightarrow>
          let my_blk = \<lparr>nsec = Ktime 0, is_valid = BLK_INVALID, valid_bytes = 0\<rparr>
          in proceed (write_all wr (encode_block my_blk) st) (\<lambda>st.
             write_all wr block_padding st))"

fun write_blocks ::
  "(nat \<Rightarrow> nat \<Rightarrow> int) \<Rightarrow> bool \<Rightarrow> (nat \<Rightarrow> u64 \<times> u64) \<Rightarrow> nat list \<Rightarrow> mkfs \<Rightarrow> mkfs + mkfs" where
  "write_blocks wr fill_dev clk [] st = Inr st"
| "write_blocks wr fill_dev clk (i # is) st =
     proceed (write_block wr fill_dev clk i st) (write_blocks wr fill_dev clk is)"

section \<open>main\<close>

text \<open>
  What the program finds: the number of arguments, whether the image opens, the image, whose
  length is the size \<open>fstat\<close> reports, and the memory it does not set. The result is the value
  \<open>main\<close> returns and the image.
\<close>

record mkfs_env =
  argc :: int
  open_ok :: bool
  write_result :: "nat \<Rightarrow> nat \<Rightarrow> int"
  FILL_DEV :: bool
  clock :: "nat \<Rightarrow> u64 \<times> u64"
  sb_padding :: bytes
  inode_pad :: u32
  inode_data_block :: u64
  malloc_padding :: bytes

text \<open>The inode of the single file, for an image of \<open>sz\<close> bytes.\<close>

definition inode_of :: "mkfs_env \<Rightarrow> nat \<Rightarrow> bldms_inode" where
  "inode_of env sz = \<lparr>mode = S_IFREG, inode_no = word_of_nat BLDMS_SINGLEFILE_INODE_NUMBER,
     data_block_number = inode_data_block env, file_size = word_of_nat sz - 2 * 4096\<rparr>"

definition main :: "mkfs_env \<Rightarrow> bytes \<Rightarrow> int \<times> bytes" where
  "main env img =
     (if argc env \<noteq> 2 then (-1, img)
      else if \<not> open_ok env then (-1, img)
      else
        let wr = write_result env;
            st = \<lparr>image = img, fpos = 0, writes = 0\<rparr>;
            sb_info = \<lparr>version = 1, magic = MAGIC\<rparr>;
            (ret, st) = write_fd wr (sb_block (sb_padding env) sb_info) st
        in if ret \<noteq> int DEFAULT_BLOCK_SIZE then (ret, image st)
           else
             let file_inode = inode_of env (length img);
                 (ret, st) = write_fd wr (encode_inode (inode_pad env) file_inode) st
             in if ret \<noteq> int inode_size then (-1, image st)
                else
                  let nbytes = DEFAULT_BLOCK_SIZE - inode_size;
                      (ret, st) = write_fd wr (take nbytes (malloc_padding env)) st
                  in if ret \<noteq> int nbytes then (-1, image st)
                     else
                       let num_data_blocks = unat (ucast (file_size file_inode div 4096) :: u32)
                       in case write_blocks wr (FILL_DEV env) (clock env) [0..<num_data_blocks] st of
                            Inl st \<Rightarrow> (-1, image st)
                          | Inr st \<Rightarrow> (0, image st))"

section \<open>What the writes leave\<close>

text \<open>Every \<open>write\<close> writes its whole buffer.\<close>

definition writes_ok :: "(nat \<Rightarrow> nat \<Rightarrow> int) \<Rightarrow> bool" where
  "writes_ok wr \<longleftrightarrow> (\<forall>k n. wr k n = int n)"

text \<open>The image is \<open>done\<close>, written so far, and \<open>rest\<close>, what it held before.\<close>

definition written :: "bytes \<Rightarrow> bytes \<Rightarrow> mkfs \<Rightarrow> bool" where
  "written done rest st \<longleftrightarrow> image st = done @ rest \<and> fpos st = length done"

lemma write_fd_written:
  assumes "writes_ok wr" "written done rest st"
  shows "\<exists>st'. write_fd wr bs st = (int (length bs), st') \<and> written (done @ bs) (drop (length bs) rest) st'"
  using assms by (simp add: write_fd_def writes_ok_def written_def Let_def memcpy_at_def)

lemma write_all_written:
  assumes "writes_ok wr" "written done rest st"
  shows "\<exists>st'. write_all wr bs st = Inr st' \<and> written (done @ bs) (drop (length bs) rest) st'"
  using write_fd_written [OF assms, of bs] by (auto simp: write_all_def)

text \<open>The bytes of a data block, and the message they hold.\<close>

definition block_image :: "bool \<Rightarrow> (nat \<Rightarrow> u64 \<times> u64) \<Rightarrow> nat \<Rightarrow> bytes" where
  "block_image fill_dev clk i =
     (case (if fill_dev then fill_string i else None) of
        Some str \<Rightarrow> new_block (new_metadata (Ktime (fill_nsec clk i)) (length str + 1)) (to_bytes str @ [0])
      | None \<Rightarrow> replicate DEFAULT_BLOCK_SIZE 0)"

lemma fill_string_length: "fill_string i = Some str \<Longrightarrow> length str < 200"
  by (auto simp: fill_string_def split: if_splits)

lemma new_block_append:
  assumes "length source \<le> DEFAULT_BLOCK_SIZE - METADATA_SIZE"
  shows "encode_block b @ source @ replicate (DEFAULT_BLOCK_SIZE - METADATA_SIZE - length source) 0 = new_block b source"
  using assms by (simp add: new_block_def memcpy_at_def) (simp add: layout_consts)

lemma zero_block_image:
  "encode_block \<lparr>nsec = Ktime 0, is_valid = BLK_INVALID, valid_bytes = 0\<rparr> @ replicate (DEFAULT_BLOCK_SIZE - METADATA_SIZE) 0 =
     replicate DEFAULT_BLOCK_SIZE 0"
proof -
  have z: "le_bytes k 0 = replicate k 0" for k by (induction k) simp_all
  show ?thesis by (simp add: encode_block_def z BLK_INVALID_def layout_consts flip: replicate_add)
qed

lemma length_block_image: "length (block_image fill_dev clk i) = DEFAULT_BLOCK_SIZE"
proof (cases "if fill_dev then fill_string i else None")
  case (Some str)
  then have "length str < 200" using fill_string_length by (auto split: if_splits)
  with Some show ?thesis by (simp add: block_image_def to_bytes_def layout_consts new_block_def)
qed (simp add: block_image_def)

lemma write_block_written:
  assumes wr: "writes_ok wr" and st: "written done rest st"
  shows "\<exists>st'. write_block wr fill_dev clk i st = Inr st' \<and>
     written (done @ block_image fill_dev clk i) (drop DEFAULT_BLOCK_SIZE rest) st'"
proof (cases "if fill_dev then fill_string i else None")
  case None
  let ?b = "\<lparr>nsec = Ktime 0, is_valid = BLK_INVALID, valid_bytes = 0\<rparr>"
  obtain st1 where 1: "write_all wr (encode_block ?b) st = Inr st1"
    "written (done @ encode_block ?b) (drop METADATA_SIZE rest) st1"
    using write_all_written [OF wr st, of "encode_block ?b"] by auto
  obtain st2 where 2: "write_all wr (replicate (DEFAULT_BLOCK_SIZE - METADATA_SIZE) 0) st1 = Inr st2"
    "written ((done @ encode_block ?b) @ replicate (DEFAULT_BLOCK_SIZE - METADATA_SIZE) 0)
       (drop (DEFAULT_BLOCK_SIZE - METADATA_SIZE) (drop METADATA_SIZE rest)) st2"
    using write_all_written [OF wr 1(2), of "replicate (DEFAULT_BLOCK_SIZE - METADATA_SIZE) 0"] by auto
  have "(done @ encode_block ?b) @ replicate (DEFAULT_BLOCK_SIZE - METADATA_SIZE) 0 = done @ block_image fill_dev clk i"
    unfolding append_assoc zero_block_image using None by (simp add: block_image_def)
  with 1 2 None show ?thesis by (simp add: write_block_def proceed_def Let_def layout_consts)
next
  case (Some str)
  define src where "src = to_bytes str @ [0]"
  define b where "b = \<lparr>nsec = Ktime (fill_nsec clk i), is_valid = BLK_VALID, valid_bytes = word_of_nat (length src)\<rparr>"
  let ?pad = "replicate (DEFAULT_BLOCK_SIZE - METADATA_SIZE - length src) 0"
  have l: "length str < 200" using Some fill_string_length by (auto split: if_splits)
  then have len: "length src \<le> DEFAULT_BLOCK_SIZE - METADATA_SIZE" by (simp add: src_def to_bytes_def layout_consts)
  have vb: "unat (valid_bytes b) = length src" using unat_valid_bytes [OF len] by (simp add: b_def)
  have bi: "block_image fill_dev clk i = new_block b src"
    using Some by (simp add: block_image_def b_def new_metadata_def src_def to_bytes_def)
  obtain st1 where 1: "write_all wr (encode_block b) st = Inr st1"
    "written (done @ encode_block b) (drop METADATA_SIZE rest) st1"
    using write_all_written [OF wr st, of "encode_block b"] by auto
  obtain st2 where 2: "write_all wr src st1 = Inr st2"
    "written ((done @ encode_block b) @ src) (drop (length src) (drop METADATA_SIZE rest)) st2"
    using write_all_written [OF wr 1(2), of src] by auto
  obtain st3 where 3: "write_all wr ?pad st2 = Inr st3"
    "written (((done @ encode_block b) @ src) @ ?pad) (drop (length ?pad) (drop (length src) (drop METADATA_SIZE rest))) st3"
    using write_all_written [OF wr 2(2), of ?pad] by auto
  have "((done @ encode_block b) @ src) @ ?pad = done @ block_image fill_dev clk i"
    unfolding append_assoc new_block_append [OF len] bi ..
  moreover have "drop (length ?pad) (drop (length src) (drop METADATA_SIZE rest)) = drop DEFAULT_BLOCK_SIZE rest"
    using len by (simp add: layout_consts)
  moreover have "write_block wr fill_dev clk i st =
      proceed (write_all wr (encode_block b) st) (\<lambda>st. proceed (write_all wr src st) (write_all wr ?pad))"
    using Some vb by (simp add: write_block_def Let_def b_def src_def)
  ultimately show ?thesis using 1 2 3 by (simp add: proceed_def)
qed

lemma write_blocks_written:
  assumes wr: "writes_ok wr"
  shows "written done rest st \<Longrightarrow> \<exists>st'. write_blocks wr fill_dev clk is st = Inr st' \<and>
     written (done @ concat (map (block_image fill_dev clk) is)) (drop (length is * DEFAULT_BLOCK_SIZE) rest) st'"
proof (induction "is" arbitrary: "done" rest st)
  case (Cons i "is")
  obtain st1 where 1: "write_block wr fill_dev clk i st = Inr st1"
    "written (done @ block_image fill_dev clk i) (drop DEFAULT_BLOCK_SIZE rest) st1"
    using write_block_written [OF wr Cons.prems] by blast
  from Cons.IH [OF 1(2)] 1(1) show ?case by (auto simp: proceed_def add.commute)
qed simp

section \<open>The formatted image\<close>

text \<open>The image as the kernel shows it to the driver.\<close>

definition blocks_of :: "bytes \<Rightarrow> disk" where
  "blocks_of img i = take DEFAULT_BLOCK_SIZE (drop (i * DEFAULT_BLOCK_SIZE) img)"

lemma block_of_concat:
  assumes "\<And>j. length (f j) = DEFAULT_BLOCK_SIZE" "i < length xs"
  shows "take DEFAULT_BLOCK_SIZE (drop (i * DEFAULT_BLOCK_SIZE) (concat (map f xs) @ rest)) = f (xs ! i)"
  using assms(2)
proof (induction xs arbitrary: i)
  case (Cons x xs)
  then show ?case using assms(1) by (cases i) simp_all
qed simp

text \<open>The environment of a run that gets everything it asks for.\<close>

definition mkfs_env_ok :: "mkfs_env \<Rightarrow> bool" where
  "mkfs_env_ok env \<longleftrightarrow> argc env = 2 \<and> open_ok env \<and> writes_ok (write_result env) \<and>
     length (sb_padding env) = 4080 \<and> length (malloc_padding env) = 4064"

definition header_image :: "mkfs_env \<Rightarrow> nat \<Rightarrow> bytes" where
  "header_image env sz = sb_block (sb_padding env) \<lparr>version = 1, magic = MAGIC\<rparr> @
     encode_inode (inode_pad env) (inode_of env sz) @ malloc_padding env"

lemma num_data_blocks:
  assumes "8192 \<le> sz" "sz < 2 ^ 43"
  shows "unat (word_of_nat sz - 2 * 4096 :: u64) = sz - 8192"
    "unat (ucast ((word_of_nat sz - 2 * 4096 :: u64) div 4096) :: u32) = (sz - 8192) div 4096"
proof -
  have w: "(word_of_nat sz - 2 * 4096 :: u64) = word_of_nat (sz - 8192)" using assms by (simp add: of_nat_diff)
  show u: "unat (word_of_nat sz - 2 * 4096 :: u64) = sz - 8192"
    unfolding w using assms by (simp add: unat_of_nat del: of_nat_diff)
  have "unat ((word_of_nat sz - 2 * 4096 :: u64) div 4096) = (sz - 8192) div 4096"
    unfolding unat_div u by simp
  then show "unat (ucast ((word_of_nat sz - 2 * 4096 :: u64) div 4096) :: u32) = (sz - 8192) div 4096"
    using assms by (subst unat_ucast_64_32) simp_all
qed

lemma length_header: "mkfs_env_ok env \<Longrightarrow> length (header_image env sz) = 2 * DEFAULT_BLOCK_SIZE"
  by (simp add: header_image_def sb_block_def sb.length_enc inode.length_enc mkfs_env_ok_def inode_size_def layout_consts)

lemma main_image:
  assumes env: "mkfs_env_ok env" and sz: "8192 \<le> length img" "length img < 2 ^ 43"
  defines "n \<equiv> (length img - 8192) div 4096"
  shows "main env img = (0, header_image env (length img) @
     concat (map (block_image (FILL_DEV env) (clock env)) [0..<n]) @ drop ((n + 2) * DEFAULT_BLOCK_SIZE) img)"
proof -
  have wr: "writes_ok (write_result env)" using env by (simp add: mkfs_env_ok_def)
  let ?st = "\<lparr>image = img, fpos = 0, writes = 0\<rparr>"
  let ?sb = "sb_block (sb_padding env) \<lparr>version = 1, magic = MAGIC\<rparr>"
  let ?in = "encode_inode (inode_pad env) (inode_of env (length img))"
  have lens: "length ?sb = 4096" "length ?in = 32" "length (malloc_padding env) = 4064"
    using env by (simp_all add: sb_block_def sb.length_enc inode.length_enc mkfs_env_ok_def inode_size_def)
  have "written [] img ?st" by (simp add: written_def)
  from write_fd_written [OF wr this, of ?sb] obtain st1 where
    1: "write_fd (write_result env) ?sb ?st = (4096, st1)" "written ?sb (drop 4096 img) st1"
    by (auto simp: lens)
  from write_fd_written [OF wr 1(2), of ?in] obtain st2 where
    2: "write_fd (write_result env) ?in st1 = (32, st2)" "written (?sb @ ?in) (drop 4128 img) st2"
    by (auto simp: lens)
  from write_fd_written [OF wr 2(2), of "malloc_padding env"] obtain st3 where
    3: "write_fd (write_result env) (malloc_padding env) st2 = (4064, st3)"
       "written ((?sb @ ?in) @ malloc_padding env) (drop 8192 img) st3"
    by (auto simp: lens)
  from write_blocks_written [OF wr 3(2), of "FILL_DEV env" "clock env" "[0..<n]"] obtain st4 where
    4: "write_blocks (write_result env) (FILL_DEV env) (clock env) [0..<n] st3 = Inr st4"
       "written (((?sb @ ?in) @ malloc_padding env) @ concat (map (block_image (FILL_DEV env) (clock env)) [0..<n]))
          (drop (n * DEFAULT_BLOCK_SIZE) (drop 8192 img)) st4"
    by auto
  have "drop (n * DEFAULT_BLOCK_SIZE) (drop 8192 img) = drop ((n + 2) * DEFAULT_BLOCK_SIZE) img"
    by (simp add: layout_consts add.commute)
  then have img: "image st4 = header_image env (length img) @
      concat (map (block_image (FILL_DEV env) (clock env)) [0..<n]) @ drop ((n + 2) * DEFAULT_BLOCK_SIZE) img"
    using 4(2) by (simp add: written_def header_image_def)
  have nb: "unat (ucast (file_size (inode_of env (length img)) div 4096) :: u32) = n"
    using num_data_blocks(2) [OF sz] by (simp add: inode_of_def n_def)
  have "argc env = 2" "open_ok env" using env by (simp_all add: mkfs_env_ok_def)
  moreover have "take 4064 (malloc_padding env) = malloc_padding env" using lens by simp
  ultimately show ?thesis
    by (simp add: main_def Let_def 1 2 3 4(1) nb img inode_size_def layout_consts)
qed

lemma formatted_blocks:
  fixes env sz n rest
  assumes env: "mkfs_env_ok env"
  defines "img \<equiv> header_image env sz @ concat (map (block_image (FILL_DEV env) (clock env)) [0..<n]) @ rest"
  shows "take 16 (blocks_of img SB_BLOCK_NUMBER) = encode_sb \<lparr>version = 1, magic = MAGIC\<rparr>"
    "take inode_size (blocks_of img BLDMS_SINGLEFILE_INODE_NUMBER) = encode_inode (inode_pad env) (inode_of env sz)"
    "i < n \<Longrightarrow> blocks_of img (i + NUM_METADATA_BLKS) = block_image (FILL_DEV env) (clock env) i"
proof -
  have len: "length (sb_padding env) = 4080" "length (malloc_padding env) = 4064"
    using env by (simp_all add: mkfs_env_ok_def)
  show "take 16 (blocks_of img SB_BLOCK_NUMBER) = encode_sb \<lparr>version = 1, magic = MAGIC\<rparr>"
    by (simp add: img_def blocks_of_def header_image_def sb_block_def SB_BLOCK_NUMBER_def sb.length_enc layout_consts min_def)
  have "drop 4096 img = encode_inode (inode_pad env) (inode_of env sz) @ malloc_padding env @
      concat (map (block_image (FILL_DEV env) (clock env)) [0..<n]) @ rest"
    using len by (simp add: img_def header_image_def sb_block_def sb.length_enc)
  then show "take inode_size (blocks_of img BLDMS_SINGLEFILE_INODE_NUMBER) = encode_inode (inode_pad env) (inode_of env sz)"
    by (simp add: blocks_of_def BLDMS_SINGLEFILE_INODE_NUMBER_def inode.length_enc layout_consts inode_size_def min_def)
  assume i: "i < n"
  have "drop ((i + NUM_METADATA_BLKS) * DEFAULT_BLOCK_SIZE) img =
      drop (i * DEFAULT_BLOCK_SIZE) (drop (2 * DEFAULT_BLOCK_SIZE) img)"
    by (simp add: layout_consts add.commute)
  also have "drop (2 * DEFAULT_BLOCK_SIZE) img = concat (map (block_image (FILL_DEV env) (clock env)) [0..<n]) @ rest"
    using length_header [OF env, of sz] by (simp add: img_def)
  finally show "blocks_of img (i + NUM_METADATA_BLKS) = block_image (FILL_DEV env) (clock env) i"
    using block_of_concat [of "block_image (FILL_DEV env) (clock env)" i "[0..<n]" rest] length_block_image i
    by (simp add: blocks_of_def)
qed

lemma zero_image_metadata:
  "block_metadata (replicate DEFAULT_BLOCK_SIZE 0) = \<lparr>nsec = Ktime 0, is_valid = BLK_INVALID, valid_bytes = 0\<rparr>"
  by (subst zero_block_image [symmetric]) (simp add: block_metadata_def block.dec_enc)

lemma block_image_ok:
  "block_ok (block_image fill_dev clk i) (block_metadata (block_image fill_dev clk i))"
  "(if is_valid (block_metadata (block_image fill_dev clk i)) = BLK_VALID
    then Some (message_at (block_image fill_dev clk i) (block_metadata (block_image fill_dev clk i))) else None) =
   map_option (\<lambda>str. (Ktime (fill_nsec clk i), to_bytes str @ [0])) (if fill_dev then fill_string i else None)"
proof (atomize (full), cases "if fill_dev then fill_string i else None")
  case None
  then have "block_image fill_dev clk i = replicate DEFAULT_BLOCK_SIZE 0" by (simp add: block_image_def)
  with None show "block_ok (block_image fill_dev clk i) (block_metadata (block_image fill_dev clk i)) \<and>
    (if is_valid (block_metadata (block_image fill_dev clk i)) = BLK_VALID
     then Some (message_at (block_image fill_dev clk i) (block_metadata (block_image fill_dev clk i))) else None) =
    map_option (\<lambda>str. (Ktime (fill_nsec clk i), to_bytes str @ [0])) (if fill_dev then fill_string i else None)"
    by (simp add: block_ok_def zero_image_metadata)
next
  case (Some str)
  define src where "src = to_bytes str @ [0]"
  have "length str < 200" using Some fill_string_length by (auto split: if_splits)
  then have len: "length src \<le> DEFAULT_BLOCK_SIZE - METADATA_SIZE" by (simp add: src_def to_bytes_def layout_consts)
  have "length src = length str + 1" by (simp add: src_def to_bytes_def)
  then have bi: "block_image fill_dev clk i = new_block (new_metadata (Ktime (fill_nsec clk i)) (length src)) src"
    using Some by (simp add: block_image_def flip: src_def)
  show "block_ok (block_image fill_dev clk i) (block_metadata (block_image fill_dev clk i)) \<and>
    (if is_valid (block_metadata (block_image fill_dev clk i)) = BLK_VALID
     then Some (message_at (block_image fill_dev clk i) (block_metadata (block_image fill_dev clk i))) else None) =
    map_option (\<lambda>str. (Ktime (fill_nsec clk i), to_bytes str @ [0])) (if fill_dev then fill_string i else None)"
    unfolding bi Some using new_block_ok [OF len] new_block_message [OF len] by (simp flip: src_def)
qed

definition makefs_messages :: "mkfs_env \<Rightarrow> nat \<Rightarrow> nat \<rightharpoonup> ktime \<times> bytes" where
  "makefs_messages env n i =
     (if i < n then map_option (\<lambda>str. (Ktime (fill_nsec (clock env) i), to_bytes str @ [0]))
        (if FILL_DEV env then fill_string i else None) else None)"

lemma makefs_formatted:
  assumes env: "mkfs_env_ok env" and sz: "8192 \<le> length img" "length img \<le> 8192 + NBLOCKS * DEFAULT_BLOCK_SIZE"
  shows "\<exists>img'. main env img = (0, img') \<and> length img' = length img \<and>
     formatted (blocks_of img') ((length img - 8192) div 4096) \<and>
     device_messages (blocks_of img') ((length img - 8192) div 4096) =
       makefs_messages env ((length img - 8192) div 4096)"
proof -
  define n where "n = (length img - 8192) div 4096"
  define img' where "img' = header_image env (length img) @
     concat (map (block_image (FILL_DEV env) (clock env)) [0..<n]) @ drop ((n + 2) * DEFAULT_BLOCK_SIZE) img"
  have sz': "length img < 2 ^ 43" using sz by (simp add: layout_consts)
  note b = formatted_blocks [OF env, where sz = "length img" and n = n and
    rest = "drop ((n + 2) * DEFAULT_BLOCK_SIZE) img", folded img'_def]
  have fs: "unat (file_size (inode_of env (length img))) = length img - 8192"
    using num_data_blocks(1) [OF sz(1) sz'] by (simp add: inode_of_def)
  have "length (concat (map (block_image (FILL_DEV env) (clock env)) [0..<n])) = n * DEFAULT_BLOCK_SIZE"
    by (simp add: length_concat o_def length_block_image sum_list_triv)
  then have "length img' = length img"
    using sz length_header [OF env, of "length img"] by (simp add: img'_def n_def layout_consts)
  moreover have "formatted (blocks_of img') n"
    using sz fs block_image_ok(1)
    by (simp add: formatted_def b sb.dec_enc inode.dec_enc) (simp add: n_def NBLOCKS_def DEFAULT_BLOCK_SIZE_def)
  moreover have "device_messages (blocks_of img') n = makefs_messages env n"
  proof
    fix i show "device_messages (blocks_of img') n i = makefs_messages env n i"
      using block_image_ok(2) [of "FILL_DEV env" "clock env" i] b(3) [of i]
      by (auto simp: device_messages_def makefs_messages_def Let_def)
  qed
  ultimately show ?thesis
    using main_image [OF env sz(1) sz'] by (simp add: n_def img'_def)
qed

end
