(* ===== verification/Installed.thy ===== *)
theory Installed
  imports User_Correct Table_Finder Makefs
begin

text \<open>
  The way of a system call: the number in the program, the entry of the system-call table, the
  routine of the driver. \<open>calls\<close> are the addresses of \<open>put_data\<close>, \<open>get_data\<close> and \<open>invalidate_data\<close>, in the
  order in which \<open>register_syscalls\<close> installs them (\<^verbatim>\<open>syscalls.c\<close>). The numbers that the module hands
  out reach the driver as long as the module is loaded, and not after it.
\<close>

definition routine_at :: "u64 list \<Rightarrow> syscall_table \<Rightarrow> int \<Rightarrow> routine option" where
  "routine_at calls t nr =
     (if nr < 0 \<or> nat nr \<ge> table_size t then None
      else if table t (nat nr) = calls ! 0 then Some PutData
      else if table t (nat nr) = calls ! 1 then Some GetData
      else if table t (nat nr) = calls ! 2 then Some InvalidateData
      else None)"

text \<open>The kernel with a given table.\<close>

definition with_table :: "u64 list \<Rightarrow> syscall_table \<Rightarrow> client \<Rightarrow> client" where
  "with_table calls t k = k\<lparr>routine_of := routine_at calls t\<rparr>"

lemma with_table_fields [simp]:
  "reliable (with_table calls t k) = reliable k" "routine_of (with_table calls t k) = routine_at calls t"
  "stray (with_table calls t k) = stray k" "open_of (with_table calls t k) = open_of k"
  by (simp_all add: with_table_def reliable_def)

lemma set_numbers_fields [simp]:
  "reliable (set_numbers argv k) = reliable k" "routine_of (set_numbers argv k) = routine_of k"
  "stray (set_numbers argv k) = stray k" "open_of (set_numbers argv k) = open_of k"
  "put_data_nr (set_numbers argv k) = atol (argv ! 2)" "get_data_nr (set_numbers argv k) = atol (argv ! 3)"
  "invalidate_data_nr (set_numbers argv k) = atol (argv ! 4)"
  by (simp_all add: set_numbers_def reliable_def)

section \<open>Loading and unloading\<close>

lemma loaded_routes:
  assumes t: "three_entries t a b c" and d: "distinct [p, g, v]"
  obtains t' where "bldms_init [p, g, v] 0 t = Inr (0, t')" "routine_at [p, g, v] t' a = Some PutData"
    "routine_at [p, g, v] t' b = Some GetData" "routine_at [p, g, v] t' c = Some InvalidateData"
    "andThen (register_syscalls [p, g, v] t) (\<lambda>(r, t). unregister_syscalls t) = bldms_exit t'"
proof -
  have e: "\<forall>e \<in> {a, b, c}. 0 \<le> e \<and> nat e < table_size t" "distinct [a, b, c]"
    using t by (simp_all add: three_entries_def)
  then have "nat a \<noteq> nat b" "nat a \<noteq> nat c" "nat b \<noteq> nat c" by auto
  then show thesis
    using e d by (intro that [of "snd (projr (register_syscalls [p, g, v] t))"])
      (auto simp: bldms_init_def bldms_exit_def register_success [OF t] routine_at_def)
qed

lemma unloaded_routes:
  assumes t: "three_entries t a b c" and x: "bldms_init [p, g, v] 0 t = Inr (0, t')" and d: "distinct [p, g, v]"
    and ni: "sys_ni_syscall_address (lib t) \<notin> {p, g, v}"
  obtains t'' where "bldms_exit t' = Inr t''" "lib t'' = lib t" "cr0_register t'' = cr0_register t"
    "\<And>nr. nr \<in> {a, b, c} \<Longrightarrow> routine_at [p, g, v] t'' nr = None \<and> table t'' (nat nr) = sys_ni_syscall_address (lib t)"
proof -
  obtain t1 where "bldms_init [p, g, v] 0 t = Inr (0, t1)"
    "andThen (register_syscalls [p, g, v] t) (\<lambda>(r, t). unregister_syscalls t) = bldms_exit t1"
    by (rule loaded_routes [OF t d])
  then have x': "bldms_exit t' = andThen (register_syscalls [p, g, v] t) (\<lambda>(r, t). unregister_syscalls t)" using x by simp
  obtain t'' where u: "andThen (register_syscalls [p, g, v] t) (\<lambda>(r, t). unregister_syscalls t) = Inr t''"
    "table t'' = (table t)(nat a := sys_ni_syscall_address (lib t), nat b := sys_ni_syscall_address (lib t),
       nat c := sys_ni_syscall_address (lib t))" "lib t'' = lib t" "cr0_register t'' = cr0_register t"
    using unregister_success [OF t, of p g v] by blast
  have "table t'' (nat nr) = sys_ni_syscall_address (lib t)" if "nr \<in> {a, b, c}" for nr using that u(2) by auto
  moreover from this have "routine_at [p, g, v] t'' nr = None" if "nr \<in> {a, b, c}" for nr
    using that ni by (simp add: routine_at_def)
  ultimately show thesis using u x' by (intro that [of t'']) simp_all
qed

section \<open>A formatted image\<close>

text \<open>What the formatter writes mounts as a driver that the programs can use.\<close>

lemma formatted_image_alive:
  assumes env: "mkfs_env_ok env" and sz: "8192 \<le> length img" "length img \<le> 8192 + NBLOCKS * DEFAULT_BLOCK_SIZE"
    and mb: "mount_bdev_ok mb"
    and fill: "\<And>d. fill_env_ok fenv ((length img - 8192) div 4096) (bldms_start d)"
  obtains img' root s' where "main env img = (0, img')" "length img' = length img"
    "bldms_fs_mount mb True True stale fenv (bldms_start (blocks_of img')) = Inr (Inr root, s')"
    "alive ((length img - 8192) div 4096) s'" "messages s' = makefs_messages env ((length img - 8192) div 4096)"
proof -
  let ?n = "(length img - 8192) div 4096"
  obtain img' where i: "main env img = (0, img')" "length img' = length img" "formatted (blocks_of img') ?n"
    "device_messages (blocks_of img') ?n = makefs_messages env ?n"
    using makefs_formatted [OF env sz] by auto
  let ?s = "bldms_start (blocks_of img')"
  have s: "\<not> bldms_mounted ?s" "rcu_readers ?s = 0" "valid_blk_list ?s = []" "disk ?s = blocks_of img'" "finite (live ?s)"
    by (simp_all add: bldms_start_def)
  from mount_success [OF mb s(1-3) _ fill, of stale] i(3,4) s(4,5)
  obtain root s' where "bldms_fs_mount mb True True stale fenv ?s = Inr (Inr root, s')" "driver_ok s'" "finite (live s')"
    "store_of s' = \<lparr>capacity = ?n, cursor = unat (last_written_block s'), content = makefs_messages env ?n\<rparr>"
    by auto
  then show thesis using that i(1,2) by (auto simp: store_of_def alive_def)
qed

section \<open>The numbers that the module hands out\<close>

lemma installed_kernel:
  assumes m: "init_module m = Some l" and sz: "ENTRIES_TO_EXPLORE \<le> sz" and d: "distinct [p, g, v]"
    and k: "reliable k" and argv: "map atol [argv ! 2, argv ! 3, argv ! 4] = take 3 (free_entries l)"
  obtains t where "bldms_init [p, g, v] 0 (insmod_state m l sz reg) = Inr (0, t)"
    "kernel_ok (set_numbers argv (with_table [p, g, v] t k))"
proof -
  obtain i j n where e: "three_entries (insmod_state m l sz reg) (int i) (int j) (int n)"
    by (rule insmod_three_entries [OF m sz])
  then have "take 3 (free_entries l) = [int i, int j, int n]" by (simp add: three_entries_def insmod_state_def)
  with argv have nr: "atol (argv ! 2) = int i" "atol (argv ! 3) = int j" "atol (argv ! 4) = int n" by simp_all
  obtain t where t: "bldms_init [p, g, v] 0 (insmod_state m l sz reg) = Inr (0, t)"
    "routine_at [p, g, v] t (int i) = Some PutData" "routine_at [p, g, v] t (int j) = Some GetData"
    "routine_at [p, g, v] t (int n) = Some InvalidateData"
    by (rule loaded_routes [OF e d])
  show thesis using that [OF t(1)] t(2-4) k nr by (simp add: kernel_ok_def)
qed

lemma removed_numbers:
  assumes m: "init_module m = Some l" and sz: "ENTRIES_TO_EXPLORE \<le> sz" and d: "distinct [p, g, v]"
    and ni: "sys_ni_syscall_address l \<notin> {p, g, v}" and t: "bldms_init [p, g, v] 0 (insmod_state m l sz reg) = Inr (0, t)"
  shows "\<exists>t'. bldms_exit t = Inr t' \<and> (\<forall>nr \<in> set (take 3 (free_entries l)). routine_at [p, g, v] t' nr = None)"
proof -
  obtain i j n where e: "three_entries (insmod_state m l sz reg) (int i) (int j) (int n)"
    by (rule insmod_three_entries [OF m sz])
  have f: "take 3 (free_entries l) = [int i, int j, int n]" "lib (insmod_state m l sz reg) = l"
    using e by (simp_all add: three_entries_def insmod_state_def)
  obtain t' where "bldms_exit t = Inr t'"
    "\<And>nr. nr \<in> {int i, int j, int n} \<Longrightarrow> routine_at [p, g, v] t' nr = None"
    using unloaded_routes [OF e t d] ni f(2) by metis
  then show ?thesis using f(1) by auto
qed

section \<open>A formatter, and a machine with a table\<close>

definition demo_mkfs :: mkfs_env where
  "demo_mkfs = \<lparr>argc = 2, open_ok = True, write_result = (\<lambda>k n. int n), FILL_DEV = True, clock = (\<lambda>i. (1, 0)),
     sb_padding = replicate 4080 0, inode_pad = 0, inode_data_block = 0, malloc_padding = replicate 4064 0\<rparr>"

lemma demo_mkfs_ok: "mkfs_env_ok demo_mkfs"
  by (simp add: mkfs_env_ok_def writes_ok_def demo_mkfs_def)

lemma demo_found: "syscall_table_finder demo_machine = Some START"
proof -
  have "validate_loop demo_machine START (0 # is) = Some START" for "is"
    using demo_mapped demo_pattern by simp
  then have "validate_page demo_machine START = Some START"
    unfolding validate_page_def using upt_conv_Cons [of 0 512] by simp
  then have "finder_loop demo_machine (0 # ks) = Some START" for ks using demo_mapped by simp
  moreover have "0 < unat ((MAX_ADDR - START) div 4096)" by (simp add: MAX_ADDR_def START_def)
  ultimately show ?thesis unfolding syscall_table_finder_def by (simp only: upt_conv_Cons)
qed

lemma demo_entries: "ni_entries demo_machine START = [134, 174, 182, 183, 214, 215, 236]"
proof -
  have ni: "slot demo_machine START FIRST_NI_SYSCALL = demo_ni" by (subst demo_slot) (simp_all add: FIRST_NI_SYSCALL_def)
  have "ni_entries demo_machine START = filter (\<lambda>i. i \<in> set (FIRST_NI_SYSCALL # NI_SYSCALLS)) [0..<256]"
    unfolding ni_entries_def ENTRIES_TO_EXPLORE_def
    by (rule filter_cong) (auto simp: demo_slot ni demo_ni_def simp del: set_simps)
  also have "\<dots> = [134, 174, 182, 183, 214, 215, 236]" by code_simp
  finally show ?thesis .
qed

lemma demo_module:
  obtains l where "init_module demo_machine = Some l" "take 3 (free_entries l) = [134, 174, 182]" "sys_ni_syscall_address l = demo_ni"
proof -
  obtain l where l: "init_module demo_machine = Some l" "sys_call_table_address l = START"
    by (simp add: init_module_def demo_found Let_def)
  have "slot demo_machine START FIRST_NI_SYSCALL = demo_ni" by (subst demo_slot) (simp_all add: FIRST_NI_SYSCALL_def)
  then show thesis using that [OF l(1)] init_module_lib(3,4) [OF l(1)] by (simp add: l(2) demo_entries)
qed

end
