(* ===== verification/Spec2Isabelle.thy ===== *)
theory Spec2Isabelle
  imports Reader_Example Lifecycle User_Example Stress_Ends Teardown_Example Installed
begin

text \<open>
  BLDMS keeps messages in the blocks of a block device, inside the Linux kernel. Three system
  calls store a message in a free block (\<open>put_data\<close>), fetch the message of a block (\<open>get_data\<close>) and
  mark a block as free again (\<open>invalidate_data\<close>); the device is also mounted as a file system with
  one file, whose reads deliver the messages in the order of their timestamps.

  \<^bold>\<open>The parts and their theories.\<close>

  \<^item> \<open>Prelude\<close>, \<open>Kernel\<close>: machine types, byte buffers and encodings; error numbers, faults, the
    allocator as the set \<open>live\<close> of allocated addresses, the spinlock and read-side sections. What
    the C code leaves to the kernel (does an allocation succeed, can a block be read, how much is
    copied to the caller, the clock) are parameters of the operations, gathered in records
    (\<open>put_env\<close>, \<open>get_env\<close>, \<open>read_env\<close>, \<open>fill_env\<close>). A use of freed memory, a double free, a null
    pointer or a self-deadlock is a value of type \<open>fault\<close>.
  \<^item> \<open>Device\<close>: the on-disk structures of \<^verbatim>\<open>include/bldms.h\<close> and \<^verbatim>\<open>include/device.h\<close> with
    their bytes. \<open>Vfs\<close>: the inodes, superblock and dentries that the driver fills in.
  \<^item> \<open>Rcu_List\<close>, \<open>Rcu_Pointers\<close>: the list of valid blocks (\<^verbatim>\<open>rcu.c\<close>), as a sequence of elements
    and as the links that a reader follows while a writer changes them.
  \<^item> \<open>Driver_State\<close>, \<open>Syscalls\<close>: the driver's globals, its invariant \<open>driver_ok\<close>, which ties
    metadata array, list, memory and device together, and the three system calls
    (\<^verbatim>\<open>syscalls.c\<close>).
  \<^item> \<open>Service\<close>: the abstract message store (\<open>store\<close>, \<open>spec_put\<close>, \<open>spec_get\<close>,
    \<open>spec_invalidate\<close>) and the proof that the system calls implement it, for sequences of calls
    by the locale \<open>simulation\<close>.
  \<^item> \<open>Concurrency\<close>, \<open>Concurrency_Inv\<close>, \<open>Concurrency_Read\<close>, \<open>Concurrency_Spec\<close>,
    \<open>Concurrency_Reader\<close>: the system calls and the file operations cut into the steps that other
    threads can see, any number of threads in any interleaving, each with one open file of its
    own; the invariant of that system, its linearization to the store, what \<open>get_data\<close> and \<open>read\<close>
    see beside the writers, progress, and what happens when two threads share an open file.
  \<^item> \<open>Lifecycle\<close>: mounts, concurrent use and unmounts in one system. \<open>Teardown\<close>: an unmount cut
    into steps and interleaved with callers of the system calls that are still at work.
  \<^item> \<open>Mount\<close>: mount and unmount (\<^verbatim>\<open>bldms.c\<close>). \<open>File_Ops\<close>: the file and directory operations
    (\<^verbatim>\<open>file_ops.c\<close>, \<^verbatim>\<open>dir_ops.c\<close>), with the 32-bit and 64-bit arithmetic of the code.
  \<^item> \<open>Makefs\<close>: the formatter (\<^verbatim>\<open>bldmsmakefs.c\<close>).
  \<^item> \<open>Syscall_Table\<close>, \<open>Table_Finder\<close>: how the calls get into the system-call table
    (\<^verbatim>\<open>syscalls.c\<close>, \<^verbatim>\<open>lib/usctm.c\<close>, \<^verbatim>\<open>bldms.c\<close>) and how the table is found
    (\<^verbatim>\<open>usctm/usctm.c\<close>, \<^verbatim>\<open>usctm/lib/vtpmo.c\<close>).
  \<^item> \<open>User_Programs\<close>, \<open>User_Correct\<close>: the client programs \<^verbatim>\<open>user/user.c\<close> and
    \<^verbatim>\<open>user/test.c\<close>, on the driver. \<open>Installed\<close>: the way of their system calls through the table.
    \<open>Stress_Test\<close>, \<open>Stress_Ends\<close>: the five threads of \<^verbatim>\<open>user/user_concurrency.c\<close> on the
    concurrent driver, that they count no error and that they come to an end.
  \<^item> \<open>Example\<close>, \<open>Concurrency_Example\<close>, \<open>Reader_Example\<close>, \<open>Teardown_Example\<close>, \<open>User_Example\<close>:
    concrete devices, runs and a kernel on which the hypotheses of the properties hold.

  \<^bold>\<open>What is shown.\<close>  The system calls implement the store, one after the other (with the
  functional behaviour of each call on every branch) and concurrently: no step faults, writers
  take effect in one step, a reader gets the message of a block that stays valid, a session of the
  file gets the message it waits for, no caller is stuck. Mounting loads exactly the messages of
  the device, unmounting and mounting again keeps them through any number of mounts with
  concurrent use between them, and the image the formatter writes mounts. An unmount may overlap
  system calls: it faults nowhere, and it loses nothing. Reading the file delivers all messages in
  timestamp order. The registration in the system-call table uses free entries and is undone; the
  table search finds a table and nothing else. The repository's test passes, also when everything
  from the table search to the numbers on its command line is put together; its stress test counts
  no error and ends under every interleaving, and its demonstration runs to the end. A last group
  states where the code does less than it means to: the last two blocks of the device in a read,
  lengths beyond the caller's buffer, failures of \<open>sb_bread\<close> in \<open>put_data\<close> and in a mount, what
  unmounting leaves behind or reads after freeing it, a reader that an unmount does not wait for, a
  block that is written again under a reader, a file that two threads share, an inode that is
  looked up when it is cached or cannot be read, and the second acquisition of table entries.

  \<^bold>\<open>Interfaces.\<close>  \<open>byte_codec\<close> and \<open>exact_codec\<close> (encodings), \<open>valid_index\<close> and \<open>ordered_index\<close>
  (the list of valid blocks), \<open>simulation\<close> (a specification and its implementation),
  \<open>safe_system\<close> (an invariant of a step relation with faults) and its extension \<open>ending_system\<close>
  (steps that go down a well-founded order) are locales, interpreted on the definitions of the
  theories named above.

  \<^bold>\<open>Bounds and fuel.\<close>  The loops of the driver run over lists or over a counter and are structural
  recursions. The caller's loops that read a file until its end take the number of reads they may
  make (\<open>read_all\<close>, \<open>user_read\<close>, \<open>reader_round\<close>); the theorems prove that enough reads exist. The
  interleaved stress test has no fuel: its steps are shown to go down a lexicographic measure. The
  invariant bounds the number of blocks by \<open>NBLOCKS\<close> = 1000, which \<open>bldms_fs_fill_super\<close> checks, so
  that the 32-bit block numbers and 64-bit positions do not wrap.

  \<^bold>\<open>Assumptions on the kernel.\<close>  Allocations return memory that is not in use (\<open>put_env_ok\<close>,
  \<open>fill_env_ok\<close>); \<open>call_ok\<close> also says that the block \<open>put_data\<close> chooses can be read, since the
  failure of that read breaks the invariant, which is shown separately. \<open>mount_bdev\<close> calls the
  function it is given and returns the root it sets up (\<open>mount_bdev_ok\<close>). \<open>reliable\<close>, for the client
  programs, is a kernel in which nothing fails; \<open>kernel_ok\<close> says that the numbers the program has
  are those of the driver's calls, which \<open>Installed\<close> proves of the numbers that the loaded module
  hands out. In the stress test the allocations succeed and the device can be read. In the
  concurrent system the copy of a block is one step, and so is a critical section up to the points
  where a reader could see a difference. An unmount that overlaps calls begins when no file is
  open, and the memory of a list element it has freed still holds the link at the next step.

  \<^bold>\<open>Not modelled.\<close>  Reference counts of buffer heads, of the device and of the superblock, and the
  write-back of dirty buffers; a failing read of the block of \<open>put_data\<close> in the concurrent system; an
  unmount that overlaps file operations, which the kernel excludes; the printed output of the
  programs, the path on their command lines and the numbers on that of the stress test; the
  terminal colours; the copies of \<open>protect_memory\<close> and \<open>unprotect_memory\<close> in \<^verbatim>\<open>usctm/usctm.c\<close>, which
  nothing calls; the build files.
\<close>

unbundle bit_operations_syntax

section \<open>The service\<close>

text \<open>
  Property C1. From a mounted driver in its invariant, any sequence of \<open>put_data\<close>,
  \<open>get_data\<close> and \<open>invalidate_data\<close> calls, with failing allocations and failing reads allowed
  as \<open>call_ok\<close> says, runs without a fault, keeps the invariant, and gives exactly the replies
  and the final content that the specification of the message store gives.
\<close>

theorem service_refines_store:
  assumes "driver_ok s" "run_ok do_call call_ok cs s"
  shows "\<exists>rs s'. run do_call cs s = Inr (rs, s') \<and> driver_ok s' \<and>
     run_spec spec_call cs (store_of s) = (rs, store_of s')"
  using assms by (rule service.run_sim)

theorem service_refines_store_witness:
  "\<exists>rs s'. run do_call [Put (demo_put 6 (Ktime 9)) [1, 2, 3], Get demo_get 1 2, Invalidate (\<lambda>_. True) 0] demo =
       Inr (rs, s') \<and> driver_ok s' \<and>
     rs = [Stored (Inr 1), Fetched (Inr (2, [1, 2])), Invalidated (Inr ())] \<and>
     store_of s' = \<lparr>capacity = 3, cursor = 1, content = [1 \<mapsto> (Ktime 9, [1, 2, 3])]\<rparr>"
proof -
  let ?cs = "[Put (demo_put 6 (Ktime 9)) [1, 2, 3], Get demo_get 1 2, Invalidate (\<lambda>_. True) 0]"
  have "run_ok do_call call_ok ?cs demo"
    by (simp add: put_env_ok_def allocs_def demo_put_def demo_get_def demo_fields split: sum.split prod.split)
  from service_refines_store [OF demo_ok this] obtain rs s' where
    r: "run do_call ?cs demo = Inr (rs, s')" "driver_ok s'"
      "run_spec spec_call ?cs (store_of demo) = (rs, store_of s')" by auto
  moreover have "run_spec spec_call ?cs (store_of demo) =
      ([Stored (Inr 1), Fetched (Inr (2, [1, 2])), Invalidated (Inr ())],
       \<lparr>capacity = 3, cursor = 1, content = [1 \<mapsto> (Ktime 9, [1, 2, 3])]\<rparr>)"
    by (simp add: demo_store spec_put_def put_env_error_def demo_put_def first_free_def upt_rec rotate1_def
        spec_get_def demo_get_def spec_invalidate_def Let_def fun_eq_iff)
  ultimately show ?thesis by auto
qed

text \<open>
  The service is durable: after any sequence of calls on a driver mounted on a
  well-formed device, the device can be unmounted, and mounting it again succeeds for every
  allocation of the new mount and gives back exactly the messages the specification has
  after the sequence, in a state the service can go on from. The unmount is the one in which
  a freed list element still holds its link.
\<close>

lemma remount_keeps_messages:
  assumes mb: "mount_bdev_ok mb" and s: "mountable s" and cs: "run_ok do_call call_ok cs s"
  shows "\<exists>rs s'. run do_call cs s = Inr (rs, s') \<and> bldms_fs_kill_sb True s' = Inr (unmounted s') \<and>
     (\<forall>env. fill_env_ok env (md_array_size s') (unmounted s') \<longrightarrow>
       (\<exists>root s''. bldms_fs_mount mb True True stale env (unmounted s') = Inr (Inr root, s'') \<and> mountable s'' \<and>
          messages s'' = content (snd (run_spec spec_call cs (store_of s)))))"
proof -
  obtain rs s' where r: "run do_call cs s = Inr (rs, s')" "mountable s'"
    and sp: "run_spec spec_call cs (store_of s) = (rs, store_of s')"
    using durable.run_sim [OF s cs] by auto
  have ok: "driver_ok s'" and hd: "header_ok (disk s') (md_array_size s')" using r by (simp_all add: mountable_def)
  have fields: "\<not> bldms_mounted (unmounted s')" "rcu_readers (unmounted s') = 0"
    "valid_blk_list (unmounted s') = []" "disk (unmounted s') = disk s'"
    using ok by (simp_all add: unmounted_def driver_ok_def shape_ok_def)
  have fmt: "formatted (disk (unmounted s')) (md_array_size s')"
    using driver_formatted [OF ok hd] fields by simp
  have "\<exists>root s''. bldms_fs_mount mb True True stale env (unmounted s') = Inr (Inr root, s'') \<and> mountable s'' \<and>
      messages s'' = messages s'"
    if "fill_env_ok env (md_array_size s') (unmounted s')" for env
    using mount_success [OF mb fields(1-3) fmt that, of stale] hd fields(4) driver_device_messages [OF ok]
    by (auto simp: store_of_def mountable_def)
  with r unmount_success [OF ok] sp show ?thesis by auto
qed

text \<open>
  Property C10. Mounting a formatted device of \<open>n\<close> blocks succeeds whenever the kernel's reads and
  allocations do, establishes the driver's invariant, and makes available exactly the messages
  that the device's blocks hold; the device is not changed. The root of the mounted tree is an
  unlocked directory with the mode 0775 and the driver's operations.
\<close>

theorem mount_loads_device:
  assumes "mount_bdev_ok mb" "\<not> bldms_mounted s" "rcu_readers s = 0" "valid_blk_list s = []"
    and "formatted (disk s) n" "fill_env_ok env n s"
  shows "\<exists>root s'. bldms_fs_mount mb True True stale env s = Inr (Inr root, s') \<and> driver_ok s' \<and>
     md_array_size s' = n \<and> messages s' = device_messages (disk s) n \<and> disk s' = disk s \<and>
     \<not> i_new root \<and> i_mode root = S_IFDIR OR 0x1FD \<and> i_op root = Some bldms_inode_ops \<and> i_fop root = Some bldms_dir_operations"
  using mount_success [OF assms, of stale] by (auto simp: store_of_def filled_sb_root S_IFDIR_def)

theorem mount_loads_device_witness:
  "\<exists>root s'. bldms_fs_mount demo_bdev True True True demo_fill (bldms_start demo_disk) = Inr (Inr root, s') \<and>
     driver_ok s' \<and> messages s' = [0 \<mapsto> (Ktime 7, [104, 105])]"
proof -
  note mb = demo_bdev_ok
  note demo_device_messages
  moreover have "fill_env_ok demo_fill 3 (bldms_start demo_disk)"
    by (rule demo_fill_ok) (simp add: bldms_start_def)
  ultimately show ?thesis
    using mount_loads_device [OF mb, of "bldms_start demo_disk" 3 demo_fill True] demo_formatted
    by (auto simp: bldms_start_def)
qed

section \<open>System calls\<close>

text \<open>
  Property C7. \<open>put_data\<close> of a message that fits, when the allocations, the copy from the
  caller and the read of the block succeed and some block is free: it returns the index of a
  block that was free, keeps the invariant, adds exactly that message under that index with
  the timestamp it took, writes exactly one block of the device, and remembers the block.
\<close>

theorem put_data_stores_message:
  assumes ok: "driver_ok s" and env: "put_ready env source s b e m"
    and t: "find_target s = Inr (Some t)" and br: "bread env (t + NUM_METADATA_BLKS)"
  shows "\<exists>s'. put_data env source s = Inr (Inr t, s') \<and> driver_ok s' \<and>
     t < md_array_size s \<and> messages s t = None \<and> messages s' = (messages s)(t \<mapsto> (now env, source)) \<and>
     (\<forall>i. i \<noteq> t + NUM_METADATA_BLKS \<longrightarrow> disk s' i = disk s i) \<and> last_written_block s' = word_of_nat t"
proof -
  let ?s = "put_result t e (put_obj env source m) (put_buffer env source) s"
  have len: "length source \<le> DEFAULT_BLOCK_SIZE - METADATA_SIZE" using env by (simp add: put_ready_def)
  have "driver_ok ?s"
    using env len by (intro put_result_ok [OF ok t]) (auto simp: put_ready_def put_buffer_def new_block_ok)
  moreover have "messages ?s = (messages s)(t \<mapsto> (now env, source))"
    using put_result_store [OF ok t len, of e env m] by (simp add: store_of_def)
  moreover have "t < md_array_size s" "messages s t = None"
    using find_target_Some [OF ok t] by (simp_all add: messages_def)
  moreover have "\<forall>i. i \<noteq> t + NUM_METADATA_BLKS \<longrightarrow> disk ?s i = disk s i" "last_written_block ?s = word_of_nat t"
    by (simp_all add: put_result_def)
  ultimately show ?thesis using put_data_success [OF ok env t br] by blast
qed

theorem put_data_stores_message_witness:
  "\<exists>s'. put_data (demo_put 6 (Ktime 9)) [1, 2, 3] demo = Inr (Inr 1, s') \<and> driver_ok s' \<and>
     messages s' = [0 \<mapsto> (Ktime 7, [104, 105]), 1 \<mapsto> (Ktime 9, [1, 2, 3])]"
proof -
  have r: "put_ready (demo_put 6 (Ktime 9)) [1, 2, 3] demo 6 7 8" by (rule demo_put_ready) simp
  show ?thesis
    using put_data_stores_message [OF demo_ok r demo_target] by (auto simp: demo_put_def demo_messages)
qed

text \<open>
  Property C12. What \<open>put_data\<close> stored, \<open>get_data\<close> returns: after a successful call that returned
  block \<open>t\<close>, reading block \<open>t\<close> with room for \<open>sz\<close> bytes delivers the first
  \<open>min sz (length source)\<close> bytes of the message and that number, and changes nothing.
\<close>

theorem put_then_get:
  assumes ok: "driver_ok s" and call: "call_ok (Put penv source) s"
    and put: "put_data penv source s = Inr (Inr t, s')"
    and br: "get_bread genv (t + NUM_METADATA_BLKS)" and copy: "\<And>n. uncopied genv n = 0"
  shows "get_data genv (word_of_nat t) sz s' =
     Inr (Inr (word_of_nat (min (unat sz) (length source)), take (unat sz) source), s')"
proof -
  have st: "driver_ok s'" "spec_put penv source (store_of s) = (Inr t, store_of s')"
    using put_sim [OF ok call] put by auto
  from st(2) have "store_of s' = (store_of s)\<lparr>cursor := t, content := (messages s)(t \<mapsto> (now penv, source))\<rparr>"
    by (auto simp: spec_put_def split: if_splits option.splits)
  from arg_cong [OF this, of content] have "messages s' t = Some (now penv, source)" by simp
  from get_data_found [OF st(1) this br refl, of sz] copy show ?thesis
    by (simp add: min_def)
qed

theorem put_then_get_witness:
  "\<exists>s'. put_data (demo_put 6 (Ktime 9)) [1, 2, 3] demo = Inr (Inr 1, s') \<and>
     get_data demo_get 1 2 s' = Inr (Inr (2, [1, 2]), s')"
proof -
  have c: "call_ok (Put (demo_put 6 (Ktime 9)) [1, 2, 3]) demo"
    by (simp add: put_env_ok_def allocs_def demo_put_def demo_fields)
  have r: "put_ready (demo_put 6 (Ktime 9)) [1, 2, 3] demo 6 7 8" by (rule demo_put_ready) simp
  have "bread (demo_put 6 (Ktime 9)) (1 + NUM_METADATA_BLKS)" by (simp add: demo_put_def)
  note put = put_data_success [OF demo_ok r demo_target this]
  show ?thesis
    using put put_then_get [OF demo_ok c put, of demo_get 2] by (simp add: demo_get_def)
qed

text \<open>
  Property C13. \<open>invalidate_data\<close> on a block that holds a message removes exactly that message:
  the invariant is kept, the block's element is out of the list and freed, a following
  \<open>get_data\<close> or \<open>invalidate_data\<close> of the block finds no data, and the block's payload stays on
  the device as it was, with only the valid bit of its metadata cleared.
\<close>

theorem invalidate_data_removes_message:
  assumes ok: "driver_ok s" and m: "messages s i = Some msg" and br: "br (i + NUM_METADATA_BLKS)"
  shows "\<exists>s' el. invalidate_data br (word_of_nat i) s = Inr (Inr (), s') \<and> driver_ok s' \<and>
     messages s' = (messages s)(i := None) \<and>
     el \<in> set (valid_blk_list s) \<and> unat (ndx el) = i \<and> live s' = live s - {el_addr el} \<and>
     get_data genv (word_of_nat i) sz s' = Inr (Inl ENODATA, s') \<and>
     invalidate_data br (word_of_nat i) s' = Inr (Inl ENODATA, s') \<and>
     block_payload (disk s' (i + NUM_METADATA_BLKS)) = block_payload (disk s (i + NUM_METADATA_BLKS)) \<and>
     block_metadata (disk s' (i + NUM_METADATA_BLKS)) =
       (block_metadata (disk s (i + NUM_METADATA_BLKS)))\<lparr>is_valid := BLK_INVALID\<rparr>"
proof -
  have n: "i < length (md_objs s)" "i < md_array_size s"
    using ok m by (auto simp: messages_def driver_ok_def shape_ok_def split: if_splits)
  obtain el where el: "list_lookup (valid_blk_list s) (word_of_nat i) = Some el"
    using messages_dom [of s i] m ok by (auto simp: driver_ok_def)
  let ?s = "inval_result i el s"
  have ok': "driver_ok ?s" by (rule inval_result_ok [OF ok n(2) el])
  have msg': "messages ?s = (messages s)(i := None)" by (rule inval_result_messages [OF n(1)])
  then have none: "messages ?s i = None" by simp
  have n': "i < md_array_size ?s" using n by (simp add: inval_result_def Let_def)
  have "md_at s i = block_metadata (disk s (i + NUM_METADATA_BLKS))"
    using ok n by (simp add: driver_ok_def disk_inv_def block_ok_def)
  then have "block_payload (disk ?s (i + NUM_METADATA_BLKS)) = block_payload (disk s (i + NUM_METADATA_BLKS))"
    "block_metadata (disk ?s (i + NUM_METADATA_BLKS)) =
       (block_metadata (disk s (i + NUM_METADATA_BLKS)))\<lparr>is_valid := BLK_INVALID\<rparr>"
    by (simp_all add: inval_result_def Let_def md_at_def)
  moreover have "live ?s = live s - {el_addr el}" by (simp add: inval_result_def Let_def)
  moreover have "el \<in> set (valid_blk_list s)" "unat (ndx el) = i"
    using list_lookup_Some [OF el] offset_in_range(1) [OF ok n(2)] by auto
  ultimately show ?thesis
    using invalidate_data_success [of s i el br] ok n el br ok' msg' get_data_absent [OF ok' n' none]
      invalidate_data_absent [OF ok' n' none, of br] by blast
qed

theorem invalidate_data_removes_message_witness:
  "\<exists>s'. invalidate_data (\<lambda>_. True) 0 demo = Inr (Inr (), s') \<and> driver_ok s' \<and> messages s' = Map.empty \<and>
     get_data demo_get 0 10 s' = Inr (Inl ENODATA, s')"
  using invalidate_data_removes_message [OF demo_ok, of 0 "(Ktime 7, [104, 105])" "\<lambda>_. True" demo_get 10]
  by (auto simp: demo_messages)

text \<open>
  Property C14. \<open>put_data\<close> looks for a free block in circular order, starting behind the block written
  last: it returns the first block without a message in the sequence of the block numbers
  rotated past the last written one, and fails with \<open>ENOMEM\<close>, changing nothing, exactly when every
  block holds a message.
\<close>

theorem put_data_circular_choice:
  assumes ok: "driver_ok s" and env: "put_ready env source s b e m" and br: "\<forall>i. bread env i"
  shows "(case find (\<lambda>i. messages s i = None) (rotate (Suc (unat (last_written_block s))) [0..<md_array_size s]) of
       None \<Rightarrow> put_data env source s = Inr (Inl ENOMEM, s) \<and> (\<forall>i < md_array_size s. messages s i \<noteq> None)
     | Some t \<Rightarrow> \<exists>s'. put_data env source s = Inr (Inr t, s') \<and> messages s t = None)"
proof -
  let ?f = "find (\<lambda>i. messages s i = None) (rotate (Suc (unat (last_written_block s))) [0..<md_array_size s])"
  have t: "find_target s = Inr ?f" using first_free_target [OF ok] by (simp add: first_free_def)
  show ?thesis
  proof (cases ?f)
    case None
    then have "\<forall>i < md_array_size s. messages s i \<noteq> None" by (simp add: find_None_iff)
    with None show ?thesis using put_data_no_space [OF ok env] t by simp
  next
    case (Some i)
    then have "messages s i = None" using find_Some_mem by fastforce
    with Some show ?thesis using put_data_success [OF ok env, of i] t br by auto
  qed
qed

theorem put_data_circular_choice_witness:
  "\<exists>s'. put_data (demo_put 6 (Ktime 9)) [1, 2, 3] demo = Inr (Inr 1, s') \<and> messages demo 1 = None"
proof -
  have r: "put_ready (demo_put 6 (Ktime 9)) [1, 2, 3] demo 6 7 8" by (rule demo_put_ready) simp
  have "find (\<lambda>i. messages demo i = None) (rotate (Suc (unat (last_written_block demo))) [0..<md_array_size demo]) = Some 1"
    by (simp add: demo_messages demo_fields rotate1_def upt_rec)
  with put_data_circular_choice [OF demo_ok r] show ?thesis by (simp add: demo_put_def del: rotate_Suc)
qed

text \<open>
  Property C15. \<open>put_data\<close> is all or nothing: when it fails for a message that is too long, an allocation
  that returns nothing, a message that cannot be copied from the caller, or a full device, the
  whole state is the one before the call, memory included, and the error says which of these
  came first.
\<close>

theorem put_data_failure_changes_nothing:
  assumes ok: "driver_ok s" and env: "call_ok (Put env source) s" and r: "put_data env source s = Inr (Inl err, s')"
  shows "s' = s \<and> err = (if length source > DEFAULT_BLOCK_SIZE - METADATA_SIZE then E2BIG
     else if buffer_alloc env = None then EADDRNOTAVAIL
     else if not_copied env \<noteq> 0 then EMSGSIZE
     else if elem_alloc env = None \<or> md_alloc env = None then EADDRNOTAVAIL
     else ENOMEM)"
  using r by (cases rule: put_data_outcome [OF ok env]) (auto simp: put_env_error_def split: if_splits)

theorem put_data_failure_changes_nothing_witness:
  "\<exists>s'. put_data ((demo_put 6 (Ktime 9))\<lparr>elem_alloc := None\<rparr>) [1] demo = Inr (Inl EADDRNOTAVAIL, s') \<and> s' = demo"
proof -
  let ?env = "(demo_put 6 (Ktime 9))\<lparr>elem_alloc := None\<rparr>"
  have c: "call_ok (Put ?env [1]) demo" by (simp add: put_env_ok_def allocs_def demo_put_def demo_fields)
  obtain err where "put_data ?env [1] demo = Inr (Inl err, demo)"
    using put_data_outcome [OF demo_ok c] by (auto simp: put_ready_def)
  with put_data_failure_changes_nothing [OF demo_ok c this] show ?thesis
    by (simp add: demo_put_def layout_consts)
qed

text \<open>
  Property C33. The failure that is not all or nothing: when the block that \<open>put_data\<close> chose cannot be
  read, the clean-up frees the block's metadata object although the metadata array still points
  to it, and the next \<open>put_data\<close> whose allocations do not reuse the freed address reads the
  freed object.
\<close>

theorem put_data_read_failure_dangles:
  assumes ok: "driver_ok s" and env: "put_ready env source s b e m" "\<not> bread env (t + NUM_METADATA_BLKS)"
    and t: "find_target s = Inr (Some t)"
    and env': "put_ready env' source' (s\<lparr>live := live s - {md_addr (md_objs s ! t)}\<rparr>) b' e' m'"
    and reuse: "md_addr (md_objs s ! t) \<notin> {b', e', m'}"
  shows "\<exists>s'. put_data env source s = Inr (Inl EPERM, s') \<and> \<not> mem_ok s' \<and>
     put_data env' source' s' = Inl (UseAfterFree (md_addr (md_objs s ! t)))"
proof -
  let ?s = "s\<lparr>live := live s - {md_addr (md_objs s ! t)}\<rparr>"
  have "t < length (md_objs s)" using ok find_target_Some(1) [OF ok t] by (simp add: driver_ok_def shape_ok_def)
  moreover have "md_objs ?s = md_objs s" by (simp add: md_objs_def)
  ultimately have "md_addr (md_objs s ! t) \<in> set (map md_addr (md_objs ?s))" by simp
  then have "\<not> mem_ok ?s" using md_live(1) [of ?s] by fastforce
  then show ?thesis
    using put_data_io_error [OF ok env(1) t env(2)] put_data_after_io_error [OF ok t env' reuse] by auto
qed

theorem put_data_read_failure_dangles_witness:
  "\<exists>s'. put_data ((demo_put 6 (Ktime 9))\<lparr>bread := (\<lambda>_. False)\<rparr>) [1] demo = Inr (Inl EPERM, s') \<and>
     put_data (demo_put 6 (Ktime 9)) [1] s' = Inl (UseAfterFree 3)"
proof -
  let ?env = "(demo_put 6 (Ktime 9))\<lparr>bread := (\<lambda>_. False)\<rparr>"
  have "put_ready ?env [1] demo 6 7 8" "put_ready (demo_put 6 (Ktime 9)) [1] (demo\<lparr>live := live demo - {md_addr (md_objs demo ! 1)}\<rparr>) 6 7 8"
    by (simp_all add: put_ready_def demo_put_def demo_fields layout_consts)
  from put_data_read_failure_dangles [OF demo_ok this(1) _ demo_target this(2)] show ?thesis
    by (auto simp: demo_objs)
qed

text \<open>
  Property C27. Block numbers outside the device are refused: for every 32-bit offset that is negative
  or not smaller than the number of blocks, \<open>get_data\<close> and \<open>invalidate_data\<close> return \<open>E2BIG\<close> and
  change nothing, and for every other offset they do not return \<open>E2BIG\<close>. (The comparison is made
  after the conversion of the signed offset to an unsigned 64-bit value.)
\<close>

theorem offset_range_check:
  assumes ok: "driver_ok s" and env: "call_ok (Get env offset sz) s"
  shows "(if sint offset < 0 \<or> int (md_array_size s) \<le> sint offset
      then get_data env offset sz s = Inr (Inl E2BIG, s) \<and> invalidate_data br offset s = Inr (Inl E2BIG, s)
      else \<exists>r r' s'. get_data env offset sz s = Inr (r, s) \<and> r \<noteq> Inl E2BIG \<and>
        invalidate_data br offset s = Inr (r', s') \<and> r' \<noteq> Inl E2BIG \<and> driver_ok s')"
proof (cases "sint offset < 0 \<or> int (md_array_size s) \<le> sint offset")
  case True
  with offset_out_of_range [OF ok True] ok show ?thesis
    by (simp add: get_data_def invalidate_data_def driver_ok_def shape_ok_def)
next
  case False
  have "spec_get env offset sz (store_of s) \<noteq> Inl E2BIG"
    using False by (simp add: spec_get_def Let_def split: option.split)
  moreover obtain r' s' where "invalidate_data br offset s = Inr (r', s')" "driver_ok s'"
    "spec_invalidate br offset (store_of s) = (r', store_of s')"
    using invalidate_sim [OF ok] by blast
  moreover from this False have "r' \<noteq> Inl E2BIG" by (auto simp: spec_invalidate_def split: option.splits if_splits)
  ultimately show ?thesis using False get_sim [OF ok env] by auto
qed

theorem offset_range_check_witness:
  "get_data demo_get (-1) 10 demo = Inr (Inl E2BIG, demo) \<and> invalidate_data (\<lambda>_. True) (-1) demo = Inr (Inl E2BIG, demo)"
  using offset_range_check [OF demo_ok, of demo_get "-1" 10 "\<lambda>_. True"] by (simp add: demo_get_def)

text \<open>
  Property C16. No leaks and no foreign frees: over any sequence of calls the allocated memory that does
  not belong to the driver stays what it was; what the driver allocates it owns, and what it
  frees it owned.
\<close>

theorem calls_neither_leak_nor_steal:
  assumes "driver_ok s" "run_ok do_call call_ok cs s" "run do_call cs s = Inr (rs, s')"
  shows "live s' - set (owned s') = live s - set (owned s)"
  using service.run_keeps [where Q = foreign, OF do_call_foreign assms] by (simp add: foreign_def)

theorem calls_neither_leak_nor_steal_witness:
  "\<exists>rs s'. run do_call [Put (demo_put 6 (Ktime 9)) [1, 2, 3], Invalidate (\<lambda>_. True) 0] demo = Inr (rs, s') \<and>
     live s' = set (owned s')"
proof -
  let ?cs = "[Put (demo_put 6 (Ktime 9)) [1, 2, 3], Invalidate (\<lambda>_. True) 0]"
  have c: "run_ok do_call call_ok ?cs demo"
    by (simp add: put_env_ok_def allocs_def demo_put_def demo_fields split: sum.split prod.split)
  obtain rs s' where r: "run do_call ?cs demo = Inr (rs, s')" "driver_ok s'"
    using service.run_sim [OF demo_ok c] by blast
  have "live demo - set (owned demo) = {}" by (auto simp: owned_def demo_def rcu_fill_def)
  then have "live s' - set (owned s') = {}" using calls_neither_leak_nor_steal [OF demo_ok c r(1)] by simp
  moreover have "set (owned s') \<subseteq> live s'" using r(2) by (simp add: driver_ok_def mem_ok_def)
  ultimately show ?thesis using r(1) by blast
qed

section \<open>Reading the file\<close>



text \<open>
  A read from the middle of a message: from byte \<open>p\<close> on, a buffer of \<open>len\<close> bytes
  gets the next \<open>min len (length msg - p)\<close> bytes and the position advances by as much; when
  the message is finished, the session moves to the next message in timestamp order, or to the
  end of the file after the last.
\<close>

lemma read_resumes_message:
  assumes "driver_ok s" "valid_blk_list s = pre @ el # rest" "session_at f (el_nsec el) s"
    and "messages s (unat (ndx el)) = Some (el_nsec el, msg)" "p < length msg \<or> p = 0"
    and "unat (ndx el) + 2 < md_array_size s" "unat len < 2 ^ 63"
    and "read_env_ok env" "rest \<noteq> [] \<longrightarrow> ts_alloc env \<noteq> None"
  shows "bldms_read env (file_bytes s) len (file_pos (unat (ndx el)) p) f s =
     (let k = min (unat len) (length msg - p); r = (Inr (word_of_nat k), take k (drop p msg)) in
      if p + k < length msg then Inr (r, file_pos (unat (ndx el)) (p + k), f, s)
      else read_next env (file_bytes s) rest r f s)"
  unfolding file_bytes_def Let_def by (rule read_message_at [OF assms(1-3) index_before [OF assms(1,2)] assms(4-)])

text \<open>
  Property C31. A session that stands at the start of one of the last two blocks of the device gets
  the end of the file although the block may hold a message: the check of the position against
  the file size adds the two metadata blocks, which the file size does not contain.
\<close>

theorem read_skips_last_two_blocks:
  assumes "driver_ok s" "messages s i = Some m" "i + 2 \<ge> md_array_size s"
  shows "bldms_read env (file_bytes s) len (file_pos i 0) f s = Inr ((Inr 0, []), file_pos i 0, f, s)"
proof -
  have "i < md_array_size s" using assms(1,2) by (auto simp: messages_def driver_ok_def shape_ok_def split: if_splits)
  then show ?thesis
    unfolding file_bytes_def using assms by (intro read_last_blocks) (simp_all add: driver_ok_def shape_ok_def layout_consts)
qed

theorem read_skips_last_two_blocks_witness:
  "\<exists>s'. put_data (demo_put 6 (Ktime 9)) [1, 2, 3] demo = Inr (Inr 1, s') \<and> messages s' 1 = Some (Ktime 9, [1, 2, 3]) \<and>
     bldms_read (demo_read 3) (file_bytes s') 100 (file_pos 1 0) (demo_session (Ktime 9)) s' =
       Inr ((Inr 0, []), file_pos 1 0, demo_session (Ktime 9), s')"
proof -
  let ?s = "put_result 1 7 (put_obj (demo_put 6 (Ktime 9)) [1, 2, 3] 8) (put_buffer (demo_put 6 (Ktime 9)) [1, 2, 3]) demo"
  have r: "put_ready (demo_put 6 (Ktime 9)) [1, 2, 3] demo 6 7 8" by (rule demo_put_ready) simp
  have br: "bread (demo_put 6 (Ktime 9)) (1 + NUM_METADATA_BLKS)" by (simp add: demo_put_def)
  have c: "call_ok (Put (demo_put 6 (Ktime 9)) [1, 2, 3]) demo"
    by (simp add: put_env_ok_def allocs_def demo_put_def demo_fields)
  note put = put_data_success [OF demo_ok r demo_target br]
  have ok: "driver_ok ?s" using put_sim [OF demo_ok c] put by auto
  have m: "messages ?s 1 = Some (Ktime 9, [1, 2, 3])"
    using put_result_store [OF demo_ok demo_target, of "[1, 2, 3]" 7 "demo_put 6 (Ktime 9)" 8]
    by (simp add: store_of_def layout_consts) (simp add: demo_put_def)
  have "md_array_size ?s = 3" by (simp add: put_result_def demo_fields)
  with put m read_skips_last_two_blocks [OF ok m, of "demo_read 3" 100 "demo_session (Ktime 9)"] show ?thesis by auto
qed


text \<open>
  Property C30. A read that stands behind the end of the message in its block returns a value that was
  never set: the position is left by a read of part of a longer message in the block, which was
  then invalidated and followed by a shorter one. Nothing is copied, the session moves on to the
  next message, and the result is whatever the local variable \<open>ret\<close> holds.
\<close>

theorem read_returns_unset_value:
  assumes "driver_ok s" "valid_blk_list s = pre @ el # x # xs" "session_at f t s" "\<forall>y \<in> set pre. el_nsec y \<le> t"
    and "messages s (unat (ndx el)) = Some (el_nsec el, msg)" "length msg < p" "p < 4086"
    and "unat (ndx el) + 2 < md_array_size s" "unat len < 2 ^ 63" "ts_alloc env \<noteq> None"
  shows "\<exists>off' f' s'. bldms_read env (file_bytes s) len (file_pos (unat (ndx el)) p) f s =
     Inr ((Inr (scast (uninit_ret env)), []), off', f', s')"
proof -
  obtain a where a: "private_data f = Some (a, t)" "a \<in> live s"
    using assms(3) by (auto simp: session_at_def split: option.splits)
  show ?thesis
    unfolding file_bytes_def read_behind_message [OF assms(1-9)]
    using assms(10) a by (auto simp: set_next_blk_def free_private_def kzalloc_def rcu_read_lock_def)
qed

theorem read_returns_unset_value_witness:
  "\<exists>s'. put_data (demo_put 6 (Ktime 9)) [1, 2, 3] demo = Inr (Inr 1, s') \<and>
     (\<exists>off' f' s''. bldms_read \<lparr>read_bread = (\<lambda>_. True), to_user = (\<lambda>_. 0), ts_alloc = Some 30, uninit_ret = - 5\<rparr>
        (file_bytes s') 100 (file_pos 0 5) \<lparr>f_mode = O_RDONLY, f_pos = 0, private_data = Some (20, Ktime 7)\<rparr>
        (s'\<lparr>live := insert 20 (live s')\<rparr>) = Inr ((Inr (- 5), []), off', f', s''))"
proof -
  let ?env = "demo_put 6 (Ktime 9)" and ?src = "[1, 2, 3]"
  let ?p = "put_result 1 7 (put_obj ?env ?src 8) (put_buffer ?env ?src) demo"
  let ?s = "?p\<lparr>live := insert 20 (live ?p)\<rparr>"
  have r: "put_ready ?env ?src demo 6 7 8" by (rule demo_put_ready) simp
  have br: "bread ?env (1 + NUM_METADATA_BLKS)" by (simp add: demo_put_def)
  have c: "call_ok (Put ?env ?src) demo" by (simp add: put_env_ok_def allocs_def demo_put_def demo_fields)
  note put = put_data_success [OF demo_ok r demo_target br]
  have ok: "driver_ok ?p" using put_sim [OF demo_ok c] put by auto
  have "set (owned ?p) \<subseteq> insert 20 (live ?p)" using ok by (auto simp: driver_ok_def mem_ok_def)
  note fr = live_frame [OF ok this]
  have m: "messages ?s 0 = Some (Ktime 7, [104, 105])"
    using put_result_store [OF demo_ok demo_target, of ?src 7 ?env 8] fr(2)
    by (simp add: store_of_def layout_consts demo_messages)
  have "Ktime 7 < Ktime 9" by (simp add: less_ktime_def)
  then have l: "valid_blk_list ?s = [rcu_fill 5 0 2 (Ktime 7), rcu_fill 7 1 3 (Ktime 9)]"
    by (simp add: put_result_def demo_fields insert_in_order_def put_obj_def demo_put_def new_metadata_def)
  have n: "md_array_size ?s = 3" "file_bytes ?s = file_bytes ?p" by (simp_all add: put_result_def demo_fields file_bytes_def)
  show ?thesis
    using put read_returns_unset_value [OF fr(1), of "[]" "rcu_fill 5 0 2 (Ktime 7)" "rcu_fill 7 1 3 (Ktime 9)" "[]"
        "\<lparr>f_mode = O_RDONLY, f_pos = 0, private_data = Some (20, Ktime 7)\<rparr>" "Ktime 7" "[104, 105]" 5 100
        "\<lparr>read_bread = (\<lambda>_. True), to_user = (\<lambda>_. 0), ts_alloc = Some 30, uninit_ret = - 5\<rparr>"] m l n
    by (auto simp: session_at_def)
qed

text \<open>
  Property C32. When the file size is not a multiple of the block size, a read can deliver more bytes than
  the caller's buffer has: if the file ends \<open>g\<close> bytes behind the position plus the two
  metadata blocks, with \<open>0 < g < len\<close>, then the whole rest of the message is copied, whatever \<open>len\<close> is.
\<close>

theorem read_can_exceed_buffer:
  assumes ok: "driver_ok s" and list: "valid_blk_list s = pre @ el # rest" and at: "session_at f (el_nsec el) s"
    and m: "messages s (unat (ndx el)) = Some (el_nsec el, msg)" and p: "p < length msg"
    and g: "0 < g" "g < unat len" "unat len < 2 ^ 63"
    and env: "read_env_ok env" "rest \<noteq> [] \<longrightarrow> ts_alloc env \<noteq> None"
  shows "\<exists>off' f' s'. bldms_read env (file_pos (unat (ndx el)) (p + 8192 + g)) len (file_pos (unat (ndx el)) p) f s =
     Inr ((Inr (word_of_nat (length msg - p)), drop p msg), off', f', s')"
proof -
  have V: "length msg \<le> 4086" using messages_Some [OF ok m] by metis
  have i: "unat (ndx el) < 1000" using listed_small(1) [OF ok] list by simp
  have clamp: "read_clamp (file_pos (unat (ndx el)) (p + 8192 + g)) (file_pos (unat (ndx el)) p) len =
      Some (file_pos (unat (ndx el)) p, word_of_nat (10 + p), word_of_nat (4086 - p))"
    using p V by (intro read_clamp_grows [OF _ i g]) simp
  have k: "min (4086 - p) (length msg - p) = length msg - p" using V by simp
  show ?thesis
    using read_message_clamped [OF ok list at index_before [OF ok list] m disjI1 [OF p] clamp order_refl env] p
    unfolding k by (cases rest) (simp_all add: read_next_def Let_def)
qed

theorem read_can_exceed_buffer_witness:
  "\<exists>s'. put_data (demo_put 6 (Ktime 5)) [1, 2, 3] demo = Inr (Inr 1, s') \<and>
     (\<exists>off' f' s''. bldms_read (demo_read 30) 12299 2 (file_pos 1 0)
        \<lparr>f_mode = O_RDONLY, f_pos = 0, private_data = Some (20, Ktime 5)\<rparr> (s'\<lparr>live := insert 20 (live s')\<rparr>) =
        Inr ((Inr 3, [1, 2, 3]), off', f', s''))"
proof -
  let ?env = "demo_put 6 (Ktime 5)" and ?src = "[1, 2, 3]"
  let ?p = "put_result 1 7 (put_obj ?env ?src 8) (put_buffer ?env ?src) demo"
  let ?s = "?p\<lparr>live := insert 20 (live ?p)\<rparr>"
  let ?f = "\<lparr>f_mode = O_RDONLY, f_pos = 0, private_data = Some (20, Ktime 5)\<rparr>"
  have r: "put_ready ?env ?src demo 6 7 8" by (rule demo_put_ready) simp
  have br: "bread ?env (1 + NUM_METADATA_BLKS)" by (simp add: demo_put_def)
  have c: "call_ok (Put ?env ?src) demo" by (simp add: put_env_ok_def allocs_def demo_put_def demo_fields)
  note put = put_data_success [OF demo_ok r demo_target br]
  have ok: "driver_ok ?p" using put_sim [OF demo_ok c] put by auto
  have "set (owned ?p) \<subseteq> insert 20 (live ?p)" using ok by (auto simp: driver_ok_def mem_ok_def)
  note fr = live_frame [OF ok this]
  have m: "messages ?s 1 = Some (Ktime 5, ?src)"
    using put_result_store [OF demo_ok demo_target, of ?src 7 ?env 8] fr(2)
    by (simp add: store_of_def layout_consts) (simp add: demo_put_def)
  have "(Ktime 7 < Ktime 5) = False" by (simp add: less_ktime_def)
  then have list: "valid_blk_list ?s = [] @ rcu_fill 7 1 3 (Ktime 5) # [rcu_fill 5 0 2 (Ktime 7)]"
    by (simp add: put_result_def demo_fields insert_in_order_def) (simp add: demo_put_def)
  have at: "session_at ?f (el_nsec (rcu_fill 7 1 3 (Ktime 5))) ?s" by (simp add: session_at_def)
  have "file_pos 1 (0 + 8192 + 1) = 12299" by (simp add: file_pos_def)
  with put read_can_exceed_buffer [OF fr(1) list at, of ?src 0 1 2 "demo_read 30"] m show ?thesis
    by (simp add: demo_read_ok(1)) (simp add: demo_read_def)
qed

text \<open>
  Whatever buffers a listing of the root directory is made with, the calls deliver the first
  entries of the directory itself, its parent and the single file, each once and in that order,
  and stop at the position of the next entry: an entry that a buffer refuses is not lost. Three
  buffers that take every entry are enough for the whole listing.
\<close>

lemma directory_listing:
  "\<exists>k \<le> 3. listing_calls emits 0 = (take k [Dot, DotDot, FileEntry ''the_file'' 1], int k) \<and>
     min 3 (length (filter (\<lambda>emit. \<forall>e. emit e) emits)) \<le> k"
  using listing_calls_prefix [of 0 emits]
  by (simp add: root_entries_def UNIQUE_FILE_NAME_def BLDMS_SINGLEFILE_INODE_NUMBER_def)

text \<open>
  The size that a lookup of the file gives to the kernel fits the driver's array: after any
  sequence of calls on a driver mounted on a well-formed device, the lookup of the file finds the
  inode, whose size is that of as many blocks as the driver has metadata for; the calls change
  neither. Any other name is not found.
\<close>

lemma lookup_size_fits_device:
  assumes s: "mountable s" and cs: "run_ok do_call call_ok cs s"
  shows "\<exists>rs s'. run do_call cs s = Inr (rs, s') \<and> md_array_size s' = md_array_size s \<and>
     (\<forall>inode child. d_name child = ''the_file'' \<and> i_new inode \<longrightarrow>
        (\<exists>child' ino. bldms_lookup (Some inode) (\<lambda>_. True) (disk s') child = (Returned child', Some ino) \<and>
           d_inode child' = Some ino \<and> unat (i_size ino) div DEFAULT_BLOCK_SIZE = md_array_size s)) \<and>
     (\<forall>iget child. d_name child \<noteq> ''the_file'' \<longrightarrow> bldms_lookup iget (\<lambda>_. True) (disk s') child = (NoEntry, None))"
proof -
  obtain rs s' where r: "run do_call cs s = Inr (rs, s')" "mountable s'"
    "run_spec spec_call cs (store_of s) = (rs, store_of s')"
    using durable.run_sim [OF s cs] by auto
  have "md_array_size s' = md_array_size s"
    using durable.run_keeps [OF _ s cs r(1), of md_array_size] do_call_header by (auto simp: mountable_def)
  with r show ?thesis
    by (auto simp: mountable_def intro: lookup_header [unfolded UNIQUE_FILE_NAME_def]
        lookup_other [unfolded UNIQUE_FILE_NAME_def])
qed

section \<open>List of valid blocks and on-disk layout\<close>

text \<open>
  Property C25. The in-order insertion, a backward walk, is the library's insertion sort step on the timestamps:
  the list of any sequence of insertions into an empty list is sorted by timestamp and
  holds exactly the inserted elements.
\<close>

theorem in_order_insertion_sorts:
  "sorted (map el_nsec (valid_blk_list (fold (\<lambda>(a, i, vb, t) s. add_valid_block_in_order_secure a i vb t s) xs
      (s\<lparr>valid_blk_list := []\<rparr>)))) \<and>
   mset (valid_blk_list (fold (\<lambda>(a, i, vb, t) s. add_valid_block_in_order_secure a i vb t s) xs
      (s\<lparr>valid_blk_list := []\<rparr>))) = mset (map (\<lambda>(a, i, vb, t). rcu_fill a i vb t) xs)"
proof -
  let ?add = "\<lambda>(a, i, vb, t) s. add_valid_block_in_order_secure a i vb t s"
  let ?el = "\<lambda>(a, i, vb, t). rcu_fill a i vb t"
  have "sorted (map el_nsec (valid_blk_list s)) \<Longrightarrow> sorted (map el_nsec (valid_blk_list (fold ?add xs s))) \<and>
      mset (valid_blk_list (fold ?add xs s)) = mset (map ?el xs) + mset (valid_blk_list s)" for s :: "'a rcu_scheme"
    by (induction xs arbitrary: s) (auto simp: sorted_insert_in_order)
  from this [of "s\<lparr>valid_blk_list := []\<rparr>"] show ?thesis by simp
qed



section \<open>Mounting and unmounting\<close>



text \<open>
  Property C37. Unmounting empties the list, clears the globals and frees the list elements and the array when a
  freed element can still be read; the metadata objects of all blocks stay allocated with no
  pointer left to them, and with a message on the device the wait for a grace period is made
  with the spinlock held.
\<close>

theorem unmount_releases_all_but_metadata:
  assumes ok: "driver_ok s"
  shows "\<exists>s'. bldms_fs_kill_sb True s = Inr s' \<and> \<not> bldms_mounted s' \<and> valid_blk_list s' = [] \<and>
     metadata_array s' = None \<and> md_array_size s' = 0 \<and> \<not> the_dev_superblock s' \<and> \<not> rcu_write_lock s' \<and>
     live s' \<inter> set (owned s) = set (map md_addr (md_objs s)) \<and> owned s' = [] \<and>
     (messages s \<noteq> Map.empty \<longrightarrow> slept_locked s')"
proof -
  obtain arr where arr: "metadata_array s = Some arr" using ok by (auto simp: driver_ok_def shape_ok_def)
  have d: "distinct (arr_addr arr # map md_addr (arr_elems arr) @ map el_addr (valid_blk_list s))"
    "set (arr_addr arr # map md_addr (arr_elems arr) @ map el_addr (valid_blk_list s)) \<subseteq> live s"
    using ok by (simp_all add: driver_ok_def mem_ok_def owned_def arr)
  define A E where "A = set (map md_addr (arr_elems arr))" and "E = el_addr ` set (valid_blk_list s)"
  have "set (owned s) = insert (arr_addr arr) (A \<union> E)" "live (unmounted s) = live s - insert (arr_addr arr) E"
    by (simp_all add: owned_def arr A_def E_def unmounted_def)
  moreover have "arr_addr arr \<notin> A" "A \<inter> E = {}" "A \<subseteq> live s" using d by (auto simp: A_def E_def)
  ultimately have "live (unmounted s) \<inter> set (owned s) = A" by auto
  moreover have "valid_blk_list s \<noteq> []" if ne: "messages s \<noteq> Map.empty"
  proof -
    from ne obtain i where "messages s i \<noteq> None" by (auto simp: fun_eq_iff)
    then show ?thesis using messages_dom [of s i] ok by (auto simp: driver_ok_def list_lookup_def)
  qed
  moreover have "\<not> rcu_write_lock s" using ok by (simp add: driver_ok_def shape_ok_def)
  ultimately show ?thesis
    using unmount_success [OF ok] unmount_leak(2) [OF ok] by (auto simp: unmounted_def md_objs_def arr A_def)
qed

theorem unmount_releases_all_but_metadata_witness:
  "\<exists>s'. bldms_fs_kill_sb True demo = Inr s' \<and> live s' \<inter> {1, 2, 3, 4, 5} = {2, 3, 4} \<and> slept_locked s'"
proof -
  have "set (owned demo) = {1, 2, 3, 4, 5}" by (auto simp: owned_def demo_def rcu_fill_def)
  with unmount_releases_all_but_metadata [OF demo_ok] show ?thesis
    by (auto simp: demo_objs demo_messages)
qed





section \<open>Formatter\<close>

text \<open>
  Property C22. What the formatter writes, the driver mounts: for an image of at least two and at most \<open>NBLOCKS + 2\<close>
  blocks on which all writes succeed, the formatter returns 0, keeps the size of the image, and
  the image mounts as a device of \<open>size / 4096 - 2\<close> blocks with the formatter's messages: none,
  or with \<open>FILL_DEV\<close> the five sample messages with their shifted timestamps.
\<close>

theorem formatted_image_mounts:
  assumes env: "mkfs_env_ok env" and sz: "8192 \<le> length img" "length img \<le> 8192 + NBLOCKS * DEFAULT_BLOCK_SIZE"
    and mb: "mount_bdev_ok mb"
    and fill: "\<And>d. fill_env_ok fenv ((length img - 8192) div 4096) (bldms_start d)"
  shows "\<exists>img' root s'. main env img = (0, img') \<and> length img' = length img \<and>
     bldms_fs_mount mb True True stale fenv (bldms_start (blocks_of img')) = Inr (Inr root, s') \<and> driver_ok s' \<and>
     md_array_size s' = (length img - 8192) div 4096 \<and> messages s' = makefs_messages env ((length img - 8192) div 4096)"
proof -
  obtain img' root s' where "main env img = (0, img')" "length img' = length img"
    "bldms_fs_mount mb True True stale fenv (bldms_start (blocks_of img')) = Inr (Inr root, s')"
    "alive ((length img - 8192) div 4096) s'" "messages s' = makefs_messages env ((length img - 8192) div 4096)"
    by (rule formatted_image_alive [OF assms])
  then show ?thesis by (auto simp: alive_def)
qed

theorem formatted_image_mounts_witness:
  "\<exists>img' root s'. main demo_mkfs (replicate 20480 0) = (0, img') \<and>
     bldms_fs_mount demo_bdev True True True demo_fill (bldms_start (blocks_of img')) = Inr (Inr root, s') \<and>
     (\<exists>msg. messages s' 0 = Some (Ktime 101000000000, msg)) \<and> messages s' 1 = None"
proof -
  note mb = demo_bdev_ok
  have f: "fill_env_ok demo_fill 3 (bldms_start d)" for d by (rule demo_fill_ok) (simp add: bldms_start_def)
  have m: "\<exists>msg. makefs_messages demo_mkfs 3 0 = Some (Ktime 101000000000, msg)" "makefs_messages demo_mkfs 3 1 = None"
    by (simp_all add: demo_mkfs_def makefs_messages_def fill_string_def fill_nsec_def BILLION_def)
  have "length (replicate 20480 (0 :: byte)) = 20480" by simp
  from formatted_image_mounts [OF demo_mkfs_ok, of "replicate 20480 0", unfolded this, OF _ _ mb, of demo_fill True] f m show ?thesis
    by (auto simp: layout_consts)
qed

section \<open>System-call table\<close>





text \<open>
  The page walk answers for pages: two addresses of the same page have the same mapping, so that
  the search may test one address of every page.
\<close>

lemma mapping_is_per_page:
  assumes "a AND ADDRESS_MASK = b AND ADDRESS_MASK"
  shows "sys_vtpmo m a = sys_vtpmo m b"
  using sys_vtpmo_page [of m a] sys_vtpmo_page [of m b] assms by simp

lemma mapping_is_per_page_example:
  "sys_vtpmo demo_machine START = sys_vtpmo demo_machine (START + 8)"
  by (rule mapping_is_per_page) (simp add: START_def ADDRESS_MASK_def)

text \<open>
  Property C40. The module's initialisation: with fewer than three free entries it fails and changes nothing. With
  three it installs the system calls and returns what \<open>register_filesystem\<close> returned, also
  when that is an error: the module is then not loaded although its system calls stay in the
  table.
\<close>

theorem module_init_outcomes:
  "(num_entries_found (lib t) < HACKED_ENTRIES \<longrightarrow> bldms_init calls reg t = Inr (-1, t)) \<and>
   (three_entries t a b c \<longrightarrow> (\<exists>t'. bldms_init [p, g, v] reg t = Inr (reg, t') \<and>
      table t' = (table t)(nat a := p, nat b := g, nat c := v) \<and> cr0_register t' = cr0_register t))"
  using register_refused [of t calls] register_success [of t a b c p g v] by (auto simp: bldms_init_def)

theorem module_init_outcomes_witness:
  "\<exists>t'. bldms_init [1, 2, 3] (-16)
       \<lparr>lib = \<lparr>sys_call_table_address = 0, sys_ni_syscall_address = 9,
          free_entries = [134, 174, 182] @ replicate 12 0, num_entries_found = 3, restore = restore_init\<rparr>,
        table = (\<lambda>_. 9), table_size = 256, cr0_register = 0x80050033, cr0 = 0, the_syscall_table = 0, the_ni_syscall = 0,
        restore_entries = [0, 0, 0], indexes = [0, 0, 0]\<rparr> = Inr (-16, t') \<and>
     table t' 134 = 1 \<and> table t' 174 = 2 \<and> table t' 182 = 3 \<and> cr0_register t' = 0x80050033"
proof -
  let ?t = "\<lparr>lib = \<lparr>sys_call_table_address = 0, sys_ni_syscall_address = 9,
          free_entries = [134, 174, 182] @ replicate 12 0, num_entries_found = 3, restore = restore_init\<rparr>,
        table = (\<lambda>_. 9), table_size = 256, cr0_register = 0x80050033, cr0 = 0, the_syscall_table = 0, the_ni_syscall = 0,
        restore_entries = [0, 0, 0], indexes = [0, 0, 0]\<rparr>"
  have "three_entries ?t 134 174 182"
    by (simp add: three_entries_def lib_ok_def MAX_FREE_def HACKED_ENTRIES_def eval_nat_numeral)
  with module_init_outcomes [of ?t "[]" "-16" 134 174 182 1 2 3] show ?thesis by auto
qed

text \<open>
  The library serves only its first client: it stores the entries it gives out at their place in
  \<open>restore\<close> instead of counting them from zero, so that a second request for one entry is answered with
  success and the entry \<open>-1\<close>, while a free entry is marked as taken.
\<close>

lemma second_acquisition_is_unusable:
  assumes "length (free_entries l) = MAX_FREE" "2 \<le> num_entries_found l" "restore l = [a, -1, -1, -1]" "a \<noteq> -1"
  shows "\<exists>l'. get_entries 1 l = Inr (Inr (1, [-1], [-1], sys_call_table_address l, sys_ni_syscall_address l), l') \<and>
     restore l' = [a, free_entries l ! 1, -1, -1]"
  using get_entries_second [OF assms] by simp

section \<open>Concurrent callers\<close>

text \<open>
  Property C2. Any number of threads may call the three system calls, and open, read, rewind and
  close the file, at the same time, in any interleaving of the steps the calls are made of: from a mounted driver in its invariant, no step
  ever uses memory that is freed or not allocated, frees memory twice, or misuses the lock; the
  driver's invariant holds throughout, but for the block that is written and not yet published;
  the lock is held exactly while one thread has such a block, and the links of the list always run
  through the elements of valid blocks in the order of their timestamps.
\<close>

theorem concurrent_calls_are_safe:
  assumes "reachable conc_start conc_step c"
  shows "\<not> conc_step c (Inl f) \<and> driver_ok (settled c) \<and>
     (rcu_write_lock (drv c) \<longleftrightarrow> (\<exists>i. wrote (threads c i) \<noteq> None)) \<and>
     (\<forall>i j. wrote (threads c i) \<noteq> None \<longrightarrow> wrote (threads c j) \<noteq> None \<longrightarrow> i = j) \<and>
     chain (nxt c) None (map el_addr (valid_blk_list (drv c))) \<and>
     sorted (map el_nsec (valid_blk_list (drv c)))"
proof -
  have c: "cinv c" by (rule conc.reachable_inv [OF assms])
  have "(rcu_write_lock (drv c) \<longleftrightarrow> (\<exists>i. wrote (threads c i) \<noteq> None)) \<and>
     (\<forall>i j. wrote (threads c i) \<noteq> None \<longrightarrow> wrote (threads c j) \<noteq> None \<longrightarrow> i = j)"
    using c by (auto simp: cinv_def lock_inv_def split: option.splits) (metis option.distinct(1))+
  then show ?thesis
    using c conc.never_faults [OF assms] cinv_list(4) [OF c] by (simp add: cinv_def ptr_inv_def index_ok_def)
qed

theorem concurrent_calls_are_safe_witness:
  "(\<forall>f. \<not> conc_step race6 (Inl f)) \<and> rcu_write_lock (drv race6) \<and> driver_ok (settled race6)"
  using concurrent_calls_are_safe [OF race_written] race6_facts(3) by (metis option.distinct(1) wrote.simps(1))

text \<open>
  Property C3. The writing calls are linearizable: in every reachable state, a step at which a \<open>put_data\<close>
  or an \<open>invalidate_data\<close> takes effect (the publication of the block, the removal from the list, or
  the failure under the lock) changes the store as the specification of the call does, and its
  reply is the specification's; every other step leaves the store as it was.
\<close>

theorem concurrent_writers_linearize:
  assumes "reachable conc_start conc_step c" "cstep c i (Inr c')"
  shows "case effect (threads c i) (threads c' i) of
      Some (call, r) \<Rightarrow> spec_call call (store_of (settled c)) = (r, store_of (settled c'))
    | None \<Rightarrow> store_of (settled c') = store_of (settled c)"
  using cstep_effect [OF conc.reachable_inv [OF assms(1)] assms(2)] .

theorem concurrent_writers_linearize_witness:
  "spec_invalidate (\<lambda>_. True) 0 (store_of (settled race3)) = (Inr (), store_of (settled race4))"
  using concurrent_writers_linearize [OF race_reachable(4) race4_facts(1)]
  by (simp add: race_threads race4_facts split: prod.splits)

text \<open>
  Property C4. A reader and the writers beside it: when a block's element stays in the list from the
  moment a \<open>get_data\<close> of the block has entered its read-side section to its last step, whatever
  other threads insert, remove, write and free meanwhile, the walk along the changing links does
  not miss the element, and the reply is the one that the specification gives on the store at the
  last step.
\<close>

theorem get_data_among_writers:
  assumes "reachable conc_start conc_step c" "threads c i = Idle" "call_ok (Get env (ndx el) sz) (drv c)"
    and "get_call i env (ndx el) sz c = Inr c0"
    and "during (\<lambda>c. el \<in> set (valid_blk_list (drv c)) \<and> in_section (threads c i)) c0 c'"
    and "cstep c' i (Inr c'')" "threads c'' i = Done r"
  shows "r = Fetched (spec_get env (ndx el) sz (store_of (settled c')))"
  by (rule present_answer [OF conc.reachable_inv [OF assms(1)] assms(2-7)])

theorem get_data_among_writers_witness:
  "\<exists>c'' r. cstep race3 0 (Inr c'') \<and> threads c'' 0 = Done r \<and>
     r = Fetched (spec_get demo_get 0 10 (store_of (settled race3)))"
proof -
  let ?el = "rcu_fill 5 0 2 (Ktime 7)"
  let ?P = "\<lambda>c. ?el \<in> set (valid_blk_list (drv c)) \<and> in_section (threads c 0)"
  have call: "get_call 0 demo_get (ndx ?el) 10 race0 = Inr race1" "call_ok (Get demo_get (ndx ?el) 10) (drv race0)"
    by (simp_all add: get_call_def race_drv get_enter_def tiny_fields listed_def race1_def demo_get_def)
  have P: "?P race1" "?P race2" "?P race3" by (simp_all add: race_drv race_threads tiny_fields)
  have run: "during ?P race1 race3"
    using during.during_step [OF during.during_step [OF during.during_start [of ?P, OF P(1)] _ P(2)] _ P(3)] race_steps(2,3)
    by (auto simp: conc_step_def)
  obtain c'' where c'': "get_read 0 demo_get 0 10 ?el race3 = Inr c''"
    using get_read_ok [OF conc.reachable_inv [OF race_reachable(4)] race_threads(5)] by blast
  then have s: "cstep race3 0 (Inr c'')" using cstep.step_read [OF race_threads(5)] by simp
  obtain r where r: "threads c'' 0 = Done r" using c'' by (auto simp: get_read_def andThen_eq_Inr leave_def)
  from get_data_among_writers [OF race_reachable(1) _ call(2,1) run s r] s r show ?thesis
    by (auto simp: race_threads)
qed





text \<open>
  Property C34. What the read-side section does not protect: it keeps the list element of a reader
  allocated, not the content of the block. When the block was invalidated and given to a
  \<open>put_data\<close> that has written it after the reader found the old element, the reader copies the bytes
  of the new message, which is not published yet, cut or padded to the length of the old one.
\<close>

theorem overlapping_read_mixes_messages:
  assumes "reachable conc_start conc_step c"
    and "threads c i = Reads env (word_of_nat t) sz el" "threads c j = PutWrote env' source b e m t"
    and "get_bread env (t + NUM_METADATA_BLKS)" "\<forall>n. uncopied env n = 0"
  shows "\<exists>c'. cstep c i (Inr c') \<and> threads c' i = Done (Fetched (Inr
     (word_of_nat (min (unat sz) (unat (el_valid_bytes el))),
      take (min (unat sz) (unat (el_valid_bytes el))) (source @ replicate (4086 - length source) 0)))) \<and>
     messages (settled c) t = None"
proof -
  note c = conc.reachable_inv [OF assms(1)]
  obtain old where "find_target (settled c) = Inr (Some t)" by (rule wrote_facts [OF c assms(3)])
  then have "messages (settled c) t = None"
    using find_target_Some(2) [of "settled c" t] c by (simp add: messages_def cinv_def)
  then show ?thesis
    using overwritten_copy [OF c assms(2-5)] cstep.step_read [OF assms(2)] by (auto simp: get_read_def leave_def)
qed

theorem overlapping_read_mixes_messages_witness:
  "\<exists>c'. cstep race6 0 (Inr c') \<and> threads c' 0 = Done (Fetched (Inr (2, [1, 2]))) \<and> messages (settled race6) 0 = None"
proof -
  have "threads race6 0 = Reads demo_get (word_of_nat 0) 10 (rcu_fill 5 0 2 (Ktime 7))"
    by (simp add: race6_facts(2) race_threads)
  from overlapping_read_mixes_messages [OF race_written this race6_facts(3)] show ?thesis
    by (simp add: demo_get_def)
qed

text \<open>
  Property C17. No deadlock: as long as some thread is inside a call, some thread inside a call can take
  a step, and the step does not fault. A thread that waits for the lock waits for a thread that
  can release it, and one that waits for a grace period for readers that can go on.
\<close>

theorem callers_are_never_stuck:
  assumes "reachable conc_start conc_step c" "threads c i \<noteq> Idle"
  shows "\<exists>j c'. threads c j \<noteq> Idle \<and> cstep c j (Inr c')"
  by (rule busy_can_step [OF conc.reachable_inv [OF assms(1)] assms(2)])

theorem callers_are_never_stuck_witness:
  "\<exists>j c'. threads race6 j \<noteq> Idle \<and> cstep race6 j (Inr c')"
  using callers_are_never_stuck [OF race_written, of 2] by (simp add: race6_facts(3))

section \<open>Unmounting beside system calls\<close>



text \<open>
  Property C35. A reader can outlive the unmount: the unmount waits for readers only while it takes
  elements out of the list. When the list is already empty, it finishes beside a \<open>get_data\<close> that
  stands in its read-side section; the device has been released and the superblock is gone, and
  the reader goes on to read its block through the superblock it took before.
\<close>

theorem reader_outlives_unmount:
  assumes "reachable teardown_start (teardown_step u) x" "stage x = ShutDown" "\<not> rcu_write_lock (drv (body x))"
    and "valid_blk_list (drv (body x)) = []" "threads (body x) i = Reads env offset sz el"
  shows "\<exists>y z w r. teardown_step u x (Inr y) \<and> teardown_step u y (Inr z) \<and> stage z = Gone \<and>
     \<not> bldms_mounted (drv (body z)) \<and> \<not> the_dev_superblock (drv (body z)) \<and> threads (body z) i = Reads env offset sz el \<and>
     teardown_step u z (Inr w) \<and> get_copy env offset sz el (drv (body x)) = Inr r \<and> threads (body w) i = Done (Fetched r)"
  by (rule reader_left_behind [OF tear.reachable_inv [OF assms(1)] assms(2-5)])

theorem reader_outlives_unmount_witness:
  "\<exists>y z w r. teardown_step 3 unmount_after_removal (Inr y) \<and> teardown_step 3 y (Inr z) \<and> stage z = Gone \<and>
     teardown_step 3 z (Inr w) \<and> threads (body w) 0 = Done (Fetched r)"
  using reader_outlives_unmount [OF unmount_after_removal_reachable unmount_after_removal_fields] by blast

section \<open>The life of a device\<close>

text \<open>The first steps of a life, on the example device.\<close>

lemma demo_life:
  "reachable (system_start 3) system_step (Unmounted (bldms_start demo_disk))"
  "\<exists>c. system_step (Unmounted (bldms_start demo_disk)) (Inr (Mounted c))"
proof -
  show "reachable (system_start 3) system_step (Unmounted (bldms_start demo_disk))"
    using demo_formatted by (intro reach_start) (auto simp: system_start_def)
  note mb = demo_bdev_ok
  have env: "fill_env_ok demo_fill 3 (bldms_start demo_disk)" by (rule demo_fill_ok) (simp add: bldms_start_def)
  have "well_formed 3 (Unmounted (bldms_start demo_disk))" using demo_formatted by (simp add: bldms_start_def)
  from mount_ok [OF this mb env, of True] obtain root s' where
    "bldms_fs_mount demo_bdev True True True demo_fill (bldms_start demo_disk) = Inr (Inr root, s')" by blast
  then show "\<exists>c. system_step (Unmounted (bldms_start demo_disk)) (Inr (Mounted c))"
    using system_step.mount [OF mb _ env, of True] demo_formatted by (auto simp: after_mount_def bldms_start_def)
qed



text \<open>
  Property C8. Messages survive remounts, and only calls change them: in the life of a device, with
  any number of threads at work while it is mounted, a step that changes the messages is one in
  which a \<open>put_data\<close> or an \<open>invalidate_data\<close> of some thread takes effect, and it changes the store
  as the specification of that call says. A mount makes the messages of the device available and an
  unmount leaves them there. The unmount is the one in which a freed list element
  still holds its link (see property C38 for the other).
\<close>

theorem messages_survive_remounts:
  assumes "reachable (system_start n) system_step x" "system_step x (Inr x')"
  shows "content_of n x' = content_of n x \<or>
     (\<exists>c c' i call r. x = Mounted c \<and> x' = Mounted c' \<and> effect (threads c i) (threads c' i) = Some (call, r) \<and>
        spec_call call (store_of (settled c)) = (r, store_of (settled c')))"
proof -
  have x: "well_formed n x" by (rule life.reachable_inv [OF assms(1)])
  from system_step_ok [OF x assms(2)] consider "content_of n x' = content_of n x"
    | c c' i where "x = Mounted c" "x' = Mounted c'" "cstep c i (Inr c')" by blast
  then show ?thesis
  proof cases
    case 2
    then have "case effect (threads c i) (threads c' i) of
        Some (call, r) \<Rightarrow> spec_call call (store_of (settled c)) = (r, store_of (settled c'))
      | None \<Rightarrow> store_of (settled c') = store_of (settled c)" using cstep_effect x by simp
    moreover have "messages (settled c') = messages (settled c)" if "store_of (settled c') = store_of (settled c)"
      using arg_cong [OF that, of content] by simp
    ultimately show ?thesis using 2 by (auto split: option.splits)
  qed simp
qed

theorem messages_survive_remounts_witness:
  "\<exists>c. system_step (Unmounted (bldms_start demo_disk)) (Inr (Mounted c)) \<and>
     messages (settled c) = [0 \<mapsto> (Ktime 7, [104, 105])]"
proof -
  obtain c where "system_step (Unmounted (bldms_start demo_disk)) (Inr (Mounted c))" using demo_life(2) by blast
  with messages_survive_remounts [OF demo_life(1) this] demo_device_messages show ?thesis by (auto simp: bldms_start_def)
qed

section \<open>The client programs\<close>

text \<open>
  Property C18. The repository's test passes: on every mounted device with at least one block,
  whatever messages it holds, and on a kernel that does not fail, \<open>test.c\<close>, called with its four
  arguments, exits with status 0; with fewer arguments it exits with status 1 and does nothing.
  The device is emptied and filled, a further message is refused with \<open>ENOMEM\<close>, one that is too
  long with \<open>E2BIG\<close>, a short message goes to the block that was freed and comes back with its 51
  bytes, and its block is empty after the invalidation. At the end the driver is in its invariant
  and every block but the last holds a message.
\<close>

theorem test_program_passes:
  assumes "kernel_ok (set_numbers argv k)" "driver_ok s" "finite (live s)" "0 < md_array_size s"
  shows "if length argv < 5 then test_main argv k (file_bytes s) s = Inr (Inl 1, s)
     else \<exists>s'. test_main argv k (file_bytes s) s = Inr (Inr 0, s') \<and> driver_ok s' \<and>
       dom (messages s') = {..<md_array_size s - 1}"
  using test_main_passes [of "set_numbers argv k" "md_array_size s" s argv k] assms by (auto simp: alive_def test_main_def)

theorem test_program_passes_witness:
  "\<exists>s'. test_main demo_argv demo_kernel (file_bytes demo) demo = Inr (Inr 0, s') \<and> dom (messages s') = {..<2}"
  using test_program_passes [OF demo_kernel_ok demo_ok] by (auto simp: demo_fields demo_argv_def)

text \<open>
  Property C11. The parts put together: the discovery module finds the table and its free entries; the
  driver is loaded with them; the formatter writes an image of at least one data block, which is
  mounted; and the test program, called with the numbers of those entries on its command line,
  reaches \<open>put_data\<close>, \<open>get_data\<close> and \<open>invalidate_data\<close> through the table and exits with status 0. After the
  module's exit the three numbers lead to none of the three calls. (The addresses of the three
  calls are different, and none is that of \<open>sys_ni_syscall\<close>.)
\<close>

theorem installed_system_passes_test:
  assumes "init_module m = Some l" "ENTRIES_TO_EXPLORE \<le> sz" "distinct [p, g, v]" "sys_ni_syscall_address l \<notin> {p, g, v}"
    and "mkfs_env_ok env" "12288 \<le> length img" "length img \<le> 8192 + NBLOCKS * DEFAULT_BLOCK_SIZE"
    and "mount_bdev_ok mb" "\<And>d. fill_env_ok fenv ((length img - 8192) div 4096) (bldms_start d)"
    and "reliable k" "5 \<le> length argv" "map atol [argv ! 2, argv ! 3, argv ! 4] = take 3 (free_entries l)"
  shows "\<exists>t img' root s s' t'. bldms_init [p, g, v] 0 (insmod_state m l sz reg) = Inr (0, t) \<and> main env img = (0, img') \<and>
     bldms_fs_mount mb True True stale fenv (bldms_start (blocks_of img')) = Inr (Inr root, s) \<and>
     test_main argv (with_table [p, g, v] t k) (file_bytes s) s = Inr (Inr 0, s') \<and>
     dom (messages s') = {..<(length img - 8192) div 4096 - 1} \<and>
     bldms_exit t = Inr t' \<and> (\<forall>nr \<in> set (take 3 (free_entries l)). routine_at [p, g, v] t' nr = None)"
proof -
  let ?n = "(length img - 8192) div 4096"
  obtain t where t: "bldms_init [p, g, v] 0 (insmod_state m l sz reg) = Inr (0, t)"
    "kernel_ok (set_numbers argv (with_table [p, g, v] t k))"
    by (rule installed_kernel [OF assms(1-3,10,12)])
  have "8192 \<le> length img" using assms(6) by simp
  then obtain img' root s where s: "main env img = (0, img')"
    "bldms_fs_mount mb True True stale fenv (bldms_start (blocks_of img')) = Inr (Inr root, s)" "alive ?n s"
    by (rule formatted_image_alive [OF assms(5) _ assms(7-9)])
  have "0 < ?n" using assms(6) by (simp add: div_greater_zero_iff)
  from test_main_passes [OF t(2) s(3) this assms(11) refl] removed_numbers [OF assms(1-4) t(1)] t(1) s(1,2)
  show ?thesis by blast
qed

theorem installed_system_passes_test_witness:
  "\<exists>l t img' root s s'. init_module demo_machine = Some l \<and> bldms_init [1, 2, 3] 0 (insmod_state demo_machine l 512 0x80050033) = Inr (0, t) \<and>
     main demo_mkfs (replicate 20480 0) = (0, img') \<and>
     bldms_fs_mount demo_bdev True True True demo_fill (bldms_start (blocks_of img')) = Inr (Inr root, s) \<and>
     test_main demo_argv (with_table [1, 2, 3] t demo_kernel) (file_bytes s) s = Inr (Inr 0, s') \<and> dom (messages s') = {..<2}"
proof -
  obtain l where l: "init_module demo_machine = Some l" "take 3 (free_entries l) = [134, 174, 182]" "sys_ni_syscall_address l = demo_ni"
    by (rule demo_module)
  have f: "fill_env_ok demo_fill 3 (bldms_start d)" for d by (rule demo_fill_ok) (simp add: bldms_start_def)
  have k: "reliable demo_kernel" using demo_kernel_ok by (simp add: kernel_ok_def)
  have nr: "map atol [demo_argv ! 2, demo_argv ! 3, demo_argv ! 4] = take 3 (free_entries l)"
    by (simp add: l(2) demo_argv_def atol_def decimal_def isspace_def isdigit_def)
  have n: "length (replicate 20480 (0 :: byte)) = 20480" by simp
  from installed_system_passes_test [OF l(1) _ _ _ demo_mkfs_ok, of 512 1 2 3 "replicate 20480 0", unfolded n,
      OF _ _ _ _ _ demo_bdev_ok _ k _ nr, of demo_fill "0x80050033" True] l(1,3) f
  show ?thesis by (auto simp: layout_consts ENTRIES_TO_EXPLORE_def demo_ni_def demo_argv_def)
qed

text \<open>
  Property C21. The demonstration \<open>user.c\<close>, called with its four arguments, runs to its end: on a device with at least twenty free
  blocks and a kernel that does not fail, its reading loop ends after finitely many reads, it
  exits with status 0, every second of its messages is on the device in a block that was free
  before, and all other blocks are as they were.
\<close>

theorem user_program_completes:
  assumes "kernel_ok (set_numbers argv k)" "driver_ok s" "finite (live s)" "5 \<le> length argv"
    and "\<forall>i t m. messages s i = Some (t, m) \<longrightarrow> Ktime 0 < t"
    and "NUM_MESSAGES \<le> card {i. i < md_array_size s \<and> messages s i = None}"
  shows "\<exists>m ids s'. user_main argv m k (file_bytes s) s = Some (Inr (0, s')) \<and> driver_ok s' \<and>
     length ids = NUM_MESSAGES \<and> distinct ids \<and> (\<forall>i \<in> set ids. i < md_array_size s \<and> messages s i = None) \<and>
     (\<forall>j < NUM_MESSAGES. odd j \<longrightarrow> (\<exists>t. messages s' (ids ! j) = Some (t, cstring (quotes ! j)))) \<and>
     (\<forall>i. i \<notin> {ids ! j |j. j < NUM_MESSAGES \<and> odd j} \<longrightarrow> messages s' i = messages s i)"
proof -
  have "alive (md_array_size s) s" "stamped s" "NUM_MESSAGES \<le> card (free_slots s)"
    using assms by (simp_all add: alive_def stamped_def free_slots_def)
  from user_main_completes [OF assms(1) this assms(4) refl] obtain m ids s' where
    "user_main argv m k (file_bytes s) s = Some (Inr (0, s'))" "alive (md_array_size s) s'"
    "length ids = NUM_MESSAGES" "distinct ids" "set ids \<subseteq> free_slots s"
    "\<forall>j < NUM_MESSAGES. odd j \<longrightarrow> (\<exists>t. messages s' (ids ! j) = Some (t, cstring (quotes ! j)))"
    "\<forall>i. i \<notin> {ids ! j |j. j < NUM_MESSAGES \<and> odd j} \<longrightarrow> messages s' i = messages s i" by blast
  then show ?thesis
    by (intro exI [of _ m] exI [of _ ids] exI [of _ s']) (auto simp: alive_def free_slots_def)
qed

theorem user_program_completes_witness:
  "\<exists>m s'. user_main demo_argv m demo_kernel (file_bytes (wide 30)) (wide 30) = Some (Inr (0, s')) \<and> driver_ok s'"
proof -
  have "finite (live (wide 30))" by (simp add: wide_def)
  moreover have "{i. i < md_array_size (wide 30) \<and> messages (wide 30) i = None} = {..<30}"
    using wide_alive(3) [of 30] by (simp add: free_slots_def)
  ultimately show ?thesis
    using user_program_completes [OF demo_kernel_ok wide_ok, of 30] by (auto simp: wide_messages NUM_MESSAGES_def demo_argv_def)
qed

text \<open>
  Property C19. The stress test counts no error: whatever the identifiers of its threads are and
  however the steps of its getters, its writer, its invalidator and its reader of the file are
  interleaved, on a kernel that does not fail no step faults, \<open>total_errors\<close> stays 0, and the driver stays in its invariant.
\<close>

theorem stress_test_counts_no_error:
  assumes "reachable stress_start stress_step x"
  shows "\<not> stress_step x (Inl f) \<and> total_errors x = 0 \<and> driver_ok (settled (sys x))"
  using stress.reachable_inv [OF assms] stress.never_faults [OF assms] by (simp add: stress_inv_def cinv_def)

theorem stress_test_counts_no_error_witness:
  "\<exists>x :: stress. threads (sys x) 0 = Walks demo_get 0 4086 None {5} \<and> total_errors x = 0 \<and> driver_ok (settled (sys x))"
proof -
  obtain x where x: "stress_step demo_stress (Inr x)" "threads (sys x) 0 = Walks demo_get 0 4086 None {5}"
    using demo_stress_step by blast
  have "reachable stress_start stress_step demo_stress" by (rule reach_start) (rule demo_stress_start)
  then have "reachable stress_start stress_step x" using x(1) by (rule reach_step)
  from stress_test_counts_no_error [OF this] x(2) show ?thesis by blast
qed

text \<open>
  Property C20. The stress test comes to its end: from a mounted driver in its invariant, with
  finitely much memory in use, every run of its threads stops after finitely many steps, however
  they are interleaved, the reader's loops over the file included; and where a run cannot go on,
  all threads have been joined and \<open>main\<close> returns 0.
\<close>

theorem stress_test_terminates:
  assumes "stress_begins x"
  shows "(\<forall>trace. trace 0 = x \<longrightarrow> (\<exists>n. \<not> stress_step (trace n) (Inr (trace (Suc n))))) \<and>
     (\<forall>y. (\<lambda>x x'. stress_step x (Inr x'))\<^sup>*\<^sup>* x y \<longrightarrow> (\<exists>y'. stress_step y (Inr y')) \<or> exit_status y = Some 0)"
proof (intro conjI allI impI)
  fix trace :: "nat \<Rightarrow> stress" assume "trace 0 = x"
  then show "\<exists>n. \<not> stress_step (trace n) (Inr (trace (Suc n)))" using stress_ends.no_infinite_run [of trace] assms by simp
next
  fix y assume "(\<lambda>x x'. stress_step x (Inr x'))\<^sup>*\<^sup>* x y"
  then have y: "reachable stress_begins stress_step y"
    by (induction rule: rtranclp_induct) (use assms in \<open>auto intro: reachable.intros\<close>)
  show "(\<exists>y'. stress_step y (Inr y')) \<or> exit_status y = Some 0"
    using stress_ends.steps_until_over [OF y] stress_ends.reachable_inv [OF y]
    by (auto simp: exit_status_def runs_def stress_inv_def)
qed

theorem stress_test_terminates_witness:
  "(\<exists>x'. stress_step demo_stress (Inr x')) \<and>
   (\<nexists>trace. trace 0 = demo_stress \<and> (\<forall>n. stress_step (trace n) (Inr (trace (Suc n)))))"
proof -
  have "stress_begins demo_stress"
    using demo_stress_start by (simp add: stress_begins_def demo_stress_def stress_spawn_def conc_of_def demo_def)
  from stress_test_terminates [OF this] demo_stress_step show ?thesis by blast
qed

end
